(* ===== verification/Velox_Prelude.thy ===== *)
theory Velox_Prelude
  imports Main "HOL-Library.Word"
begin

text \<open>
  The shared vocabulary of the development: the machine integers of the C++ code, the
  results of operations that may have undefined behaviour, C strings in fixed character
  arrays, pointers into an explicit store, and two generic interfaces (an operation that
  keeps an invariant, and a strict order on prices) whose lemmas the components reuse.
\<close>

unbundle bit_operations_syntax

named_theorems level_simps \<open>rewriting the ring buffer of a price level\<close>
named_theorems book_simps \<open>rewriting the pointer structure of an order book\<close>

subsection \<open>Machine integers\<close>

text \<open>
  Unsigned C++ integers are words of their width, so that addition and subtraction wrap.
  \<open>int64_t\<close> values are integers; every arithmetic operation on them is written with
  \<open>s64\<close>, which reduces its result to the 64 bit two's complement range.  (Signed overflow
  is undefined in C++; two's complement is what the supported compilers produce, and the
  theorems that use exact arithmetic state the bounds under which no reduction happens.)
\<close>

type_synonym u8 = "8 word"
type_synonym u16 = "16 word"
type_synonym u32 = "32 word"
type_synonym u64 = "64 word"
type_synonym i64 = int

definition s64 :: "int \<Rightarrow> i64" where
  "s64 x = signed_take_bit 63 x"

lemma word_pos_iff [simp]: "0 < (x :: 'a :: len word) \<longleftrightarrow> x \<noteq> 0"
  by (simp add: word_neq_0_conv)

definition int64_max :: i64 where
  "int64_max = 2 ^ 63 - 1"

definition in_i64 :: "int \<Rightarrow> bool" where
  "in_i64 x \<longleftrightarrow> - (2 ^ 63) \<le> x \<and> x < 2 ^ 63"

lemma s64_id: "in_i64 x \<Longrightarrow> s64 x = x"
  by (simp add: s64_def in_i64_def signed_take_bit_int_eq_self)

lemma s64_range: "in_i64 (s64 x)"
  using signed_take_bit_int_greater_eq_minus_exp [of 63 x]
    signed_take_bit_int_less_exp [of 63 x]
  by (simp add: s64_def in_i64_def)

lemma s64_idem [simp]: "s64 (s64 x) = s64 x"
  by (rule s64_id) (rule s64_range)

lemma int64_max_in_i64: "in_i64 int64_max"
  by (simp add: in_i64_def int64_max_def)

text \<open>Reading the bits of a \<open>uint64_t\<close> as an \<open>int64_t\<close>, and back.\<close>

definition i64_of_u64 :: "u64 \<Rightarrow> i64" where
  "i64_of_u64 w = sint w"

definition u64_of_i64 :: "i64 \<Rightarrow> u64" where
  "u64_of_i64 x = word_of_int x"

subsection \<open>Faults\<close>

text \<open>
  Undefined behaviour that the code can reach is a value: reading through a pointer to a
  deleted object, through a null pointer, or outside a buffer.
\<close>

datatype fault = Dangling_Pointer | Null_Pointer | Out_Of_Bounds

type_synonym 'a res = "fault + 'a"

definition res_bind :: "'a res \<Rightarrow> ('a \<Rightarrow> 'b res) \<Rightarrow> 'b res" where
  "res_bind m f = (case m of Inl e \<Rightarrow> Inl e | Inr x \<Rightarrow> f x)"

lemma res_bind_simps [simp]:
  "res_bind (Inl e) f = Inl e"
  "res_bind (Inr x) f = f x"
  by (simp_all add: res_bind_def)

lemma res_bind_Inr_iff: "res_bind m f = Inr y \<longleftrightarrow> (\<exists>x. m = Inr x \<and> f x = Inr y)"
  by (cases m) simp_all

subsection \<open>C strings\<close>

text \<open>
  A \<open>char\<close> array is the list of its characters; the C string it holds ends before the
  first NUL.  \<open>strncpy\<close> copies at most \<open>n\<close> characters of the source string, pads with
  NULs up to \<open>n\<close> and leaves the rest of the destination as it is.
\<close>

definition NUL :: char where
  "NUL = CHR 0x00"

definition cstr :: "string \<Rightarrow> string" where
  "cstr s = takeWhile (\<lambda>c. c \<noteq> NUL) s"

definition strncpy :: "string \<Rightarrow> string \<Rightarrow> nat \<Rightarrow> string" where
  "strncpy dst src n =
     (let s = take n (cstr src) in s @ replicate (n - length s) NUL @ drop n dst)"

lemma cstr_no_NUL: "NUL \<notin> set (cstr s)"
  by (auto simp: cstr_def dest: set_takeWhileD)

lemma cstr_id: "NUL \<notin> set s \<Longrightarrow> cstr s = s"
  by (auto simp: cstr_def takeWhile_eq_all_conv)

lemma cstr_append_NUL: "NUL \<notin> set s \<Longrightarrow> cstr (s @ NUL # t) = s"
  by (simp add: cstr_def takeWhile_append)

lemma cstr_append: "NUL \<notin> set s \<Longrightarrow> cstr (s @ t) = s @ cstr t"
  by (induction s) (auto simp: cstr_def)

lemma length_strncpy: "length (strncpy dst src n) = max n (length dst)"
  by (simp add: strncpy_def Let_def)

lemma cstr_strncpy_short:
  assumes "length (cstr src) < n"
  shows "cstr (strncpy dst src n) = cstr src"
proof -
  obtain k where k: "n - length (cstr src) = Suc k"
    using assms by (cases "n - length (cstr src)") auto
  show ?thesis
    using assms k cstr_no_NUL [of src]
    by (simp add: strncpy_def Let_def cstr_append_NUL)
qed

text \<open>
  The pattern of the code base: seven characters copied into an eight character array
  whose last cell is NUL.
\<close>

lemma cstr_strncpy_7:
  assumes "length dst = 8" "dst ! 7 = NUL"
  shows "cstr (strncpy dst src 7) = take 7 (cstr src)"
proof (cases "length (cstr src) < 7")
  case True
  then show ?thesis by (simp add: cstr_strncpy_short)
next
  case False
  have "drop 7 dst = [NUL]"
    using assms Cons_nth_drop_Suc [of 7 dst] by simp
  moreover have "NUL \<notin> set (take 7 (cstr src))"
    using cstr_no_NUL [of src] by (meson in_set_takeD)
  ultimately show ?thesis
    using False by (simp add: strncpy_def Let_def cstr_append_NUL)
qed

definition zero_symbol :: string where
  "zero_symbol = replicate 8 NUL"

subsection \<open>Pointers\<close>

text \<open>
  Orders live in object pools and are shared by pointer between the book, the price
  levels and the engine.  A pointer is an address into a store; a null pointer is
  \<open>None\<close> of type \<open>addr option\<close>.
\<close>

type_synonym addr = nat

definition upd :: "addr \<Rightarrow> ('o \<Rightarrow> 'o) \<Rightarrow> (addr \<Rightarrow> 'o) \<Rightarrow> (addr \<Rightarrow> 'o)" where
  "upd a f st = st(a := f (st a))"

lemma upd_same [simp]: "upd a f st a = f (st a)"
  by (simp add: upd_def)

lemma upd_other [simp]: "b \<noteq> a \<Longrightarrow> upd a f st b = st b"
  by (simp add: upd_def)

lemma upd_apply: "upd a f st b = (if b = a then f (st a) else st b)"
  by (simp add: upd_def)

subsection \<open>Lists\<close>

lemma sum_list_map_cong:
  "(\<And>x. x \<in> set xs \<Longrightarrow> f x = g x) \<Longrightarrow> sum_list (map f xs) = sum_list (map g xs)"
  by (metis map_cong)

lemma sum_list_map_filter_zero:
  "(\<And>x. x \<in> set xs \<Longrightarrow> \<not> P x \<Longrightarrow> f x = 0)
    \<Longrightarrow> sum_list (map f (filter P xs)) = (sum_list (map f xs) :: 'a :: monoid_add)"
  by (induction xs) auto

lemma sum_list_map_remove1':
  "distinct xs \<Longrightarrow> x \<in> set xs \<Longrightarrow>
    sum_list (map f xs) = (f x :: 'a :: ab_group_add) + sum_list (map f (remove1 x xs))"
  by (simp add: sum_list_map_remove1)

lemma sum_list_map_upd_one:
  fixes f g :: "'b \<Rightarrow> 'a :: ab_group_add"
  assumes "distinct xs" "x \<in> set xs" "\<And>y. y \<in> set xs \<Longrightarrow> y \<noteq> x \<Longrightarrow> g y = f y"
  shows "sum_list (map g xs) = sum_list (map f xs) - f x + g x"
proof -
  have "sum_list (map g (remove1 x xs)) = sum_list (map f (remove1 x xs))"
    using assms by (intro sum_list_map_cong) auto
  then show ?thesis
    using assms(1,2) by (simp add: sum_list_map_remove1')
qed

subsection \<open>Interface: operations that keep an invariant\<close>

text \<open>
  A component is a state, operations and an invariant.  An operation yields the next state,
  or nothing when it faults or never returns.  \<open>run_ops\<close> is a sequence of operations,
  \<open>run_guard\<close> says that each is called in a state its caller may call it in.
\<close>

fun run_ops :: "('s \<Rightarrow> 'op \<Rightarrow> 's option) \<Rightarrow> 'op list \<Rightarrow> 's \<Rightarrow> 's option" where
  "run_ops step [] s = Some s"
| "run_ops step (x # xs) s = Option.bind (step s x) (run_ops step xs)"

fun run_guard :: "('s \<Rightarrow> 'op \<Rightarrow> 's option) \<Rightarrow> ('s \<Rightarrow> 'op \<Rightarrow> bool) \<Rightarrow> 'op list \<Rightarrow> 's \<Rightarrow> bool" where
  "run_guard step guard [] s \<longleftrightarrow> True"
| "run_guard step guard (x # xs) s \<longleftrightarrow>
     guard s x \<and> (case step s x of None \<Rightarrow> True | Some s' \<Rightarrow> run_guard step guard xs s')"

text \<open>
  The interface: an operation called under its guard returns and keeps the invariant.  The
  client lemma lifts this to every run.
\<close>

locale safe_system =
  fixes step :: "'s \<Rightarrow> 'op \<Rightarrow> 's option"
    and guard :: "'s \<Rightarrow> 'op \<Rightarrow> bool"
    and inv :: "'s \<Rightarrow> bool"
  assumes step_safe: "inv s \<Longrightarrow> guard s x \<Longrightarrow> \<exists>s'. step s x = Some s' \<and> inv s'"
begin

lemma run_safe: "inv s \<Longrightarrow> run_guard step guard xs s \<Longrightarrow> \<exists>s'. run_ops step xs s = Some s' \<and> inv s'"
proof (induction xs arbitrary: s)
  case (Cons x xs)
  then obtain s' where "step s x = Some s'" "inv s'" using step_safe [of s x] by auto
  then show ?case using Cons by simp
qed simp

lemma run_append_safe:
  assumes "inv s" "run_guard step guard xs s" "run_ops step xs s = Some s'" "guard s' x"
  shows "\<exists>s''. run_ops step (xs @ [x]) s = Some s'' \<and> inv s''"
proof -
  have i: "inv s'" using run_safe [OF assms(1,2)] assms(3) by simp
  have "run_ops step (xs @ [x]) s = Option.bind (run_ops step xs s) (\<lambda>s. step s x)" for xs s
    by (induction xs arbitrary: s) (auto split: Option.bind_splits)
  then show ?thesis using step_safe [OF i assms(4)] assms(3) by simp
qed

end

subsection \<open>Frames\<close>

text \<open>\<open>untouched A f g\<close>: \<open>g\<close> has changed nothing outside \<open>A\<close>.\<close>

definition untouched :: "'a set \<Rightarrow> ('a \<Rightarrow> 'b) \<Rightarrow> ('a \<Rightarrow> 'b) \<Rightarrow> bool" where
  "untouched A f g \<longleftrightarrow> (\<forall>a. a \<notin> A \<longrightarrow> g a = f a)"

lemma untouched_refl [simp, intro]: "untouched A f f"
  by (simp add: untouched_def)

lemma untouched_trans: "untouched A f g \<Longrightarrow> untouched A g h \<Longrightarrow> untouched A f h"
  by (simp add: untouched_def)

lemma untouched_mono: "untouched A f g \<Longrightarrow> A \<subseteq> B \<Longrightarrow> untouched B f g"
  by (auto simp: untouched_def)

lemma untouchedD: "untouched A f g \<Longrightarrow> a \<notin> A \<Longrightarrow> g a = f a"
  by (simp add: untouched_def)

lemma untouched_fun_upd: "a \<in> A \<Longrightarrow> untouched A f (f(a := y))"
  by (simp add: untouched_def)

end
