(* ===== verification/Order_Model.thy ===== *)
theory Order_Model
  imports Velox_Prelude
begin

text \<open>
  The order object (\<open>include/velox/matching/order.hpp\<close>) and the fill record
  (\<open>include/velox/book/fill.hpp\<close>).  Orders are shared by pointer, so the operations
  of the other components take the store that maps an address to its order.
\<close>

datatype order_side = BUY | SELL

datatype order_type = LIMIT | MARKET | IOC | FOK

datatype order_status = NEW | PARTIAL | FILLED | CANCELLED | REJECTED

record order =
  o_order_id :: u64
  o_client_order_id :: u64
  o_symbol :: string
  o_side :: order_side
  o_type :: order_type
  o_status :: order_status
  o_price :: i64
  o_quantity :: u32
  o_filled :: u32
  o_remaining :: u32
  o_received_ts :: u64
  o_matched_ts :: u64
  o_prev :: "addr option"
  o_next :: "addr option"
  o_pool_next :: "addr option"

type_synonym store = "addr \<Rightarrow> order"

definition default_order :: order where
  "default_order = \<lparr>o_order_id = 0, o_client_order_id = 0, o_symbol = zero_symbol,
     o_side = BUY, o_type = LIMIT, o_status = NEW, o_price = 0, o_quantity = 0,
     o_filled = 0, o_remaining = 0, o_received_ts = 0, o_matched_ts = 0,
     o_prev = None, o_next = None, o_pool_next = None\<rparr>"

definition is_buy :: "order \<Rightarrow> bool" where
  "is_buy x \<longleftrightarrow> o_side x = BUY"

definition is_sell :: "order \<Rightarrow> bool" where
  "is_sell x \<longleftrightarrow> o_side x = SELL"

definition is_limit :: "order \<Rightarrow> bool" where
  "is_limit x \<longleftrightarrow> o_type x = LIMIT"

definition is_filled :: "order \<Rightarrow> bool" where
  "is_filled x \<longleftrightarrow> o_remaining x = 0"

definition is_active :: "order \<Rightarrow> bool" where
  "is_active x \<longleftrightarrow> o_status x = NEW \<or> o_status x = PARTIAL"

definition fill :: "u32 \<Rightarrow> order \<Rightarrow> order" where
  "fill fill_qty x =
     (let filled = o_filled x + fill_qty;
          remaining = o_quantity x - filled
      in x\<lparr>o_filled := filled, o_remaining := remaining,
           o_status := (if remaining = 0 then FILLED else PARTIAL)\<rparr>)"

definition cancel :: "order \<Rightarrow> order" where
  "cancel x = x\<lparr>o_status := CANCELLED\<rparr>"

text \<open>\<open>reset\<close> keeps the pool's own link \<open>pool_next\<close>.\<close>

definition reset_order :: "order \<Rightarrow> order" where
  "reset_order x = x\<lparr>o_order_id := 0, o_client_order_id := 0, o_symbol := zero_symbol,
     o_side := BUY, o_type := LIMIT, o_status := NEW, o_price := 0, o_quantity := 0,
     o_filled := 0, o_remaining := 0, o_received_ts := 0, o_matched_ts := 0,
     o_prev := None, o_next := None\<rparr>"

record fill_rec =
  fill_order :: addr
  fill_quantity :: u32
  fill_price :: i64

subsection \<open>The enumerations' underlying codes\<close>

text \<open>
  The enumerations are declared over \<open>uint8_t\<close> with explicit codes; ordering them by
  code makes them linear orders, so that the library's maps and sorts apply to them.
\<close>

fun side_code :: "order_side \<Rightarrow> nat" where
  "side_code BUY = 0"
| "side_code SELL = 1"

fun type_code :: "order_type \<Rightarrow> nat" where
  "type_code LIMIT = 0"
| "type_code MARKET = 1"
| "type_code IOC = 2"
| "type_code FOK = 3"

fun status_code :: "order_status \<Rightarrow> nat" where
  "status_code NEW = 0"
| "status_code PARTIAL = 1"
| "status_code FILLED = 2"
| "status_code CANCELLED = 3"
| "status_code REJECTED = 4"

lemma side_code_inj: "side_code x = side_code y \<Longrightarrow> x = y"
  by (cases x; cases y) auto

lemma status_code_inj: "status_code x = status_code y \<Longrightarrow> x = y"
  by (cases x; cases y) auto

instantiation order_side :: linorder
begin

definition less_eq_order_side :: "order_side \<Rightarrow> order_side \<Rightarrow> bool" where
  "less_eq_order_side x y \<longleftrightarrow> side_code x \<le> side_code y"

definition less_order_side :: "order_side \<Rightarrow> order_side \<Rightarrow> bool" where
  "less_order_side x y \<longleftrightarrow> side_code x < side_code y"

instance
  by standard (auto simp: less_eq_order_side_def less_order_side_def dest: side_code_inj)

end

instantiation order_status :: linorder
begin

definition less_eq_order_status :: "order_status \<Rightarrow> order_status \<Rightarrow> bool" where
  "less_eq_order_status x y \<longleftrightarrow> status_code x \<le> status_code y"

definition less_order_status :: "order_status \<Rightarrow> order_status \<Rightarrow> bool" where
  "less_order_status x y \<longleftrightarrow> status_code x < status_code y"

instance
  by standard (auto simp: less_eq_order_status_def less_order_status_def dest: status_code_inj)

end

lemma is_active_iff_status: "is_active x \<longleftrightarrow> o_status x \<le> PARTIAL"
  by (cases "o_status x") (auto simp: is_active_def less_eq_order_status_def)

subsection \<open>Quantities of one order\<close>

text \<open>The book-keeping identity of an order: what is filled and what remains add up.\<close>

definition qty_ok :: "order \<Rightarrow> bool" where
  "qty_ok x \<longleftrightarrow> unat (o_filled x) + unat (o_remaining x) = unat (o_quantity x)"

text \<open>An order that can still trade.\<close>

definition live :: "order \<Rightarrow> bool" where
  "live x \<longleftrightarrow> is_active x \<and> o_remaining x > 0"

lemma is_active_upd [simp]:
  "is_active (x\<lparr>o_remaining := r\<rparr>) = is_active x"
  "is_active (x\<lparr>o_filled := f\<rparr>) = is_active x"
  "is_active (x\<lparr>o_price := p\<rparr>) = is_active x"
  "\<not> is_active (cancel x)"
  by (simp_all add: is_active_def cancel_def)

lemma not_live_cancel [simp]: "\<not> live (cancel x)"
  by (simp add: live_def)

lemma cancel_simps [simp]:
  "o_remaining (cancel x) = o_remaining x" "o_price (cancel x) = o_price x"
  "o_order_id (cancel x) = o_order_id x" "o_side (cancel x) = o_side x"
  "o_filled (cancel x) = o_filled x" "o_status (cancel x) = CANCELLED"
  "o_quantity (cancel x) = o_quantity x"
  by (simp_all add: cancel_def)

lemma live_active: "live x \<Longrightarrow> is_active x"
  by (simp add: live_def)

lemma live_pos: "live x \<Longrightarrow> o_remaining x > 0"
  by (simp add: live_def)

text \<open>Filling within what remains keeps the identity and is exact, not modular.\<close>

lemma unat_sub_le: "(b :: 'a :: len word) \<le> a \<Longrightarrow> unat (a - b) = unat a - unat b"
  by (simp add: unat_sub)

lemma unat_add_bounded:
  "unat a + unat b < 2 ^ LENGTH('a) \<Longrightarrow> unat ((a :: 'a :: len word) + b) = unat a + unat b"
  by (metis unat_add_lem)

lemma fill_exact:
  assumes "qty_ok x" "q \<le> o_remaining x"
  shows "unat (o_filled (fill q x)) = unat (o_filled x) + unat q"
    and "unat (o_remaining (fill q x)) = unat (o_remaining x) - unat q"
    and "qty_ok (fill q x)"
proof -
  have q: "unat q \<le> unat (o_remaining x)"
    using assms(2) by (simp add: word_le_nat_alt)
  have quant: "unat (o_filled x) + unat (o_remaining x) = unat (o_quantity x)"
    using assms(1) by (simp add: qty_ok_def)
  have small: "unat (o_quantity x) < 2 ^ 32"
    using unsigned_less [of "o_quantity x"] by simp
  have f: "unat (o_filled x + q) = unat (o_filled x) + unat q"
    using q quant small by (intro unat_add_bounded) simp
  have le: "o_filled x + q \<le> o_quantity x"
    using f q quant by (simp add: word_le_nat_alt)
  have r: "unat (o_quantity x - (o_filled x + q)) = unat (o_remaining x) - unat q"
    using unat_sub_le [OF le] f quant by simp
  show "unat (o_filled (fill q x)) = unat (o_filled x) + unat q"
    using f by (simp add: fill_def Let_def)
  show "unat (o_remaining (fill q x)) = unat (o_remaining x) - unat q"
    using r by (simp add: fill_def Let_def)
  show "qty_ok (fill q x)"
    using f r q quant by (simp add: qty_ok_def fill_def Let_def)
qed

lemma reset_is_default: "(reset_order x)\<lparr>o_pool_next := None\<rparr> = default_order"
  by (simp add: reset_order_def default_order_def)

end
