(* ===== verification/Price_Level.thy ===== *)
theory Price_Level
  imports Order_Model
begin

text \<open>
  One price of the book (\<open>include/velox/book/price_level.hpp\<close>,
  \<open>src/book/price_level.cpp\<close>): a ring buffer of order pointers with lazy deletion.
  The indices are masked by \<open>MAX_ORDERS - 1 = 127\<close>, so they are seven bit words, and
  the buffer is a function on them.  The matching loop is a partial function: whether it
  returns is a theorem, not an assumption of the definition.
\<close>

type_synonym ring_index = "7 word"

definition MAX_ORDERS :: u64 where
  "MAX_ORDERS = 128"

definition MASK :: u64 where
  "MASK = MAX_ORDERS - 1"

record price_level =
  pl_price :: i64
  pl_buffer :: "ring_index \<Rightarrow> addr option"
  pl_head :: ring_index
  pl_tail :: ring_index
  pl_total :: u32
  pl_size :: u64

text \<open>\<open>next(i) = (i + 1) & MASK\<close>, computed on \<open>size_t\<close>.\<close>

definition ring_next :: "ring_index \<Rightarrow> ring_index" where
  "ring_next i = ucast ((ucast i + 1) AND MASK)"

definition new_level :: "i64 \<Rightarrow> price_level" where
  "new_level p = \<lparr>pl_price = p, pl_buffer = (\<lambda>_. None), pl_head = 0, pl_tail = 0,
     pl_total = 0, pl_size = 0\<rparr>"

definition level_empty :: "price_level \<Rightarrow> bool" where
  "level_empty pl \<longleftrightarrow> pl_size pl = 0"

definition head :: "price_level \<Rightarrow> addr option" where
  "head pl = (if pl_head pl = pl_tail pl then None else pl_buffer pl (pl_head pl))"

definition tail :: "price_level \<Rightarrow> addr option" where
  "tail pl = (if pl_head pl = pl_tail pl then None
     else pl_buffer pl (ucast ((ucast (pl_tail pl) - 1) AND MASK)))"

text \<open>Writing the tail slot, and clearing the head slot: the two moves of the ring.\<close>

definition push_slot :: "addr \<Rightarrow> price_level \<Rightarrow> price_level" where
  "push_slot a pl = pl\<lparr>pl_buffer := (pl_buffer pl)(pl_tail pl := Some a),
     pl_tail := ring_next (pl_tail pl)\<rparr>"

definition clear_head :: "price_level \<Rightarrow> price_level" where
  "clear_head pl = pl\<lparr>pl_buffer := (pl_buffer pl)(pl_head pl := None),
     pl_head := ring_next (pl_head pl)\<rparr>"

definition level_add_order :: "store \<Rightarrow> addr option \<Rightarrow> price_level \<Rightarrow> price_level" where
  "level_add_order st p pl =
     (case p of None \<Rightarrow> pl
      | Some a \<Rightarrow>
          if o_remaining (st a) = 0 then pl
          else (push_slot a pl)\<lparr>pl_size := pl_size pl + 1,
                 pl_total := pl_total pl + o_remaining (st a)\<rparr>)"

definition slot_live :: "store \<Rightarrow> addr option \<Rightarrow> bool" where
  "slot_live st s = (case s of None \<Rightarrow> False
     | Some a \<Rightarrow> is_active (st a) \<and> o_remaining (st a) > 0)"

lemma ring_next_eq: "ring_next i = i + 1"
proof -
  have m: "MASK = mask 7"
    by (simp add: MASK_def MAX_ORDERS_def mask_eq_exp_minus_1)
  have u: "uint (ucast i :: u64) = uint i"
    by (simp add: unsigned_ucast_eq take_bit_int_eq_self_iff uint_lt2p [THEN less_trans])
  have "ring_next i = ucast (take_bit 7 (ucast i + 1 :: u64))"
    by (simp only: ring_next_def m take_bit_eq_mask)
  then have "uint (ring_next i) = take_bit 7 (take_bit 7 (uint (ucast i + 1 :: u64)))"
    by (simp only: unsigned_ucast_eq unsigned_take_bit_eq) simp
  also have "\<dots> = (uint i + 1) mod 2 ^ 64 mod 128"
    by (simp add: uint_word_ariths u take_bit_eq_mod)
  also have "\<dots> = (uint i + 1) mod 128"
    by (simp add: mod_mod_cancel)
  also have "\<dots> = uint (i + 1)"
    by (simp add: uint_word_ariths)
  finally show ?thesis
    by (simp only: word_uint_eq_iff)
qed

lemma ring_next_neq: "ring_next i \<noteq> i"
  by (simp add: ring_next_eq)

subsection \<open>Lazy deletion: advance and remove_order\<close>

text \<open>The loop of \<open>advance\<close> ends because the distance from head to tail shrinks.\<close>

lemma ring_distance_decreases:
  "pl_head pl \<noteq> pl_tail pl \<Longrightarrow>
    unat (pl_tail (clear_head pl) - pl_head (clear_head pl)) < unat (pl_tail pl - pl_head pl)"
proof -
  assume "pl_head pl \<noteq> pl_tail pl"
  then have "pl_tail pl - pl_head pl \<noteq> 0" by simp
  then have "unat (pl_tail pl - pl_head pl - 1) < unat (pl_tail pl - pl_head pl)"
    by (rule measure_unat)
  then show ?thesis
    by (simp add: clear_head_def ring_next_eq algebra_simps)
qed

function advance :: "store \<Rightarrow> price_level \<Rightarrow> price_level" where
  "advance st pl =
     (if pl_head pl = pl_tail pl then pl
      else if slot_live st (pl_buffer pl (pl_head pl)) then pl
      else advance st ((clear_head pl)\<lparr>pl_size := pl_size pl - 1\<rparr>))"
  by pat_completeness auto
termination
  by (relation "measure (\<lambda>(st, pl). unat (pl_tail pl - pl_head pl))")
    (auto dest: ring_distance_decreases)

declare advance.simps [simp del]

definition remove_order :: "store \<Rightarrow> addr option \<Rightarrow> price_level \<Rightarrow> store \<times> price_level" where
  "remove_order st p pl =
     (case p of None \<Rightarrow> (st, pl)
      | Some a \<Rightarrow>
          if \<not> is_active (st a) then (st, pl)
          else
            let st1 = upd a cancel st;
                pl1 = pl\<lparr>pl_total := pl_total pl - o_remaining (st1 a)\<rparr>
            in if pl_head pl1 \<noteq> pl_tail pl1 \<and> pl_buffer pl1 (pl_head pl1) = Some a
               then (st1, advance st1 pl1) else (st1, pl1))"

subsection \<open>Matching against one level\<close>

text \<open>
  The updates of one fill, in the order of the code: maker and taker are separate pointers,
  written one after the other, so a maker that is the taker itself is updated twice.
\<close>

definition take_remaining :: "u32 \<Rightarrow> order \<Rightarrow> order" where
  "take_remaining q x = x\<lparr>o_remaining := o_remaining x - q\<rparr>"

definition add_filled :: "u32 \<Rightarrow> order \<Rightarrow> order" where
  "add_filled q x = x\<lparr>o_filled := o_filled x + q\<rparr>"

definition apply_fill :: "addr \<Rightarrow> addr \<Rightarrow> u32 \<Rightarrow> store \<Rightarrow> store" where
  "apply_fill maker taker q st =
     upd taker (add_filled q) (upd maker (add_filled q)
       (upd taker (take_remaining q) (upd maker (take_remaining q) st)))"

partial_function (option) match_loop ::
  "addr \<Rightarrow> store \<Rightarrow> price_level \<Rightarrow> fill_rec list
    \<Rightarrow> (store \<times> price_level \<times> fill_rec list) option" where
  "match_loop inc st pl fills =
     (if o_remaining (st inc) = 0 then Some (st, pl, fills)
      else
        let pl1 = advance st pl in
        if pl_head pl1 = pl_tail pl1 then Some (st, pl1, fills)
        else
          (case pl_buffer pl1 (pl_head pl1) of
             None \<Rightarrow> match_loop inc st (clear_head pl1) fills
           | Some current \<Rightarrow>
               if \<not> is_active (st current) \<or> o_remaining (st current) = 0
               then match_loop inc st (clear_head pl1) fills
               else
                 let q = min (o_remaining (st current)) (o_remaining (st inc)) in
                 if q > 0 then
                   let fills1 = fills @ [\<lparr>fill_order = current, fill_quantity = q,
                                          fill_price = o_price (st inc)\<rparr>];
                       st1 = apply_fill current inc q st;
                       pl2 = pl1\<lparr>pl_total := pl_total pl1 - q\<rparr>;
                       pl3 = (if o_remaining (st1 current) = 0
                              then (clear_head pl2)\<lparr>pl_size := pl_size pl2 - 1\<rparr> else pl2)
                   in if o_remaining (st1 inc) = 0 then Some (st1, pl3, fills1)
                      else match_loop inc st1 pl3 fills1
                 else if o_remaining (st inc) = 0 then Some (st, pl1, fills)
                 else match_loop inc st pl1 fills))"

text \<open>
  The call returns the incoming pointer if something remains, else null.  \<open>None\<close> is a
  loop that never ends.
\<close>

definition match_order ::
  "addr option \<Rightarrow> store \<Rightarrow> price_level \<Rightarrow> fill_rec list
    \<Rightarrow> (addr option \<times> store \<times> price_level \<times> fill_rec list) option" where
  "match_order p st pl fills =
     (case p of None \<Rightarrow> Some (None, st, pl, fills)
      | Some inc \<Rightarrow>
          if o_remaining (st inc) = 0 then Some (None, st, pl, fills)
          else map_option (\<lambda>(st', pl', fills').
                 (if o_remaining (st' inc) > 0 then Some inc else None, st', pl', fills'))
               (match_loop inc st pl fills))"

end
