(* ===== verification/Order_Book.thy ===== *)
theory Order_Book
  imports Price_Level
begin

text \<open>
  The limit order book of one symbol (\<open>include/velox/book/order_book.hpp\<close>,
  \<open>src/book/order_book.cpp\<close>): two sorted vectors of pointers to price levels, a hash map
  from price to level, and an index from order id to the order's location.  The levels are
  heap objects: \<open>ob_heap\<close> holds the live ones, \<open>new\<close> takes a fresh address and \<open>delete\<close>
  empties it, so that reading through a stale level pointer is the fault
  \<open>Dangling_Pointer\<close>.  The atomics are sequential cells here: one thread runs at a time.
\<close>

type_synonym laddr = nat

record order_location =
  loc_price :: i64
  loc_is_bid :: bool
  loc_order :: addr

record order_book =
  ob_symbol :: string
  ob_sequence :: u64
  ob_best_bid :: i64
  ob_best_ask :: i64
  ob_bid_depth :: u32
  ob_ask_depth :: u32
  ob_bids :: "laddr list"
  ob_asks :: "laddr list"
  ob_index :: "u64 \<rightharpoonup> order_location"
  ob_p2l :: "i64 \<rightharpoonup> laddr"
  ob_heap :: "laddr \<rightharpoonup> price_level"
  ob_fresh :: laddr

definition new_book :: "string \<Rightarrow> order_book" where
  "new_book symbol = \<lparr>ob_symbol = strncpy zero_symbol symbol 7, ob_sequence = 0,
     ob_best_bid = 0, ob_best_ask = int64_max, ob_bid_depth = 0, ob_ask_depth = 0,
     ob_bids = [], ob_asks = [], ob_index = Map.empty, ob_p2l = Map.empty,
     ob_heap = Map.empty, ob_fresh = 0\<rparr>"

subsection \<open>The two sides\<close>

text \<open>\<open>is_bid ? m_bid_levels : m_ask_levels\<close>, and the same for the depths.\<close>

definition levels_of :: "bool \<Rightarrow> order_book \<Rightarrow> laddr list" where
  "levels_of is_bid b = (if is_bid then ob_bids b else ob_asks b)"

definition set_levels :: "bool \<Rightarrow> laddr list \<Rightarrow> order_book \<Rightarrow> order_book" where
  "set_levels is_bid ls b = (if is_bid then b\<lparr>ob_bids := ls\<rparr> else b\<lparr>ob_asks := ls\<rparr>)"

definition depth_of :: "bool \<Rightarrow> order_book \<Rightarrow> u32" where
  "depth_of is_bid b = (if is_bid then ob_bid_depth b else ob_ask_depth b)"

definition set_depth :: "bool \<Rightarrow> u32 \<Rightarrow> order_book \<Rightarrow> order_book" where
  "set_depth is_bid d b = (if is_bid then b\<lparr>ob_bid_depth := d\<rparr> else b\<lparr>ob_ask_depth := d\<rparr>)"

text \<open>Bids are sorted from high to low, asks from low to high.\<close>

definition before :: "bool \<Rightarrow> i64 \<Rightarrow> i64 \<Rightarrow> bool" where
  "before is_bid x y = (if is_bid then x > y else x < y)"

subsection \<open>Level objects\<close>

definition deref :: "order_book \<Rightarrow> laddr \<Rightarrow> price_level res" where
  "deref b l = (case ob_heap b l of None \<Rightarrow> Inl Dangling_Pointer | Some pl \<Rightarrow> Inr pl)"

definition set_level :: "laddr \<Rightarrow> price_level \<Rightarrow> order_book \<Rightarrow> order_book" where
  "set_level l pl b = b\<lparr>ob_heap := (ob_heap b)(l \<mapsto> pl)\<rparr>"

definition alloc_level :: "i64 \<Rightarrow> order_book \<Rightarrow> laddr \<times> order_book" where
  "alloc_level p b = (ob_fresh b,
     b\<lparr>ob_heap := (ob_heap b)(ob_fresh b \<mapsto> new_level p), ob_fresh := Suc (ob_fresh b)\<rparr>)"

definition delete_level :: "laddr \<Rightarrow> order_book \<Rightarrow> order_book" where
  "delete_level l b = b\<lparr>ob_heap := (ob_heap b)(l := None)\<rparr>"

definition find_level :: "order_book \<Rightarrow> i64 \<Rightarrow> bool \<Rightarrow> laddr option" where
  "find_level b price is_bid = ob_p2l b price"

text \<open>
  \<open>std::lower_bound\<close>: the binary search of the standard library, over a comparison that
  reads through the level pointers.
\<close>

fun lower_bound_loop :: "(nat \<Rightarrow> bool res) \<Rightarrow> nat \<Rightarrow> nat \<Rightarrow> nat res" where
  "lower_bound_loop cmp first len =
     (if len = 0 then Inr first
      else case cmp (first + len div 2) of
             Inl e \<Rightarrow> Inl e
           | Inr True \<Rightarrow> lower_bound_loop cmp (first + len div 2 + 1) (len - len div 2 - 1)
           | Inr False \<Rightarrow> lower_bound_loop cmp first (len div 2))"

declare lower_bound_loop.simps [simp del]

definition level_cmp :: "order_book \<Rightarrow> bool \<Rightarrow> laddr list \<Rightarrow> i64 \<Rightarrow> nat \<Rightarrow> bool res" where
  "level_cmp b is_bid ls price i =
     res_bind (deref b (ls ! i)) (\<lambda>existing. Inr (before is_bid (pl_price existing) price))"

definition insert_level :: "laddr \<Rightarrow> bool \<Rightarrow> order_book \<Rightarrow> order_book res" where
  "insert_level l is_bid b =
     res_bind (deref b l) (\<lambda>level.
       let b1 = b\<lparr>ob_p2l := (ob_p2l b)(pl_price level \<mapsto> l)\<rparr>;
           ls = levels_of is_bid b1
       in res_bind (lower_bound_loop (level_cmp b1 is_bid ls (pl_price level)) 0 (length ls))
            (\<lambda>k. Inr (set_levels is_bid (take k ls @ l # drop k ls) b1)))"

definition remove_level :: "laddr \<Rightarrow> bool \<Rightarrow> order_book \<Rightarrow> order_book res" where
  "remove_level l is_bid b =
     res_bind (deref b l) (\<lambda>level.
       let b1 = b\<lparr>ob_p2l := (ob_p2l b)(pl_price level := None)\<rparr>
       in Inr (set_levels is_bid (remove1 l (levels_of is_bid b1)) b1))"

definition best_price :: "order_book \<Rightarrow> laddr list \<Rightarrow> i64 \<Rightarrow> i64 res" where
  "best_price b ls dflt =
     (case ls of [] \<Rightarrow> Inr dflt
      | l # _ \<Rightarrow> res_bind (deref b l) (\<lambda>pl. Inr (pl_price pl)))"

definition update_best_prices :: "order_book \<Rightarrow> order_book res" where
  "update_best_prices b =
     res_bind (best_price b (ob_bids b) 0) (\<lambda>bid.
       let b1 = b\<lparr>ob_best_bid := bid\<rparr> in
       res_bind (best_price b1 (ob_asks b1) int64_max) (\<lambda>ask.
         Inr (b1\<lparr>ob_best_ask := ask\<rparr>)))"

fun sum_totals :: "order_book \<Rightarrow> laddr list \<Rightarrow> u32 \<Rightarrow> u32 res" where
  "sum_totals b [] acc = Inr acc"
| "sum_totals b (l # ls) acc = res_bind (deref b l) (\<lambda>pl. sum_totals b ls (acc + pl_total pl))"

definition update_depth :: "order_book \<Rightarrow> order_book res" where
  "update_depth b =
     res_bind (sum_totals b (ob_bids b) 0) (\<lambda>bid_depth.
       let b1 = b\<lparr>ob_bid_depth := bid_depth\<rparr> in
       res_bind (sum_totals b1 (ob_asks b1) 0) (\<lambda>ask_depth.
         Inr (b1\<lparr>ob_ask_depth := ask_depth\<rparr>)))"

definition set_market_price :: "i64 \<Rightarrow> i64 \<Rightarrow> order_book \<Rightarrow> order_book" where
  "set_market_price bid ask b = b\<lparr>ob_best_bid := bid, ob_best_ask := ask\<rparr>"

text \<open>The destructor deletes every level of the price map.\<close>

definition destroy_book :: "order_book \<Rightarrow> (laddr \<rightharpoonup> price_level)" where
  "destroy_book b = ob_heap b |` (- ran (ob_p2l b))"

subsection \<open>Adding and cancelling\<close>

text \<open>Find the level of a price or create it: the common start of adding and resting.\<close>

definition get_level :: "i64 \<Rightarrow> bool \<Rightarrow> order_book \<Rightarrow> (laddr \<times> order_book) res" where
  "get_level price is_bid b =
     (case find_level b price is_bid of
        Some l \<Rightarrow> Inr (l, b)
      | None \<Rightarrow>
          (case alloc_level price b of (l, b1) \<Rightarrow>
             res_bind (insert_level l is_bid b1) (\<lambda>b2. Inr (l, b2))))"

definition bump_sequence :: "order_book \<Rightarrow> order_book" where
  "bump_sequence b = b\<lparr>ob_sequence := ob_sequence b + 1\<rparr>"

definition index_order :: "store \<Rightarrow> addr \<Rightarrow> order_book \<Rightarrow> order_book" where
  "index_order st a b = b\<lparr>ob_index := (ob_index b)(o_order_id (st a) \<mapsto>
     \<lparr>loc_price = o_price (st a), loc_is_bid = is_buy (st a), loc_order = a\<rparr>)\<rparr>"

definition add_order :: "store \<Rightarrow> addr option \<Rightarrow> order_book \<Rightarrow> (bool \<times> order_book) res" where
  "add_order st p b =
     (case p of None \<Rightarrow> Inr (False, b)
      | Some a \<Rightarrow>
          let is_bid = is_buy (st a); price = o_price (st a) in
          res_bind (get_level price is_bid b) (\<lambda>(l, b1).
          res_bind (deref b1 l) (\<lambda>level.
            let b2 = set_level l (level_add_order st (Some a) level) b1;
                b3 = index_order st a b2;
                b4 = set_depth is_bid (depth_of is_bid b3 + o_remaining (st a)) b3
            in res_bind (update_best_prices b4) (\<lambda>b5. Inr (True, bump_sequence b5)))))"

definition cancel_order :: "u64 \<Rightarrow> store \<Rightarrow> order_book \<Rightarrow> (bool \<times> store \<times> order_book) res" where
  "cancel_order order_id st b =
     (case ob_index b order_id of
        None \<Rightarrow> Inr (False, st, b)
      | Some loc \<Rightarrow>
          (case find_level b (loc_price loc) (loc_is_bid loc) of
             None \<Rightarrow> Inr (False, st, b\<lparr>ob_index := (ob_index b)(order_id := None)\<rparr>)
           | Some l \<Rightarrow>
               res_bind (deref b l) (\<lambda>level.
                 case remove_order st (Some (loc_order loc)) level of (st1, level1) \<Rightarrow>
                   let b1 = set_level l level1 b;
                       b2 = set_depth (loc_is_bid loc)
                              (depth_of (loc_is_bid loc) b1 - o_remaining (st1 (loc_order loc))) b1;
                       st2 = upd (loc_order loc) cancel st1
                   in res_bind (if level_empty level1
                                then res_bind (remove_level l (loc_is_bid loc) b2)
                                       (\<lambda>b3. Inr (delete_level l b3))
                                else Inr b2) (\<lambda>b4.
                      let b5 = b4\<lparr>ob_index := (ob_index b4)(order_id := None)\<rparr> in
                      res_bind (update_best_prices b5) (\<lambda>b6.
                        Inr (True, st2, bump_sequence b6))))))"

subsection \<open>Matching\<close>

text \<open>An incoming order trades with a level unless the level is priced beyond its limit.\<close>

definition beyond_limit :: "bool \<Rightarrow> price_level \<Rightarrow> order \<Rightarrow> bool" where
  "beyond_limit is_bid level inc \<longleftrightarrow>
     is_bid \<and> pl_price level > o_price inc \<or> \<not> is_bid \<and> pl_price level < o_price inc"

definition pop_level :: "bool \<Rightarrow> laddr \<Rightarrow> price_level \<Rightarrow> order_book \<Rightarrow> order_book" where
  "pop_level side l level b =
     delete_level l
       (set_levels side (tl (levels_of side b)) (b\<lparr>ob_p2l := (ob_p2l b)(pl_price level := None)\<rparr>))"

partial_function (option) sweep ::
  "bool \<Rightarrow> addr \<Rightarrow> store \<Rightarrow> order_book \<Rightarrow> fill_rec list
    \<Rightarrow> (store \<times> order_book \<times> fill_rec list) res option" where
  "sweep is_bid inc st b fills =
     (case levels_of (\<not> is_bid) b of
        [] \<Rightarrow> Some (Inr (st, b, fills))
      | l # _ \<Rightarrow>
          if o_remaining (st inc) = 0 then Some (Inr (st, b, fills))
          else
            (case deref b l of
               Inl e \<Rightarrow> Some (Inl e)
             | Inr level \<Rightarrow>
                 if beyond_limit is_bid level (st inc) then Some (Inr (st, b, fills))
                 else
                   Option.bind (match_order (Some inc) st level fills)
                     (\<lambda>(_, st1, level1, fills1).
                       let b1 = set_level l level1 b;
                           diff = pl_total level - pl_total level1;
                           b2 = set_depth (\<not> is_bid) (depth_of (\<not> is_bid) b1 - diff) b1;
                           b3 = (if level_empty level1 then pop_level (\<not> is_bid) l level1 b2
                                 else b2)
                       in sweep is_bid inc st1 b3 fills1)))"

text \<open>What is not filled rests in the book, under the limit price.\<close>

definition rest_order :: "bool \<Rightarrow> addr \<Rightarrow> store \<Rightarrow> order_book \<Rightarrow> order_book res" where
  "rest_order is_bid inc st b =
     res_bind (get_level (o_price (st inc)) is_bid b) (\<lambda>(l, b1).
     res_bind (deref b1 l) (\<lambda>level.
       let b2 = set_level l (level_add_order st (Some inc) level) b1;
           b3 = set_depth is_bid (depth_of is_bid b2 + o_remaining (st inc)) b2
       in Inr (index_order st inc b3)))"

definition book_match ::
  "addr option \<Rightarrow> store \<Rightarrow> order_book \<Rightarrow> fill_rec list
    \<Rightarrow> (addr option \<times> store \<times> order_book \<times> fill_rec list) res option" where
  "book_match p st b fills =
     (case p of None \<Rightarrow> Some (Inr (None, st, b, fills))
      | Some inc \<Rightarrow>
          if o_remaining (st inc) = 0 then Some (Inr (Some inc, st, b, fills))
          else
            let is_bid = is_buy (st inc) in
            Option.bind (sweep is_bid inc st b fills) (\<lambda>r.
              Some (res_bind r (\<lambda>(st1, b1, fills1).
                res_bind (if o_remaining (st1 inc) > 0 then rest_order is_bid inc st1 b1
                          else Inr b1) (\<lambda>b2.
                res_bind (update_best_prices b2) (\<lambda>b3.
                  Inr (if o_remaining (st1 inc) > 0 then Some inc else None,
                       st1, bump_sequence b3, fills1)))))))"

end
