(* ===== verification/Price_Level_Props.thy ===== *)
theory Price_Level_Props
  imports Price_Level
begin

text \<open>
  The contract of a price level.  The ring buffer represents a first-in first-out list of
  order pointers; the orders of it that can still trade are its queue.  Adding appends,
  cancelling deletes from the queue, and matching consumes the queue from the front, as
  the list functions \<open>match_fills\<close>, \<open>match_rest\<close> and \<open>match_left\<close> do.
\<close>

subsection \<open>The ring as a list of slots\<close>

definition ring_len :: "price_level \<Rightarrow> nat" where
  "ring_len pl = unat (pl_tail pl - pl_head pl)"

definition slots :: "price_level \<Rightarrow> addr option list" where
  "slots pl = map (\<lambda>k. pl_buffer pl (pl_head pl + of_nat k)) [0..<ring_len pl]"

definition entries :: "price_level \<Rightarrow> addr list" where
  "entries pl = map the (slots pl)"

lemma ring_len_bound: "ring_len pl < 128"
  using unsigned_less [of "pl_tail pl - pl_head pl"] by (simp add: ring_len_def)

lemma ring_len_0_iff: "ring_len pl = 0 \<longleftrightarrow> pl_head pl = pl_tail pl"
  by (auto simp: ring_len_def unat_eq_zero)

lemma length_slots [simp]: "length (slots pl) = ring_len pl"
  by (simp add: slots_def)

lemma length_entries [simp]: "length (entries pl) = ring_len pl"
  by (simp add: entries_def)

lemma slots_cong:
  "pl_buffer pl = pl_buffer pl' \<Longrightarrow> pl_head pl = pl_head pl' \<Longrightarrow> pl_tail pl = pl_tail pl'
    \<Longrightarrow> slots pl = slots pl'"
  by (simp add: slots_def ring_len_def)

lemma slots_upd [level_simps]:
  "slots (pl\<lparr>pl_total := t\<rparr>) = slots pl" "slots (pl\<lparr>pl_size := n\<rparr>) = slots pl"
  "entries (pl\<lparr>pl_total := t\<rparr>) = entries pl" "entries (pl\<lparr>pl_size := n\<rparr>) = entries pl"
  "ring_len (pl\<lparr>pl_total := t\<rparr>) = ring_len pl" "ring_len (pl\<lparr>pl_size := n\<rparr>) = ring_len pl"
  by (simp_all add: slots_def entries_def ring_len_def)

lemma clear_head_upd [level_simps]:
  "clear_head (pl\<lparr>pl_total := t\<rparr>) = (clear_head pl)\<lparr>pl_total := t\<rparr>"
  "clear_head (pl\<lparr>pl_size := n\<rparr>) = (clear_head pl)\<lparr>pl_size := n\<rparr>"
  by (simp_all add: clear_head_def)

lemma clear_head_simps [level_simps]:
  "pl_total (clear_head pl) = pl_total pl" "pl_size (clear_head pl) = pl_size pl"
  "pl_price (clear_head pl) = pl_price pl" "pl_tail (clear_head pl) = pl_tail pl"
  "pl_total (push_slot a pl) = pl_total pl" "pl_size (push_slot a pl) = pl_size pl"
  "pl_price (push_slot a pl) = pl_price pl" "pl_head (push_slot a pl) = pl_head pl"
  by (simp_all add: clear_head_def push_slot_def)

lemma unat_ring_of_nat: "k < 128 \<Longrightarrow> unat (of_nat k :: ring_index) = k"
  by (simp add: unat_of_nat)

lemma of_nat_ring_neq_0: "0 < k \<Longrightarrow> k < 128 \<Longrightarrow> (of_nat k :: ring_index) \<noteq> 0"
  using unat_ring_of_nat [of k] by (metis less_numeral_extra(3) unat_0)

lemma ring_len_clear_head:
  assumes "pl_head pl \<noteq> pl_tail pl"
  shows "ring_len pl = Suc (ring_len (clear_head pl))"
proof -
  have "pl_tail pl - pl_head pl \<noteq> 0" using assms by simp
  then show ?thesis
    by (simp add: ring_len_def clear_head_def ring_next_eq unat_minus_one
        diff_diff_eq [symmetric] unat_gt_0)
qed

lemma slots_clear_head:
  assumes "pl_head pl \<noteq> pl_tail pl"
  shows "slots pl = pl_buffer pl (pl_head pl) # slots (clear_head pl)"
proof -
  let ?n = "ring_len (clear_head pl)"
  have n: "ring_len pl = Suc ?n" by (rule ring_len_clear_head [OF assms])
  have "pl_buffer pl (pl_head pl + of_nat (Suc k))
      = pl_buffer (clear_head pl) (pl_head (clear_head pl) + of_nat k)" if "k < ?n" for k
  proof -
    have "Suc k < 128" using that n ring_len_bound [of pl] by simp
    then have "(of_nat (Suc k) :: ring_index) \<noteq> 0" by (intro of_nat_ring_neq_0) simp_all
    then show ?thesis
      by (simp add: clear_head_def ring_next_eq add.assoc)
  qed
  then show ?thesis
    by (simp add: slots_def n map_upt_Suc del: upt_Suc of_nat_Suc)
qed

lemma slots_push_slot:
  assumes "ring_len pl < 127"
  shows "slots (push_slot a pl) = slots pl @ [Some a]"
    and "ring_len (push_slot a pl) = Suc (ring_len pl)"
proof -
  have e: "pl_tail pl + 1 - pl_head pl = (pl_tail pl - pl_head pl) + 1" by simp
  have "unat (pl_tail pl - pl_head pl) + unat (1 :: ring_index) < 2 ^ LENGTH(7)"
    using assms by (simp add: ring_len_def)
  then show len: "ring_len (push_slot a pl) = Suc (ring_len pl)"
    unfolding ring_len_def push_slot_def
    by (simp add: ring_next_eq e unat_add_bounded)
  have "pl_head pl + of_nat k \<noteq> pl_tail pl" if "k < ring_len pl" for k
  proof
    assume "pl_head pl + of_nat k = pl_tail pl"
    then have "of_nat k = pl_tail pl - pl_head pl" by (metis add_diff_cancel_left')
    then have "unat (of_nat k :: ring_index) = ring_len pl" by (simp add: ring_len_def)
    moreover have "k < 128" using that assms by simp
    ultimately show False using that by (simp add: unat_ring_of_nat)
  qed
  moreover have "pl_head pl + of_nat (ring_len pl) = pl_tail pl"
    by (simp add: ring_len_def)
  ultimately show "slots (push_slot a pl) = slots pl @ [Some a]"
    by (simp add: slots_def len level_simps) (simp add: push_slot_def)
qed

lemma entries_clear_head:
  "pl_head pl \<noteq> pl_tail pl \<Longrightarrow>
    entries pl = the (pl_buffer pl (pl_head pl)) # entries (clear_head pl)"
  by (simp add: entries_def slots_clear_head)

lemma entries_empty: "pl_head pl = pl_tail pl \<Longrightarrow> entries pl = []"
  by (simp add: entries_def slots_def ring_len_0_iff [THEN iffD2])

lemma entries_Nil_iff: "entries pl = [] \<longleftrightarrow> pl_head pl = pl_tail pl"
  by (metis length_0_conv length_entries ring_len_0_iff)

lemma entries_push_slot:
  "ring_len pl < 127 \<Longrightarrow> entries (push_slot a pl) = entries pl @ [a]"
  by (simp add: entries_def slots_push_slot)

lemma slots_new_level [simp]:
  "slots (new_level p) = []" "entries (new_level p) = []" "ring_len (new_level p) = 0"
  by (simp_all add: new_level_def slots_def entries_def ring_len_def)

text \<open>
  With 127 orders in the ring one more makes the tail meet the head: the level then looks
  empty to its readers, although its size and quantity say otherwise.
\<close>

lemma push_slot_overflow:
  assumes "ring_len pl = 127"
  shows "ring_len (push_slot a pl) = 0"
proof -
  have d: "pl_tail pl - pl_head pl = 127"
    using assms by (simp add: word_unat_eq_iff ring_len_def)
  have "pl_tail pl + 1 - pl_head pl = (pl_tail pl - pl_head pl) + 1" by simp
  also have "\<dots> = 0" by (simp add: d)
  finally show ?thesis
    by (simp add: ring_len_def push_slot_def ring_next_eq)
qed

subsection \<open>The invariant of a level and its queue\<close>

definition live_qty :: "store \<Rightarrow> addr \<Rightarrow> u32" where
  "live_qty st a = (if live (st a) then o_remaining (st a) else 0)"

lemma live_qty_live: "live (st a) \<Longrightarrow> live_qty st a = o_remaining (st a)"
  by (simp add: live_qty_def)

definition level_ok :: "store \<Rightarrow> price_level \<Rightarrow> bool" where
  "level_ok st pl \<longleftrightarrow>
     pl_size pl = of_nat (ring_len pl) \<and> None \<notin> set (slots pl) \<and> distinct (entries pl) \<and>
     pl_total pl = sum_list (map (live_qty st) (entries pl))"

definition live_queue :: "store \<Rightarrow> price_level \<Rightarrow> addr list" where
  "live_queue st pl = filter (\<lambda>a. live (st a)) (entries pl)"

definition level_abs :: "store \<Rightarrow> price_level \<Rightarrow> (addr \<times> u32) list" where
  "level_abs st pl = map (\<lambda>a. (a, o_remaining (st a))) (live_queue st pl)"

lemma level_okI:
  "pl_size pl = of_nat (ring_len pl) \<Longrightarrow> None \<notin> set (slots pl) \<Longrightarrow> distinct (entries pl) \<Longrightarrow>
    pl_total pl = sum_list (map (live_qty st) (entries pl)) \<Longrightarrow> level_ok st pl"
  by (simp add: level_ok_def)

lemma level_okD:
  assumes "level_ok st pl"
  shows "pl_size pl = of_nat (ring_len pl)" "None \<notin> set (slots pl)" "distinct (entries pl)"
    "pl_total pl = sum_list (map (live_qty st) (entries pl))"
  using assms by (simp_all add: level_ok_def)

lemma level_ok_new: "level_ok st (new_level p)"
  by (simp add: level_ok_def) (simp add: new_level_def)

lemma slots_eq_entries: "None \<notin> set (slots pl) \<Longrightarrow> slots pl = map Some (entries pl)"
  unfolding entries_def
  by (induction "slots pl" rule: list.induct)
    (auto simp: map_idI comp_def, metis (no_types, lifting) map_idI option.collapse)

lemma level_ok_empty_iff: "level_ok st pl \<Longrightarrow> level_empty pl \<longleftrightarrow> entries pl = []"
  using ring_len_bound [of pl]
  by (auto simp: level_empty_def level_okD entries_Nil_iff ring_len_0_iff [symmetric]
      word_of_nat_eq_0_iff dest: nat_dvd_not_less)

lemma level_frame:
  assumes "\<And>a. a \<in> set (entries pl) \<Longrightarrow> st' a = st a"
  shows "level_ok st' pl = level_ok st pl" "level_abs st' pl = level_abs st pl"
proof -
  have "map (live_qty st') (entries pl) = map (live_qty st) (entries pl)"
    using assms by (simp add: live_qty_def)
  then show "level_ok st' pl = level_ok st pl"
    by (simp only: level_ok_def)
  have "live_queue st' pl = live_queue st pl"
    unfolding live_queue_def using assms by (intro filter_cong) auto
  then show "level_abs st' pl = level_abs st pl"
    using assms by (auto simp: level_abs_def live_queue_def)
qed

text \<open>The total is the quantity of the queue.\<close>

lemma level_total_abs:
  "level_ok st pl \<Longrightarrow> pl_total pl = sum_list (map snd (level_abs st pl))"
proof -
  assume ok: "level_ok st pl"
  have "sum_list (map snd (level_abs st pl)) = sum_list (map (live_qty st) (live_queue st pl))"
    unfolding level_abs_def map_map comp_def snd_conv
    by (rule sum_list_map_cong) (simp add: live_queue_def live_qty_def)
  also have "\<dots> = sum_list (map (live_qty st) (entries pl))"
    unfolding live_queue_def by (rule sum_list_map_filter_zero) (simp add: live_qty_def)
  finally show ?thesis using ok by (simp add: level_ok_def)
qed

subsection \<open>Adding an order\<close>

lemma level_add_order_entries:
  assumes "o_remaining (st a) \<noteq> 0" "ring_len pl < 127"
  shows "entries (level_add_order st (Some a) pl) = entries pl @ [a]"
    and "ring_len (level_add_order st (Some a) pl) = Suc (ring_len pl)"
    and "slots (level_add_order st (Some a) pl) = slots pl @ [Some a]"
    and "pl_price (level_add_order st (Some a) pl) = pl_price pl"
  using assms
  by (simp_all add: level_add_order_def level_simps slots_push_slot entries_push_slot)

lemma level_add_order_ok:
  assumes "level_ok st pl" "live (st a)" "a \<notin> set (entries pl)" "ring_len pl < 127"
  shows "level_ok st (level_add_order st (Some a) pl)"
    and "level_abs st (level_add_order st (Some a) pl)
      = level_abs st pl @ [(a, o_remaining (st a))]"
proof -
  let ?pl = "level_add_order st (Some a) pl"
  have r: "o_remaining (st a) \<noteq> 0" using assms(2) by (auto simp: live_def)
  note e = level_add_order_entries [where st = st and a = a and pl = pl, OF r assms(4)]
  have "pl_size ?pl = pl_size pl + 1" "pl_total ?pl = pl_total pl + o_remaining (st a)"
    using r by (simp_all add: level_add_order_def)
  then show "level_ok st ?pl"
    using assms by (intro level_okI) (auto simp: e level_okD live_qty_def)
  show "level_abs st ?pl = level_abs st pl @ [(a, o_remaining (st a))]"
    using assms(2) by (simp add: level_abs_def live_queue_def e)
qed

subsection \<open>Skipping dead slots\<close>

lemma slot_live_Some [simp]: "slot_live st (Some a) = live (st a)"
  by (simp add: slot_live_def live_def)

lemma advance_empty: "pl_head pl = pl_tail pl \<Longrightarrow> advance st pl = pl"
  by (subst advance.simps) simp

lemma advance_live: "slot_live st (pl_buffer pl (pl_head pl)) \<Longrightarrow> advance st pl = pl"
  by (subst advance.simps) simp

lemma advance_dead:
  "pl_head pl \<noteq> pl_tail pl \<Longrightarrow> \<not> slot_live st (pl_buffer pl (pl_head pl)) \<Longrightarrow>
    advance st pl = advance st ((clear_head pl)\<lparr>pl_size := pl_size pl - 1\<rparr>)"
  by (subst advance.simps) simp

text \<open>It stops: either nothing is left or the head slot is live.\<close>

lemma advance_stops:
  "pl_head (advance st pl) = pl_tail (advance st pl) \<or>
    slot_live st (pl_buffer (advance st pl) (pl_head (advance st pl)))"
proof (induction st pl rule: advance.induct)
  case (1 st pl)
  then show ?case
    by (cases "pl_head pl = pl_tail pl"; cases "slot_live st (pl_buffer pl (pl_head pl))")
      (simp_all add: advance_empty advance_live advance_dead)
qed

lemma dead_head_ok:
  assumes ok: "level_ok st pl" and ne: "pl_head pl \<noteq> pl_tail pl"
    and dead: "\<not> slot_live st (pl_buffer pl (pl_head pl))"
  shows "level_ok st ((clear_head pl)\<lparr>pl_size := pl_size pl - 1\<rparr>)"
    and "\<exists>a. pl_buffer pl (pl_head pl) = Some a \<and> \<not> live (st a) \<and>
           entries pl = a # entries (clear_head pl)"
proof -
  obtain a where a: "pl_buffer pl (pl_head pl) = Some a"
    using level_okD(2) [OF ok] slots_clear_head [OF ne]
    by (cases "pl_buffer pl (pl_head pl)") auto
  have e: "entries pl = a # entries (clear_head pl)"
    using entries_clear_head [OF ne] a by simp
  have l: "\<not> live (st a)" using dead a by simp
  show "\<exists>a. pl_buffer pl (pl_head pl) = Some a \<and> \<not> live (st a) \<and>
      entries pl = a # entries (clear_head pl)"
    using a e l by blast
  have "live_qty st a = 0" using l by (simp add: live_qty_def)
  then show "level_ok st ((clear_head pl)\<lparr>pl_size := pl_size pl - 1\<rparr>)"
    using level_okD [OF ok] slots_clear_head [OF ne] ring_len_clear_head [OF ne] e
    by (intro level_okI) (simp_all add: level_simps)
qed

lemma advance_ok:
  "level_ok st pl \<Longrightarrow>
    level_ok st (advance st pl) \<and>
    entries (advance st pl) = dropWhile (\<lambda>a. \<not> live (st a)) (entries pl) \<and>
    pl_price (advance st pl) = pl_price pl \<and> pl_total (advance st pl) = pl_total pl"
proof (induction st pl rule: advance.induct)
  case (1 st pl)
  consider (empty) "pl_head pl = pl_tail pl"
    | (live) "pl_head pl \<noteq> pl_tail pl" "slot_live st (pl_buffer pl (pl_head pl))"
    | (dead) "pl_head pl \<noteq> pl_tail pl" "\<not> slot_live st (pl_buffer pl (pl_head pl))"
    by blast
  then show ?case
  proof cases
    case empty
    with "1.prems" show ?thesis by (simp add: advance_empty entries_empty)
  next
    case live
    then obtain a where "pl_buffer pl (pl_head pl) = Some a" "live (st a)"
      by (cases "pl_buffer pl (pl_head pl)") (auto simp: slot_live_def live_def)
    with live "1.prems" show ?thesis
      by (simp add: advance_live entries_clear_head)
  next
    case dead
    note d = dead_head_ok [OF "1.prems" dead]
    from "1.IH" [OF dead d(1)] d(2) show ?thesis
      by (auto simp: advance_dead [OF dead] level_simps)
  qed
qed

lemma filter_dropWhile_not: "filter P (dropWhile (\<lambda>x. \<not> P x) xs) = filter P xs"
  by (induction xs) auto

lemma advance_abs: "level_ok st pl \<Longrightarrow> level_abs st (advance st pl) = level_abs st pl"
  by (simp add: level_abs_def live_queue_def advance_ok filter_dropWhile_not)

lemma advance_entries_subset:
  "level_ok st pl \<Longrightarrow> set (entries (advance st pl)) \<subseteq> set (entries pl)"
  by (auto simp: advance_ok dest: set_dropWhileD)

subsection \<open>Cancelling an order\<close>

lemma cancel_store_total:
  assumes ok: "level_ok st pl" and act: "is_active (st a)"
    and mem: "a \<in> set (entries pl) \<or> o_remaining (st a) = 0"
  shows "pl_total pl - o_remaining (st a)
    = sum_list (map (live_qty (upd a cancel st)) (entries pl))"
proof (cases "a \<in> set (entries pl)")
  case True
  have "sum_list (map (live_qty (upd a cancel st)) (entries pl))
      = sum_list (map (live_qty st) (entries pl)) - live_qty st a + live_qty (upd a cancel st) a"
    using True level_okD(3) [OF ok]
    by (intro sum_list_map_upd_one) (auto simp: live_qty_def upd_apply)
  moreover have "live_qty st a = o_remaining (st a)"
    using act by (auto simp: live_qty_def live_def)
  ultimately show ?thesis
    using ok by (simp add: level_okD live_qty_def)
next
  case False
  then have "map (live_qty (upd a cancel st)) (entries pl) = map (live_qty st) (entries pl)"
    by (auto simp: live_qty_def upd_apply)
  then show ?thesis
    using False mem ok by (simp only: level_okD) simp
qed

lemma remove_order_inactive: "\<not> is_active (st a) \<Longrightarrow> remove_order st (Some a) pl = (st, pl)"
  by (simp add: remove_order_def)

lemma remove_order_cases [consumes 1, case_names head other]:
  assumes "is_active (st a)"
  obtains "remove_order st (Some a) pl
      = (upd a cancel st, advance (upd a cancel st) (pl\<lparr>pl_total := pl_total pl - o_remaining (st a)\<rparr>))"
    | "remove_order st (Some a) pl
      = (upd a cancel st, pl\<lparr>pl_total := pl_total pl - o_remaining (st a)\<rparr>)"
  using assms
  by (cases "pl_head pl \<noteq> pl_tail pl \<and> pl_buffer pl (pl_head pl) = Some a")
    (simp_all add: remove_order_def Let_def)

lemma live_in_queue: "live (st a) \<Longrightarrow> a \<in> set (entries pl) \<longleftrightarrow> a \<in> fst ` set (level_abs st pl)"
  by (auto simp: level_abs_def live_queue_def image_image)

lemma remove_order_ok:
  assumes ok: "level_ok st pl" and act: "is_active (st a)"
    and mem: "a \<in> set (entries pl) \<or> o_remaining (st a) = 0"
  obtains pl' where "remove_order st (Some a) pl = (upd a cancel st, pl')"
    "level_ok (upd a cancel st) pl'" "pl_price pl' = pl_price pl"
    "set (entries pl') \<subseteq> set (entries pl)"
    "level_abs (upd a cancel st) pl' = filter (\<lambda>(b, q). b \<noteq> a) (level_abs st pl)"
    "a \<notin> set (entries pl) \<Longrightarrow> entries pl' = entries pl"
    "pl_total pl' = pl_total pl - o_remaining (st a)"
proof -
  let ?st = "upd a cancel st" and ?pl = "pl\<lparr>pl_total := pl_total pl - o_remaining (st a)\<rparr>"
  have okc: "level_ok ?st ?pl"
    using ok cancel_store_total [OF ok act mem]
    by (intro level_okI) (simp_all add: level_simps level_okD)
  have live: "live (?st b) \<longleftrightarrow> live (st b) \<and> b \<noteq> a" for b
    by (simp add: upd_apply)
  have abs: "level_abs ?st ?pl = filter (\<lambda>(b, q). b \<noteq> a) (level_abs st pl)"
    unfolding level_abs_def live_queue_def filter_map comp_def level_simps live
    by (auto simp: upd_apply conj_commute intro!: map_cong filter_cong)
  show thesis
    using act
  proof (cases rule: remove_order_cases [of st a pl])
    case r: head
    have same: "entries (advance ?st ?pl) = entries pl" if new: "a \<notin> set (entries pl)"
    proof -
      show ?thesis
      proof (cases "pl_head pl = pl_tail pl")
        case True
        then show ?thesis by (simp add: advance_empty level_simps)
      next
        case False
        then have "pl_buffer pl (pl_head pl) \<noteq> Some a"
          using new entries_clear_head [OF False] by auto
        then have "remove_order st (Some a) pl = (?st, ?pl)"
          using act by (simp add: remove_order_def Let_def)
        then show ?thesis using r by (simp add: level_simps)
      qed
    qed
    show thesis
      using advance_ok [OF okc] advance_abs [OF okc] advance_entries_subset [OF okc] abs same
      by (intro that [OF r]) (simp_all add: level_simps)
  next
    case r: other
    show thesis
      using okc abs by (intro that [OF r]) (simp_all add: level_simps)
  qed
qed

subsection \<open>The matching specification on lists\<close>

text \<open>
  What matching a quantity \<open>q\<close> against a queue means: the fills, in queue order; the
  queue that is left; the part of \<open>q\<close> that is not filled.
\<close>

fun match_fills :: "('a \<times> u32) list \<Rightarrow> u32 \<Rightarrow> ('a \<times> u32) list" where
  "match_fills [] q = []"
| "match_fills ((a, r) # xs) q =
     (if q = 0 then [] else if r \<le> q then (a, r) # match_fills xs (q - r) else [(a, q)])"

fun match_rest :: "('a \<times> u32) list \<Rightarrow> u32 \<Rightarrow> ('a \<times> u32) list" where
  "match_rest [] q = []"
| "match_rest ((a, r) # xs) q =
     (if q = 0 then (a, r) # xs else if r \<le> q then match_rest xs (q - r) else (a, r - q) # xs)"

fun match_left :: "('a \<times> u32) list \<Rightarrow> u32 \<Rightarrow> u32" where
  "match_left [] q = q"
| "match_left ((a, r) # xs) q =
     (if q = 0 then 0 else if r \<le> q then match_left xs (q - r) else 0)"

lemma match_zero [simp]:
  "match_fills xs 0 = []" "match_rest xs 0 = xs" "match_left xs 0 = 0"
  by (cases xs; auto)+

lemma match_left_le: "match_left xs q \<le> q"
proof (induction xs q rule: match_left.induct)
  case (2 a r xs q)
  show ?case
  proof (cases "q = 0 \<or> \<not> r \<le> q")
    case False
    then have "match_left xs (q - r) \<le> q - r" using 2 by simp
    also have "q - r \<le> q" using False by (simp add: word_sub_le)
    finally show ?thesis using False by simp
  qed auto
qed simp

text \<open>Conservation: what the makers give is what the taker gets.\<close>

lemma match_fills_sum: "sum_list (map snd (match_fills xs q)) + match_left xs q = q"
  by (induction xs q rule: match_left.induct) (auto simp: algebra_simps)

lemma match_rest_sum:
  "sum_list (map snd (match_fills xs q)) + sum_list (map snd (match_rest xs q))
    = sum_list (map snd xs)"
  by (induction xs q rule: match_left.induct) (auto simp: algebra_simps)

lemma match_fills_total_nat:
  "sum_list (map (unat \<circ> snd) (match_fills xs q)) + unat (match_left xs q) = unat q"
proof (induction xs q rule: match_left.induct)
  case (2 a r xs q)
  show ?case
  proof (cases "q = 0 \<or> \<not> r \<le> q")
    case False
    then have "unat (q - r) = unat q - unat r" "unat r \<le> unat q"
      by (auto simp: unat_sub word_le_nat_alt)
    with 2 False show ?thesis by simp
  qed auto
qed simp

text \<open>Priority: the fills take a prefix of the queue, all of them whole but the last.\<close>

lemma match_fills_prefix:
  "\<exists>n. map fst (match_fills xs q) = map fst (take n xs) \<and>
    (\<forall>i < length (match_fills xs q) - 1. match_fills xs q ! i = xs ! i)"
proof (induction xs q rule: match_left.induct)
  case (1 q)
  show ?case by simp
next
  case (2 a r xs q)
  show ?case
  proof (cases "q = 0 \<or> \<not> r \<le> q")
    case True
    then show ?thesis
      by (cases "q = 0") (auto intro: exI [of _ 0] exI [of _ 1])
  next
    case False
    then obtain n where n: "map fst (match_fills xs (q - r)) = map fst (take n xs)"
      "\<forall>i < length (match_fills xs (q - r)) - 1. match_fills xs (q - r) ! i = xs ! i"
      using 2 by auto
    have "match_fills ((a, r) # xs) q ! i = ((a, r) # xs) ! i"
      if "i < length (match_fills ((a, r) # xs) q) - 1" for i
      using that n(2) False by (cases i) auto
    moreover have "map fst (match_fills ((a, r) # xs) q) = map fst (take (Suc n) ((a, r) # xs))"
      using False n(1) by simp
    ultimately show ?thesis by blast
  qed
qed

lemma match_fills_subset: "set (map fst (match_fills xs q)) \<subseteq> set (map fst xs)"
  by (induction xs q rule: match_left.induct) auto

lemma match_fills_distinct: "distinct (map fst xs) \<Longrightarrow> distinct (map fst (match_fills xs q))"
proof (induction xs q rule: match_left.induct)
  case (2 a r xs q)
  have "a \<notin> set (map fst (match_fills xs (q - r)))"
    using 2(2) match_fills_subset [of xs "q - r"] by auto
  with 2 show ?case by simp
qed simp

lemma match_left_pos_rest: "match_left xs q \<noteq> 0 \<Longrightarrow> match_rest xs q = []"
  by (induction xs q rule: match_left.induct) (auto split: if_splits)

lemma match_fills_append:
  "match_fills (xs @ ys) q = match_fills xs q @ match_fills ys (match_left xs q)"
  by (induction xs q rule: match_left.induct) auto

lemma match_left_append: "match_left (xs @ ys) q = match_left ys (match_left xs q)"
  by (induction xs q rule: match_left.induct) auto

lemma match_fills_pos:
  "\<forall>x \<in> set xs. snd x \<noteq> 0 \<Longrightarrow> x \<in> set (match_fills xs q) \<Longrightarrow> snd x \<noteq> 0"
  by (induction xs q rule: match_left.induct) (auto split: if_splits)

subsection \<open>The matching loop implements the specification\<close>

definition fills_of :: "i64 \<Rightarrow> (addr \<times> u32) list \<Rightarrow> fill_rec list" where
  "fills_of p ms = map (\<lambda>(a, q). \<lparr>fill_order = a, fill_quantity = q, fill_price = p\<rparr>) ms"

definition apply_fills :: "addr \<Rightarrow> (addr \<times> u32) list \<Rightarrow> store \<Rightarrow> store" where
  "apply_fills inc ms st = foldl (\<lambda>s (a, q). apply_fill a inc q s) st ms"

lemma apply_fills_simps [simp]:
  "apply_fills inc [] st = st"
  "apply_fills inc ((a, q) # ms) st = apply_fills inc ms (apply_fill a inc q st)"
  by (simp_all add: apply_fills_def)

lemma apply_fills_append:
  "apply_fills inc (xs @ ys) st = apply_fills inc ys (apply_fills inc xs st)"
  by (simp add: apply_fills_def)

lemma fills_of_simps [simp]:
  "fills_of p [] = []"
  "fills_of p ((a, q) # ms) = \<lparr>fill_order = a, fill_quantity = q, fill_price = p\<rparr> # fills_of p ms"
  by (simp_all add: fills_of_def)

lemma fills_of_append [simp]: "fills_of p (xs @ ys) = fills_of p xs @ fills_of p ys"
  by (simp add: fills_of_def)

lemma apply_fill_apply:
  "a \<noteq> inc \<Longrightarrow> apply_fill a inc q st b =
    (if b = a \<or> b = inc then (st b)\<lparr>o_remaining := o_remaining (st b) - q,
       o_filled := o_filled (st b) + q\<rparr> else st b)"
  by (auto simp: apply_fill_def take_remaining_def add_filled_def upd_apply)

lemma apply_fill_other: "b \<noteq> a \<Longrightarrow> b \<noteq> inc \<Longrightarrow> apply_fill a inc q st b = st b"
  by (simp add: apply_fill_def)

lemma apply_fill_keeps [simp]:
  "o_price (apply_fill a inc q st b) = o_price (st b)"
  "o_side (apply_fill a inc q st b) = o_side (st b)"
  "o_order_id (apply_fill a inc q st b) = o_order_id (st b)"
  "o_status (apply_fill a inc q st b) = o_status (st b)"
  "o_symbol (apply_fill a inc q st b) = o_symbol (st b)"
  "o_type (apply_fill a inc q st b) = o_type (st b)"
  "o_quantity (apply_fill a inc q st b) = o_quantity (st b)"
  "o_matched_ts (apply_fill a inc q st b) = o_matched_ts (st b)"
  "o_filled (apply_fill a inc q st b) + o_remaining (apply_fill a inc q st b)
    = o_filled (st b) + o_remaining (st b)"
  by (simp_all add: apply_fill_def take_remaining_def add_filled_def upd_apply)

lemma is_active_apply_fill [simp]: "is_active (apply_fill a inc q st b) = is_active (st b)"
  by (simp add: is_active_def)

lemma apply_fills_keeps [simp]:
  "o_price (apply_fills inc ms st b) = o_price (st b)"
  "o_side (apply_fills inc ms st b) = o_side (st b)"
  "o_order_id (apply_fills inc ms st b) = o_order_id (st b)"
  "o_status (apply_fills inc ms st b) = o_status (st b)"
  "o_symbol (apply_fills inc ms st b) = o_symbol (st b)"
  "o_type (apply_fills inc ms st b) = o_type (st b)"
  "o_quantity (apply_fills inc ms st b) = o_quantity (st b)"
  "o_matched_ts (apply_fills inc ms st b) = o_matched_ts (st b)"
  "o_filled (apply_fills inc ms st b) + o_remaining (apply_fills inc ms st b)
    = o_filled (st b) + o_remaining (st b)"
  by (induction ms arbitrary: st) auto

lemma is_active_apply_fills [simp]: "is_active (apply_fills inc ms st b) = is_active (st b)"
  by (simp add: is_active_def)

lemma apply_fills_other:
  "b \<noteq> inc \<Longrightarrow> b \<notin> fst ` set ms \<Longrightarrow> apply_fills inc ms st b = st b"
proof (induction ms arbitrary: st)
  case (Cons x ms)
  then show ?case by (cases x) (auto simp: apply_fill_other)
qed simp

lemma apply_fills_taker:
  "inc \<notin> fst ` set ms \<Longrightarrow>
    o_remaining (apply_fills inc ms st inc) = o_remaining (st inc) - sum_list (map snd ms)"
proof (induction ms arbitrary: st)
  case (Cons x ms)
  then show ?case by (cases x) (auto simp: apply_fill_apply algebra_simps)
qed simp

text \<open>Filling the head of the queue, wholly or in part.\<close>

lemma level_abs_Cons:
  assumes "entries pl = a # es" "live (st a)"
  shows "level_abs st pl
    = (a, o_remaining (st a)) # map (\<lambda>a. (a, o_remaining (st a))) (filter (\<lambda>a. live (st a)) es)"
  using assms by (simp add: level_abs_def live_queue_def)

lemma whole_fill_ok:
  assumes ok: "level_ok st pl" and e: "entries pl = a # es" and ne: "pl_head pl \<noteq> pl_tail pl"
    and live: "live (st a)" and inc: "inc \<notin> set (entries pl)"
  defines "st1 \<equiv> apply_fill a inc (o_remaining (st a)) st"
    and "pl1 \<equiv> (clear_head pl)\<lparr>pl_total := pl_total pl - o_remaining (st a),
                  pl_size := pl_size pl - 1\<rparr>"
  shows "level_ok st1 pl1" "entries pl1 = es" "level_abs st1 pl1 = tl (level_abs st pl)"
    "o_remaining (st1 a) = 0" "pl_price pl1 = pl_price pl"
proof -
  have c: "entries (clear_head pl) = es"
    using entries_clear_head [OF ne] e by simp
  have a: "a \<noteq> inc" and dist: "a \<notin> set es" "distinct es" and inc': "inc \<notin> set es"
    using inc e level_okD(3) [OF ok] by auto
  have frame: "st1 b = st b" if "b \<in> set es" for b
    using that a dist inc' by (auto simp: st1_def apply_fill_apply)
  show e1: "entries pl1 = es" using c by (simp add: pl1_def level_simps)
  have q: "live_qty st a = o_remaining (st a)" using live by (rule live_qty_live)
  have m: "sum_list (map (live_qty st1) es) = sum_list (map (live_qty st) es)"
    using frame by (intro sum_list_map_cong) (simp add: live_qty_def)
  show "level_ok st1 pl1"
    using level_okD [OF ok] slots_clear_head [OF ne] ring_len_clear_head [OF ne] e c dist m q
    by (intro level_okI) (simp_all add: pl1_def level_simps)
  have f: "filter (\<lambda>a. live (st1 a)) es = filter (\<lambda>a. live (st a)) es"
    using frame by (intro filter_cong) auto
  show "level_abs st1 pl1 = tl (level_abs st pl)"
    unfolding level_abs_Cons [where st = st, OF e live] list.sel(3)
    using frame by (auto simp: level_abs_def live_queue_def e1 f)
  show "o_remaining (st1 a) = 0" "pl_price pl1 = pl_price pl"
    using a by (simp_all add: st1_def pl1_def apply_fill_apply level_simps)
qed

lemma part_fill_ok:
  assumes ok: "level_ok st pl" and e: "entries pl = a # es"
    and live: "live (st a)" and inc: "inc \<notin> set (entries pl)"
    and q: "\<not> o_remaining (st a) \<le> q"
  defines "st1 \<equiv> apply_fill a inc q st" and "pl1 \<equiv> pl\<lparr>pl_total := pl_total pl - q\<rparr>"
  shows "level_ok st1 pl1"
    "level_abs st1 pl1 = (a, o_remaining (st a) - q) # tl (level_abs st pl)"
    "o_remaining (st1 a) \<noteq> 0"
proof -
  have a: "a \<noteq> inc" and dist: "a \<notin> set es" "distinct es" and inc': "inc \<notin> set es"
    using inc e level_okD(3) [OF ok] by auto
  have frame: "st1 b = st b" if "b \<in> set es" for b
    using that a dist inc' by (auto simp: st1_def apply_fill_apply)
  show r: "o_remaining (st1 a) \<noteq> 0"
    using a q by (auto simp: st1_def apply_fill_apply)
  have l1: "live (st1 a)" using live r by (simp add: live_def st1_def)
  have r1: "o_remaining (st1 a) = o_remaining (st a) - q"
    using a by (simp add: st1_def apply_fill_apply)
  have e1: "entries pl1 = a # es" by (simp add: pl1_def level_simps e)
  have m: "sum_list (map (live_qty st1) es) = sum_list (map (live_qty st) es)"
    using frame by (intro sum_list_map_cong) (simp add: live_qty_def)
  show "level_ok st1 pl1"
    using level_okD [OF ok] e m r1 live_qty_live [of st a] live_qty_live [of st1 a] live l1
    by (intro level_okI) (simp_all add: pl1_def level_simps)
  have f: "filter (\<lambda>a. live (st1 a)) es = filter (\<lambda>a. live (st a)) es"
    using frame by (intro filter_cong) auto
  show "level_abs st1 pl1 = (a, o_remaining (st a) - q) # tl (level_abs st pl)"
    using frame
    by (auto simp: level_abs_Cons [where st = st, OF e live]
        level_abs_Cons [where st = st1, OF e1 l1] f r1)
qed

lemma match_loop_done [simp]:
  "o_remaining (st inc) = 0 \<Longrightarrow> match_loop inc st pl fs = Some (st, pl, fs)"
  by (simp add: match_loop.simps)

lemma match_loop_empty:
  "o_remaining (st inc) \<noteq> 0 \<Longrightarrow> pl_head (advance st pl) = pl_tail (advance st pl) \<Longrightarrow>
    match_loop inc st pl fs = Some (st, advance st pl, fs)"
  by (simp add: match_loop.simps [of inc st pl fs] Let_def)

text \<open>One round of the loop on a live head.\<close>

lemma match_loop_round:
  assumes "o_remaining (st inc) \<noteq> 0" "pl_head (advance st pl) \<noteq> pl_tail (advance st pl)"
    and "pl_buffer (advance st pl) (pl_head (advance st pl)) = Some a" "live (st a)"
  shows "match_loop inc st pl fs =
    (let pl1 = advance st pl; q = min (o_remaining (st a)) (o_remaining (st inc));
         st1 = apply_fill a inc q st; pl2 = pl1\<lparr>pl_total := pl_total pl1 - q\<rparr>;
         pl3 = (if o_remaining (st1 a) = 0
                then (clear_head pl2)\<lparr>pl_size := pl_size pl2 - 1\<rparr> else pl2)
     in match_loop inc st1 pl3 (fs @ fills_of (o_price (st inc)) [(a, q)]))"
  using assms
  by (simp add: match_loop.simps [of inc st pl fs] Let_def live_def min_def)

lemma match_loop_ok:
  assumes "level_ok st pl" "inc \<notin> set (entries pl)"
  shows "let ms = match_fills (level_abs st pl) (o_remaining (st inc));
             st' = apply_fills inc ms st
         in \<exists>pl'. match_loop inc st pl fs = Some (st', pl', fs @ fills_of (o_price (st inc)) ms) \<and>
              level_ok st' pl' \<and> pl_price pl' = pl_price pl \<and>
              level_abs st' pl' = match_rest (level_abs st pl) (o_remaining (st inc)) \<and>
              o_remaining (st' inc) = match_left (level_abs st pl) (o_remaining (st inc)) \<and>
              set (entries pl') \<subseteq> set (entries pl) \<and>
              (o_remaining (st' inc) \<noteq> 0 \<longrightarrow> entries pl' = [])"
  using assms
proof (induction "ring_len pl" arbitrary: st pl fs rule: less_induct)
  case less
  show ?case
  proof (cases "o_remaining (st inc) = 0")
    case True
    then show ?thesis using less.prems by simp
  next
    case rem: False
    let ?pl1 = "advance st pl"
    note adv = advance_ok [OF less.prems(1)] advance_abs [OF less.prems(1)]
      advance_entries_subset [OF less.prems(1)]
    have inc1: "inc \<notin> set (entries ?pl1)" using adv(3) less.prems(2) by auto
    show ?thesis
    proof (cases "entries ?pl1")
      case Nil
      then have "level_abs st pl = []"
        using adv(2) by (simp add: level_abs_def live_queue_def)
      then show ?thesis
        using Nil adv rem
        by (auto simp: match_loop_empty entries_Nil_iff [symmetric])
    next
      case (Cons a es)
      then have ne: "pl_head ?pl1 \<noteq> pl_tail ?pl1" by (auto simp: entries_Nil_iff [symmetric])
      have la: "live (st a)"
        using adv(1) Cons by (metis hd_dropWhile list.distinct(1) list.sel(1))
      have buf: "pl_buffer ?pl1 (pl_head ?pl1) = Some a"
        using advance_stops [of st pl] ne entries_clear_head [OF ne] Cons
        by (cases "pl_buffer ?pl1 (pl_head ?pl1)") (auto simp: slot_live_def)
      note round = match_loop_round [where st = st and inc = inc and pl = pl and a = a and fs = fs,
          OF rem ne buf la]
      have abs: "level_abs st pl = (a, o_remaining (st a)) # tl (level_abs st ?pl1)"
        using adv(2) level_abs_Cons [where st = st, OF Cons la] by (metis list.sel(3))
      have price: "pl_price ?pl1 = pl_price pl" using adv(1) by blast
      have ai: "a \<noteq> inc" using inc1 Cons by auto
      show ?thesis
      proof (cases "o_remaining (st a) \<le> o_remaining (st inc)")
        case True
        let ?st1 = "apply_fill a inc (o_remaining (st a)) st"
        let ?pl3 = "(clear_head ?pl1)\<lparr>pl_total := pl_total ?pl1 - o_remaining (st a),
                       pl_size := pl_size ?pl1 - 1\<rparr>"
        note w = whole_fill_ok [where st = st and pl = ?pl1 and a = a and es = es and inc = inc,
            OF conjunct1 [OF adv(1)] Cons ne la inc1]
        have len: "ring_len ?pl3 < ring_len pl"
        proof -
          have "ring_len ?pl3 < ring_len ?pl1"
            using ring_len_clear_head [OF ne] by (simp add: level_simps)
          also have "ring_len ?pl1 \<le> ring_len pl"
            using adv(1) length_dropWhile_le [of "\<lambda>a. \<not> live (st a)" "entries pl"]
            by (metis length_entries)
          finally show ?thesis .
        qed
        have step: "match_loop inc st pl fs = match_loop inc ?st1 ?pl3
            (fs @ fills_of (o_price (st inc)) [(a, o_remaining (st a))])"
          using round True w(4) by (simp add: Let_def min_def level_simps)
        have inc3: "inc \<notin> set (entries ?pl3)" using inc1 w(2) Cons by auto
        have sub: "set (entries ?pl3) \<subseteq> set (entries pl)" using w(2) Cons adv(3) by auto
        have ri: "o_remaining (?st1 inc) = o_remaining (st inc) - o_remaining (st a)"
          using ai by (simp add: apply_fill_apply)
        show ?thesis
          using less.hyps [OF len w(1) inc3,
              of "fs @ fills_of (o_price (st inc)) [(a, o_remaining (st a))]"]
            sub w(3,5) price True rem
          unfolding step Let_def abs by (auto simp: ri adv(2))
      next
        case False
        let ?q = "o_remaining (st inc)"
        let ?st1 = "apply_fill a inc ?q st"
        let ?pl2 = "?pl1\<lparr>pl_total := pl_total ?pl1 - ?q\<rparr>"
        note w = part_fill_ok [where st = st and pl = ?pl1 and a = a and es = es and inc = inc
            and q = ?q, OF conjunct1 [OF adv(1)] Cons la inc1 False]
        have ri: "o_remaining (?st1 inc) = 0" using ai by (simp add: apply_fill_apply)
        have step: "match_loop inc st pl fs
            = Some (?st1, ?pl2, fs @ fills_of (o_price (st inc)) [(a, ?q)])"
          using round False w(3) ri by (simp add: Let_def min_def)
        show ?thesis
          using w(1,2) price adv(3) False rem ri
          unfolding step Let_def abs by (auto simp: adv(2) level_simps)
      qed
    qed
  qed
qed

end
