(* ===== verification/Order_Book_Inv.thy ===== *)
theory Order_Book_Inv
  imports Order_Book Price_Level_Props
begin

text \<open>
  The invariant of the order book and the lemmas that its primitive operations keep it:
  no dangling level pointer, both sides strictly sorted, one level per price, the depth
  counters and the index in step with the levels.
\<close>

subsection \<open>Interface: the order of prices on one side\<close>

locale price_order =
  fixes earlier :: "'p \<Rightarrow> 'p \<Rightarrow> bool"
  assumes earlier_irrefl: "\<not> earlier x x"
    and earlier_trans: "earlier x y \<Longrightarrow> earlier y z \<Longrightarrow> earlier x z"
    and earlier_total: "x \<noteq> y \<Longrightarrow> earlier x y \<or> earlier y x"
begin

lemma partition_point:
  assumes "sorted_wrt earlier xs" "i < length xs"
  shows "earlier (xs ! i) p \<longleftrightarrow> i < length (takeWhile (\<lambda>x. earlier x p) xs)"
  using assms
proof (induction xs arbitrary: i)
  case (Cons x xs)
  show ?case
  proof (cases i)
    case (Suc j)
    then have "earlier x (xs ! j)" using Cons.prems by simp
    then have "\<not> earlier x p \<Longrightarrow> \<not> earlier (xs ! j) p" using earlier_trans by blast
    with Suc Cons show ?thesis by auto
  qed auto
qed simp

lemma after_partition_point:
  assumes "sorted_wrt earlier xs" "p \<notin> set xs"
    and "y \<in> set (drop (length (takeWhile (\<lambda>x. earlier x p) xs)) xs)"
  shows "earlier p y"
  using assms by (induction xs) (auto dest: earlier_total intro: earlier_trans split: if_splits)

lemma sorted_insert:
  assumes "sorted_wrt earlier xs" "p \<notin> set xs"
  shows "sorted_wrt earlier (takeWhile (\<lambda>x. earlier x p) xs @ p #
           drop (length (takeWhile (\<lambda>x. earlier x p) xs)) xs)"
  using assms
  by (induction xs) (auto dest: earlier_total set_takeWhileD in_set_dropD intro: earlier_trans)

lemma sorted_distinct: "sorted_wrt earlier xs \<Longrightarrow> distinct xs"
  by (induction xs) (auto simp: earlier_irrefl)

lemma not_earlier_prefix:
  assumes "sorted_wrt earlier xs"
  shows "filter (\<lambda>x. \<not> earlier p x) xs = takeWhile (\<lambda>x. \<not> earlier p x) xs"
  using assms
  by (induction xs) (auto intro: earlier_trans simp: filter_empty_conv takeWhile_eq_Nil_iff)

end

lemma price_order_before: "price_order (before s)"
  by unfold_locales (auto simp: before_def split: if_splits)

interpretation bid_side: price_order "before True"
  by (rule price_order_before)

interpretation ask_side: price_order "before False"
  by (rule price_order_before)

lemma beyond_limit_before:
  "beyond_limit is_bid level inc \<longleftrightarrow> before (\<not> is_bid) (o_price inc) (pl_price level)"
  by (cases is_bid) (auto simp: beyond_limit_def before_def)

subsection \<open>The binary search finds the partition point\<close>

lemma lower_bound_loop_correct:
  assumes "\<And>i. first \<le> i \<Longrightarrow> i < first + len \<Longrightarrow> cmp i = Inr (i < k)"
    and "first \<le> k" "k \<le> first + len"
  shows "lower_bound_loop cmp first len = Inr k"
  using assms
proof (induction cmp first len rule: lower_bound_loop.induct)
  case (1 cmp first len)
  show ?case
  proof (cases "len = 0")
    case True
    with "1.prems" show ?thesis by (simp add: lower_bound_loop.simps [of cmp first 0])
  next
    case False
    let ?h = "len div 2"
    have h: "?h < len" using False by simp
    have c: "cmp (first + ?h) = Inr (first + ?h < k)" using "1.prems"(1) h by simp
    show ?thesis
    proof (cases "first + ?h < k")
      case True
      have "lower_bound_loop cmp (first + ?h + 1) (len - ?h - 1) = Inr k"
        using False True c "1.prems" h by (intro "1.IH"(1)) auto
      then show ?thesis
        using False True c by (simp add: lower_bound_loop.simps [of cmp first len])
    next
      case less: False
      have "lower_bound_loop cmp first ?h = Inr k"
        using False less c "1.prems" h by (intro "1.IH"(2)) auto
      then show ?thesis
        using False less c by (simp add: lower_bound_loop.simps [of cmp first len])
    qed
  qed
qed

subsection \<open>The sides as fields\<close>

lemma side_simps [book_simps, simp]:
  "levels_of s (set_levels s ls b) = ls"
  "levels_of (\<not> s) (set_levels s ls b) = levels_of (\<not> s) b"
  "levels_of s (set_levels (\<not> s) ls b) = levels_of s b"
  "levels_of s (set_depth s' d b) = levels_of s b"
  "depth_of s (set_depth s d b) = d"
  "depth_of (\<not> s) (set_depth s d b) = depth_of (\<not> s) b"
  "depth_of s (set_depth (\<not> s) d b) = depth_of s b"
  "depth_of s (set_levels s' ls b) = depth_of s b"
  by (auto simp: levels_of_def set_levels_def depth_of_def set_depth_def)

lemma set_side_keeps [book_simps, simp]:
  "ob_heap (set_levels s ls b) = ob_heap b" "ob_p2l (set_levels s ls b) = ob_p2l b"
  "ob_index (set_levels s ls b) = ob_index b" "ob_fresh (set_levels s ls b) = ob_fresh b"
  "ob_heap (set_depth s d b) = ob_heap b" "ob_p2l (set_depth s d b) = ob_p2l b"
  "ob_index (set_depth s d b) = ob_index b" "ob_fresh (set_depth s d b) = ob_fresh b"
  "ob_sequence (set_levels s ls b) = ob_sequence b" "ob_sequence (set_depth s d b) = ob_sequence b"
  "ob_symbol (set_levels s ls b) = ob_symbol b" "ob_symbol (set_depth s d b) = ob_symbol b"
  by (auto simp: set_levels_def set_depth_def)

lemma levels_of_keeps [book_simps, simp]:
  "levels_of s (b\<lparr>ob_heap := h\<rparr>) = levels_of s b" "levels_of s (b\<lparr>ob_p2l := m\<rparr>) = levels_of s b"
  "levels_of s (b\<lparr>ob_index := i\<rparr>) = levels_of s b" "levels_of s (b\<lparr>ob_fresh := n\<rparr>) = levels_of s b"
  "levels_of s (b\<lparr>ob_sequence := q\<rparr>) = levels_of s b"
  "levels_of s (b\<lparr>ob_best_bid := p\<rparr>) = levels_of s b"
  "levels_of s (b\<lparr>ob_best_ask := p\<rparr>) = levels_of s b"
  "depth_of s (b\<lparr>ob_heap := h\<rparr>) = depth_of s b" "depth_of s (b\<lparr>ob_p2l := m\<rparr>) = depth_of s b"
  "depth_of s (b\<lparr>ob_index := i\<rparr>) = depth_of s b" "depth_of s (b\<lparr>ob_fresh := n\<rparr>) = depth_of s b"
  "depth_of s (b\<lparr>ob_sequence := q\<rparr>) = depth_of s b"
  "depth_of s (b\<lparr>ob_best_bid := p\<rparr>) = depth_of s b"
  "depth_of s (b\<lparr>ob_best_ask := p\<rparr>) = depth_of s b"
  by (simp_all add: levels_of_def depth_of_def)

lemma set_level_simps [book_simps, simp]:
  "levels_of s (set_level l pl b) = levels_of s b" "depth_of s (set_level l pl b) = depth_of s b"
  "ob_heap (set_level l pl b) = (ob_heap b)(l \<mapsto> pl)" "ob_p2l (set_level l pl b) = ob_p2l b"
  "ob_index (set_level l pl b) = ob_index b" "ob_fresh (set_level l pl b) = ob_fresh b"
  "ob_sequence (set_level l pl b) = ob_sequence b"
  by (simp_all add: set_level_def)

lemma levels_of_True_False [simp]:
  "levels_of True b = ob_bids b" "levels_of False b = ob_asks b"
  "depth_of True b = ob_bid_depth b" "depth_of False b = ob_ask_depth b"
  by (simp_all add: levels_of_def depth_of_def)

subsection \<open>The invariant\<close>

text \<open>\<open>lv b l\<close> is the level object a live pointer points to, \<open>lprice\<close> its price.\<close>

definition lv :: "order_book \<Rightarrow> laddr \<Rightarrow> price_level" where
  "lv b l = the (ob_heap b l)"

definition lprice :: "order_book \<Rightarrow> laddr \<Rightarrow> i64" where
  "lprice b l = pl_price (lv b l)"

definition all_levels :: "order_book \<Rightarrow> laddr list" where
  "all_levels b = ob_bids b @ ob_asks b"

text \<open>
  The pointer structure: the two vectors hold exactly the live levels, once each; each
  side is strictly sorted by price; the price map is the inverse of the price.
\<close>

definition book_shape :: "order_book \<Rightarrow> bool" where
  "book_shape b \<longleftrightarrow>
     distinct (all_levels b) \<and> dom (ob_heap b) = set (all_levels b) \<and>
     (\<forall>l \<in> set (all_levels b). l < ob_fresh b) \<and>
     (\<forall>s. sorted_wrt (before s) (map (lprice b) (levels_of s b))) \<and>
     (\<forall>p l. ob_p2l b p = Some l \<longleftrightarrow> l \<in> set (all_levels b) \<and> lprice b l = p)"

text \<open>Every level is well-formed, and its orders have its price and its side.\<close>

definition book_orders :: "store \<Rightarrow> order_book \<Rightarrow> bool" where
  "book_orders st b \<longleftrightarrow>
     (\<forall>s. \<forall>l \<in> set (levels_of s b). level_ok st (lv b l) \<and>
        (\<forall>a \<in> set (entries (lv b l)). o_price (st a) = lprice b l \<and> is_buy (st a) = s))"

text \<open>The depth counters are the totals of the sides' levels.\<close>

definition book_depth :: "order_book \<Rightarrow> bool" where
  "book_depth b \<longleftrightarrow>
     (\<forall>s. depth_of s b = sum_list (map (\<lambda>l. pl_total (lv b l)) (levels_of s b)))"

text \<open>
  The index: an entry describes its order; the order is active, and unless it is filled it
  waits in the level of its price.  Every live order of the book is indexed.
\<close>

definition book_index :: "store \<Rightarrow> order_book \<Rightarrow> bool" where
  "book_index st b \<longleftrightarrow>
     (\<forall>i loc. ob_index b i = Some loc \<longrightarrow>
        o_order_id (st (loc_order loc)) = i \<and> loc_price loc = o_price (st (loc_order loc)) \<and>
        loc_is_bid loc = is_buy (st (loc_order loc)) \<and> is_active (st (loc_order loc)) \<and>
        (o_remaining (st (loc_order loc)) = 0 \<or>
         (\<exists>l \<in> set (all_levels b). lprice b l = loc_price loc \<and>
            loc_order loc \<in> set (entries (lv b l))))) \<and>
     (\<forall>l \<in> set (all_levels b). \<forall>a \<in> set (entries (lv b l)). live (st a) \<longrightarrow>
        (\<exists>loc. ob_index b (o_order_id (st a)) = Some loc \<and> loc_order loc = a))"

definition book_ok :: "store \<Rightarrow> order_book \<Rightarrow> bool" where
  "book_ok st b \<longleftrightarrow> book_shape b \<and> book_orders st b \<and> book_depth b \<and> book_index st b"

text \<open>The published best prices are those of the first levels.\<close>

definition first_price :: "order_book \<Rightarrow> laddr list \<Rightarrow> i64 \<Rightarrow> i64" where
  "first_price b ls p = (case ls of [] \<Rightarrow> p | l # _ \<Rightarrow> lprice b l)"

definition best_ok :: "order_book \<Rightarrow> bool" where
  "best_ok b \<longleftrightarrow> ob_best_bid b = first_price b (ob_bids b) 0 \<and>
     ob_best_ask b = first_price b (ob_asks b) int64_max"

lemma set_all_levels: "set (all_levels b) = set (levels_of s b) \<union> set (levels_of (\<not> s) b)"
  by (cases s) (auto simp: all_levels_def)

lemma in_all_levels: "l \<in> set (levels_of s b) \<Longrightarrow> l \<in> set (all_levels b)"
  by (simp add: set_all_levels [of b s])

lemma distinct_all_levels:
  "distinct (all_levels b) \<longleftrightarrow> distinct (levels_of s b) \<and> distinct (levels_of (\<not> s) b) \<and>
    set (levels_of s b) \<inter> set (levels_of (\<not> s) b) = {}"
  by (cases s) (auto simp: all_levels_def)

lemma book_shapeD:
  assumes "book_shape b"
  shows "distinct (all_levels b)" "dom (ob_heap b) = set (all_levels b)"
    "\<And>l. l \<in> set (all_levels b) \<Longrightarrow> l < ob_fresh b"
    "\<And>s. sorted_wrt (before s) (map (lprice b) (levels_of s b))"
    "\<And>p l. ob_p2l b p = Some l \<longleftrightarrow> l \<in> set (all_levels b) \<and> lprice b l = p"
  using assms by (auto simp: book_shape_def)

lemma heap_level: "book_shape b \<Longrightarrow> l \<in> set (all_levels b) \<Longrightarrow> ob_heap b l = Some (lv b l)"
  using book_shapeD(2) [of b] by (auto simp: lv_def dom_def set_eq_iff)

lemma deref_level: "book_shape b \<Longrightarrow> l \<in> set (all_levels b) \<Longrightarrow> deref b l = Inr (lv b l)"
  by (simp add: deref_def heap_level)

lemma level_price_inj:
  "book_shape b \<Longrightarrow> l \<in> set (all_levels b) \<Longrightarrow> l' \<in> set (all_levels b) \<Longrightarrow>
    lprice b l = lprice b l' \<Longrightarrow> l = l'"
  using book_shapeD(5) by (metis option.inject)

lemma book_ordersD:
  assumes "book_orders st b" "l \<in> set (levels_of s b)"
  shows "level_ok st (lv b l)" "a \<in> set (entries (lv b l)) \<Longrightarrow> o_price (st a) = lprice b l"
    "a \<in> set (entries (lv b l)) \<Longrightarrow> is_buy (st a) = s"
  using assms by (auto simp: book_orders_def)

lemma book_index_live:
  assumes "book_index st b" "l \<in> set (all_levels b)" "a \<in> set (entries (lv b l))" "live (st a)"
  shows "\<exists>loc. ob_index b (o_order_id (st a)) = Some loc \<and> loc_order loc = a"
  using assms unfolding book_index_def by blast

lemma book_index_entry:
  assumes "book_index st b" "ob_index b i = Some loc"
  shows "o_order_id (st (loc_order loc)) = i" "loc_price loc = o_price (st (loc_order loc))"
    "loc_is_bid loc = is_buy (st (loc_order loc))" "is_active (st (loc_order loc))"
    "o_remaining (st (loc_order loc)) = 0 \<or>
       (\<exists>l \<in> set (all_levels b). lprice b l = loc_price loc \<and>
          loc_order loc \<in> set (entries (lv b l)))"
  using assms unfolding book_index_def by blast+

lemma all_levels_side:
  assumes "l \<in> set (all_levels b)" obtains s where "l \<in> set (levels_of s b)"
  using assms set_all_levels [of b True] by (metis Un_iff)

text \<open>An order waits in at most one level.\<close>

lemma entries_disjoint:
  assumes "book_shape b" "book_orders st b" "l \<in> set (all_levels b)" "l' \<in> set (all_levels b)"
    and "a \<in> set (entries (lv b l))" "a \<in> set (entries (lv b l'))"
  shows "l = l'"
  using assms level_price_inj book_ordersD(2) all_levels_side by metis

lemma first_price_extreme:
  assumes "book_shape b" "levels_of s b = l # ls" "l' \<in> set ls"
  shows "before s (lprice b l) (lprice b l')"
  using book_shapeD(4) [OF assms(1), of s] assms(2,3) by simp

lemma update_best_prices_ok:
  assumes "book_shape b"
  shows "update_best_prices b = Inr (b\<lparr>ob_best_bid := first_price b (ob_bids b) 0,
           ob_best_ask := first_price b (ob_asks b) int64_max\<rparr>)"
proof -
  have d: "deref b' l = Inr (lv b l)"
    if "l \<in> set (all_levels b)" "ob_heap b' = ob_heap b" for l b'
    using that assms by (simp add: deref_def heap_level)
  show ?thesis
    by (auto simp: update_best_prices_def best_price_def first_price_def lprice_def d
        all_levels_def split: list.split)
qed

text \<open>The parts of the invariant depend on few fields.\<close>

lemma lv_keeps [simp]:
  "lv (b\<lparr>ob_best_bid := x\<rparr>) = lv b" "lv (b\<lparr>ob_best_ask := x\<rparr>) = lv b"
  "lv (b\<lparr>ob_sequence := q\<rparr>) = lv b" "lv (b\<lparr>ob_index := i\<rparr>) = lv b"
  "lv (set_depth s d b) = lv b" "lv (set_levels s ls b) = lv b"
  "lv (b\<lparr>ob_p2l := m\<rparr>) = lv b"
  by (simp_all add: lv_def fun_eq_iff)

lemma lprice_keeps [simp]:
  "lprice (b\<lparr>ob_best_bid := x\<rparr>) = lprice b" "lprice (b\<lparr>ob_best_ask := x\<rparr>) = lprice b"
  "lprice (b\<lparr>ob_sequence := q\<rparr>) = lprice b" "lprice (b\<lparr>ob_index := i\<rparr>) = lprice b"
  "lprice (set_depth s d b) = lprice b" "lprice (set_levels s ls b) = lprice b"
  "lprice (b\<lparr>ob_p2l := m\<rparr>) = lprice b"
  by (simp_all add: lprice_def fun_eq_iff)

lemma lv_set_level: "lv (set_level l pl b) l' = (if l' = l then pl else lv b l')"
  by (simp add: lv_def)

lemma lprice_set_level:
  "pl_price pl = lprice b l \<Longrightarrow> lprice (set_level l pl b) = lprice b"
  by (simp add: lprice_def lv_set_level fun_eq_iff)

lemma all_levels_keeps [simp]:
  "all_levels (b\<lparr>ob_best_bid := x\<rparr>) = all_levels b" "all_levels (b\<lparr>ob_best_ask := x\<rparr>) = all_levels b"
  "all_levels (b\<lparr>ob_sequence := q\<rparr>) = all_levels b" "all_levels (b\<lparr>ob_index := i\<rparr>) = all_levels b"
  "all_levels (set_depth s d b) = all_levels b" "all_levels (set_level l pl b) = all_levels b"
  "all_levels (b\<lparr>ob_p2l := m\<rparr>) = all_levels b"
  by (simp_all add: all_levels_def set_depth_def set_level_def)

lemma book_ok_published [simp]:
  "book_ok st (b\<lparr>ob_best_bid := x\<rparr>) = book_ok st b"
  "book_ok st (b\<lparr>ob_best_ask := x\<rparr>) = book_ok st b"
  "book_ok st (b\<lparr>ob_sequence := q\<rparr>) = book_ok st b"
  by (simp_all add: book_ok_def book_shape_def book_orders_def book_depth_def book_index_def)

lemma book_ok_new: "book_ok st (new_book name)"
  by (simp add: book_ok_def book_shape_def book_orders_def book_depth_def book_index_def
      new_book_def all_levels_def levels_of_def depth_of_def)

lemma best_ok_new: "best_ok (new_book name)"
  by (simp add: best_ok_def first_price_def new_book_def)

subsection \<open>Finding or creating the level of a price\<close>

lemma side_split:
  assumes "book_shape b" "levels_of s b = L @ l # R"
  shows "x \<in> set L \<Longrightarrow> before s (lprice b x) (lprice b l)"
    and "x \<in> set R \<Longrightarrow> before s (lprice b l) (lprice b x)"
  using book_shapeD(4) [OF assms(1), of s] assms(2) by (auto simp: sorted_wrt_append)

lemma lower_bound_levels:
  fixes s :: bool
  assumes shape: "book_shape b" and heap: "\<And>l. l \<in> set (all_levels b) \<Longrightarrow> ob_heap b' l = ob_heap b l"
  defines "ls \<equiv> levels_of s b"
  shows "lower_bound_loop (level_cmp b' s ls p) 0 (length ls)
    = Inr (length (takeWhile (\<lambda>l. before s (lprice b l) p) ls))"
proof (rule lower_bound_loop_correct)
  fix i assume i: "i < 0 + length ls"
  then have mem: "ls ! i \<in> set (all_levels b)"
    unfolding ls_def by (intro in_all_levels [where s = s]) simp
  have "before s (map (lprice b) ls ! i) p \<longleftrightarrow>
      i < length (takeWhile (\<lambda>x. before s x p) (map (lprice b) ls))"
    using i book_shapeD(4) [OF shape, of s] unfolding ls_def
    by (intro price_order.partition_point [OF price_order_before]) simp_all
  then have "before s (lprice b (ls ! i)) p \<longleftrightarrow>
      i < length (takeWhile (\<lambda>l. before s (lprice b l) p) ls)"
    using i by (simp add: takeWhile_map comp_def)
  moreover have "level_cmp b' s ls p i = Inr (before s (lprice b (ls ! i)) p)"
    by (simp add: level_cmp_def deref_def lprice_def heap [OF mem] heap_level [OF shape mem])
  ultimately show "level_cmp b' s ls p i
      = Inr (i < length (takeWhile (\<lambda>l. before s (lprice b l) p) ls))"
    by simp
qed (simp_all add: length_takeWhile_le)

text \<open>
  The created level, spelled out: the address is fresh, the price map and the heap have one
  entry more, and the level stands at its place of the sorted side.
\<close>

definition with_new_level :: "i64 \<Rightarrow> bool \<Rightarrow> laddr list \<Rightarrow> order_book \<Rightarrow> order_book" where
  "with_new_level p s ls b =
     set_levels s ls (b\<lparr>ob_heap := (ob_heap b)(ob_fresh b \<mapsto> new_level p),
       ob_fresh := Suc (ob_fresh b), ob_p2l := (ob_p2l b)(p \<mapsto> ob_fresh b)\<rparr>)"

lemma get_level_new:
  fixes s :: bool
  assumes shape: "book_shape b" and none: "ob_p2l b p = None"
  defines "k \<equiv> length (takeWhile (\<lambda>l. before s (lprice b l) p) (levels_of s b))"
  shows "get_level p s b = Inr (ob_fresh b, with_new_level p s
           (take k (levels_of s b) @ ob_fresh b # drop k (levels_of s b)) b)"
proof -
  let ?b1 = "b\<lparr>ob_heap := (ob_heap b)(ob_fresh b \<mapsto> new_level p), ob_fresh := Suc (ob_fresh b)\<rparr>"
  let ?b2 = "?b1\<lparr>ob_p2l := (ob_p2l ?b1)(p \<mapsto> ob_fresh b)\<rparr>"
  have "ob_heap ?b2 l = ob_heap b l" if "l \<in> set (all_levels b)" for l
    using book_shapeD(3) [OF shape that] by simp
  then have "lower_bound_loop (level_cmp ?b2 s (levels_of s b) p) 0 (length (levels_of s b)) = Inr k"
    unfolding k_def by (rule lower_bound_levels [OF shape])
  then show ?thesis
    using none
    by (simp add: get_level_def find_level_def alloc_level_def insert_level_def deref_def
        new_level_def Let_def with_new_level_def)
qed

lemma lv_with_new_level:
  "lv (with_new_level p s ls b) l = (if l = ob_fresh b then new_level p else lv b l)"
  by (simp add: with_new_level_def lv_def)

lemma with_new_level_keeps [simp]:
  "levels_of s (with_new_level p s ls b) = ls"
  "levels_of (\<not> s) (with_new_level p s ls b) = levels_of (\<not> s) b"
  "depth_of s' (with_new_level p s ls b) = depth_of s' b"
  "ob_index (with_new_level p s ls b) = ob_index b"
  "ob_sequence (with_new_level p s ls b) = ob_sequence b"
  "ob_p2l (with_new_level p s ls b) = (ob_p2l b)(p \<mapsto> ob_fresh b)"
  "ob_fresh (with_new_level p s ls b) = Suc (ob_fresh b)"
  "ob_heap (with_new_level p s ls b) = (ob_heap b)(ob_fresh b \<mapsto> new_level p)"
  by (simp_all add: with_new_level_def)

lemma book_shape_with_new_level:
  assumes shape: "book_shape b" and none: "ob_p2l b p = None"
    and ls: "levels_of s b = L @ R" "\<And>x. x \<in> set L \<Longrightarrow> before s (lprice b x) p"
      "\<And>x. x \<in> set R \<Longrightarrow> before s p (lprice b x)"
  shows "book_shape (with_new_level p s (L @ ob_fresh b # R) b)"
proof -
  let ?f = "ob_fresh b" and ?b = "with_new_level p s (L @ ob_fresh b # R) b"
  have fresh: "?f \<notin> set (all_levels b)"
    using book_shapeD(3) [OF shape] by blast
  have no: "lprice b l \<noteq> p" if "l \<in> set (all_levels b)" for l
    using that none book_shapeD(5) [OF shape, of p l] by auto
  have mem: "set (all_levels ?b) = insert ?f (set (all_levels b))"
    using ls(1) by (auto simp: set_all_levels [of _ s])
  have pr: "lprice ?b l = (if l = ?f then p else lprice b l)" for l
    by (simp add: lprice_def lv_with_new_level) (simp add: new_level_def)
  have prs: "map (lprice ?b) xs = map (lprice b) xs" if "set xs \<subseteq> set (all_levels b)" for xs
    using that fresh by (auto simp: pr)
  have sub: "set L \<subseteq> set (all_levels b)" "set R \<subseteq> set (all_levels b)"
    "set (levels_of (\<not> s) b) \<subseteq> set (all_levels b)"
    using ls(1) by (auto simp: set_all_levels [of b s])
  have srt: "sorted_wrt (before s) (map (lprice b) (L @ R))"
    using book_shapeD(4) [OF shape, of s] ls(1) by simp
  have "sorted_wrt (before s') (map (lprice ?b) (levels_of s' ?b))" for s'
  proof (cases "s' = s")
    case True
    then show ?thesis
      using srt ls(2,3) sub by (auto simp: prs pr sorted_wrt_append)
  next
    case False
    then have "s' = (\<not> s)" by simp
    then show ?thesis
      using book_shapeD(4) [OF shape, of "\<not> s"] by (simp add: prs [OF sub(3)])
  qed
  moreover have "distinct (all_levels ?b)"
    using book_shapeD(1) [OF shape] fresh ls(1)
    by (auto simp: distinct_all_levels [of _ s] set_all_levels [of b s])
  moreover have "dom (ob_heap ?b) = set (all_levels ?b)"
    by (simp add: mem book_shapeD(2) [OF shape])
  moreover have "ob_p2l ?b q = Some l \<longleftrightarrow> l \<in> set (all_levels ?b) \<and> lprice ?b l = q" for q l
    using fresh no book_shapeD(5) [OF shape, of q l] by (auto simp: mem pr)
  moreover have "l < ob_fresh ?b" if "l \<in> set (all_levels ?b)" for l
    using that book_shapeD(3) [OF shape, of l] by (auto simp: mem)
  ultimately show ?thesis
    unfolding book_shape_def by blast
qed

lemma book_ok_with_new_level:
  assumes ok: "book_ok st b" and none: "ob_p2l b p = None"
    and ls: "levels_of s b = L @ R" "\<And>x. x \<in> set L \<Longrightarrow> before s (lprice b x) p"
      "\<And>x. x \<in> set R \<Longrightarrow> before s p (lprice b x)"
  shows "book_ok st (with_new_level p s (L @ ob_fresh b # R) b)"
proof -
  let ?f = "ob_fresh b" and ?b = "with_new_level p s (L @ ob_fresh b # R) b"
  have shape: "book_shape b" and ord: "book_orders st b" and dep: "book_depth b"
    and ind: "book_index st b"
    using ok by (simp_all add: book_ok_def)
  have fresh: "?f \<notin> set (all_levels b)"
    using book_shapeD(3) [OF shape] by blast
  have pr: "lprice ?b l = (if l = ?f then p else lprice b l)" for l
    by (simp add: lprice_def lv_with_new_level) (simp add: new_level_def)
  have mem: "set (all_levels ?b) = insert ?f (set (all_levels b))"
    using ls(1) by (auto simp: set_all_levels [of _ s])
  have side: "l \<in> set (levels_of s' ?b) \<Longrightarrow> l \<noteq> ?f \<Longrightarrow> l \<in> set (levels_of s' b)" for l s'
    using ls(1) by (cases "s' = s") (auto split: if_splits)
  have nf: "l \<in> set (levels_of s' b) \<Longrightarrow> l \<noteq> ?f" for l s'
    using fresh in_all_levels by blast
  have "book_orders st ?b"
    unfolding book_orders_def
  proof (intro allI ballI)
    fix s' l assume "l \<in> set (levels_of s' ?b)"
    then show "level_ok st (lv ?b l) \<and>
        (\<forall>a\<in>set (entries (lv ?b l)). o_price (st a) = lprice ?b l \<and> is_buy (st a) = s')"
      using side [of l s'] book_ordersD [OF ord, of l s']
      by (cases "l = ?f") (auto simp: lv_with_new_level pr level_ok_new)
  qed
  moreover have "book_depth ?b"
    unfolding book_depth_def
  proof (intro allI)
    fix s'
    have old: "map (\<lambda>l. pl_total (lv ?b l)) xs = map (\<lambda>l. pl_total (lv b l)) xs"
      if "?f \<notin> set xs" for xs
      using that by (auto simp: lv_with_new_level)
    have f0: "pl_total (lv ?b ?f) = 0"
      by (simp add: lv_with_new_level) (simp add: new_level_def)
    show "depth_of s' ?b = (\<Sum>l\<leftarrow>levels_of s' ?b. pl_total (lv ?b l))"
    proof (cases "s' = s")
      case True
      have "?f \<notin> set L" "?f \<notin> set R" using nf [of _ s] ls(1) by auto
      then show ?thesis
        using dep True ls(1) by (simp add: book_depth_def old f0)
    next
      case False
      then have "s' = (\<not> s)" by simp
      moreover have "?f \<notin> set (levels_of (\<not> s) b)" using nf by blast
      ultimately show ?thesis
        using dep by (simp add: book_depth_def old)
    qed
  qed
  moreover have "book_index st ?b"
    using ind fresh
    by (auto simp: book_index_def mem lv_with_new_level pr) (metis (no_types, lifting))+
  ultimately show ?thesis
    using book_shape_with_new_level [OF shape none ls] by (simp add: book_ok_def)
qed

lemma split_by_price:
  fixes s :: bool
  assumes shape: "book_shape b" and none: "\<And>l. l \<in> set (levels_of s b) \<Longrightarrow> lprice b l \<noteq> p"
  defines "k \<equiv> length (takeWhile (\<lambda>l. before s (lprice b l) p) (levels_of s b))"
  shows "\<And>x. x \<in> set (take k (levels_of s b)) \<Longrightarrow> before s (lprice b x) p"
    and "\<And>x. x \<in> set (drop k (levels_of s b)) \<Longrightarrow> before s p (lprice b x)"
proof -
  let ?ls = "levels_of s b"
  show "\<And>x. x \<in> set (take k ?ls) \<Longrightarrow> before s (lprice b x) p"
    by (simp add: k_def takeWhile_eq_take [symmetric]) (blast dest: set_takeWhileD)
  fix x assume "x \<in> set (drop k ?ls)"
  then have "lprice b x \<in> set (drop k (map (lprice b) ?ls))"
    by (simp add: drop_map)
  moreover have "k = length (takeWhile (\<lambda>q. before s q p) (map (lprice b) ?ls))"
    by (simp add: k_def takeWhile_map comp_def)
  moreover have "p \<notin> set (map (lprice b) ?ls)" using none by auto
  ultimately show "before s p (lprice b x)"
    using price_order.after_partition_point [OF price_order_before book_shapeD(4) [OF shape]]
    by blast
qed

text \<open>
  The summary: the level of price \<open>p\<close> stands on side \<open>s\<close>, the better prices before it and
  the worse ones after it; it is an old level and the book is unchanged, or a new empty one.
\<close>

lemma get_level_ok:
  assumes ok: "book_ok st b" and opp: "\<And>l. l \<in> set (levels_of (\<not> s) b) \<Longrightarrow> lprice b l \<noteq> p"
  obtains l b' L R where "get_level p s b = Inr (l, b')" "book_ok st b'"
    "levels_of s b' = L @ l # R" "levels_of (\<not> s) b' = levels_of (\<not> s) b" "lprice b' l = p"
    "b' = b \<or> levels_of s b = L @ R \<and> ob_p2l b p = None \<and> l = ob_fresh b \<and>
       b' = with_new_level p s (L @ ob_fresh b # R) b"
proof -
  have shape: "book_shape b" using ok by (simp add: book_ok_def)
  show thesis
  proof (cases "ob_p2l b p")
    case (Some l)
    then have "l \<in> set (all_levels b)" "lprice b l = p"
      using book_shapeD(5) [OF shape] by blast+
    then have "l \<in> set (levels_of s b)"
      using opp by (auto simp: set_all_levels [of b s])
    then obtain L R where "levels_of s b = L @ l # R" by (meson split_list)
    then show thesis
      using that [of l b L R] Some ok \<open>lprice b l = p\<close>
      by (simp add: get_level_def find_level_def)
  next
    case None
    then have no: "lprice b l \<noteq> p" if "l \<in> set (levels_of s b)" for l
      using that in_all_levels book_shapeD(5) [OF shape, of p l] by fastforce
    let ?k = "length (takeWhile (\<lambda>l. before s (lprice b l) p) (levels_of s b))"
    let ?L = "take ?k (levels_of s b)" and ?R = "drop ?k (levels_of s b)"
    note sp = split_by_price [OF shape no]
    have pr: "lprice (with_new_level p s (?L @ ob_fresh b # ?R) b) (ob_fresh b) = p"
      by (simp add: lprice_def lv_with_new_level) (simp add: new_level_def)
    show thesis
      using that [of "ob_fresh b" "with_new_level p s (?L @ ob_fresh b # ?R) b" ?L ?R]
        book_ok_with_new_level [OF ok None _ sp] get_level_new [OF shape None, of s] pr None
      by (simp del: with_new_level_keeps(8))
  qed
qed

end
