(* ===== verification/Order_Book_Ops.thy ===== *)
theory Order_Book_Ops
  imports Order_Book_Inv
begin

text \<open>
  Adding and cancelling keep the book's invariant, never fault, and implement the abstract
  book: one list per side, sorted by price and then by arrival.
\<close>

subsection \<open>The abstract book\<close>

text \<open>An entry of a side: its price, its order and the quantity that remains.\<close>

type_synonym side_entry = "(i64 \<times> addr) \<times> u32"

definition entry_price :: "side_entry \<Rightarrow> i64" where
  "entry_price x = fst (fst x)"

definition entry_order :: "side_entry \<Rightarrow> addr" where
  "entry_order x = snd (fst x)"

definition block :: "store \<Rightarrow> order_book \<Rightarrow> laddr \<Rightarrow> side_entry list" where
  "block st b l = map (\<lambda>(a, q). ((lprice b l, a), q)) (level_abs st (lv b l))"

definition side_book :: "store \<Rightarrow> order_book \<Rightarrow> bool \<Rightarrow> side_entry list" where
  "side_book st b s = concat (map (block st b) (levels_of s b))"

text \<open>Price priority, then time priority: a new entry goes after the entries at least as good.\<close>

definition insert_priority :: "bool \<Rightarrow> side_entry \<Rightarrow> side_entry list \<Rightarrow> side_entry list" where
  "insert_priority s x xs =
     filter (\<lambda>y. \<not> before s (entry_price x) (entry_price y)) xs @ x #
     filter (\<lambda>y. before s (entry_price x) (entry_price y)) xs"

lemma block_price: "y \<in> set (block st b l) \<Longrightarrow> entry_price y = lprice b l"
  by (auto simp: block_def entry_price_def)

lemma filter_blocks:
  "(\<And>l. l \<in> set ls \<Longrightarrow> P (lprice b l)) \<Longrightarrow>
     filter (\<lambda>y. P (entry_price y)) (concat (map (block st b) ls)) = concat (map (block st b) ls)"
  "(\<And>l. l \<in> set ls \<Longrightarrow> \<not> P (lprice b l)) \<Longrightarrow>
     filter (\<lambda>y. P (entry_price y)) (concat (map (block st b) ls)) = []"
proof -
  show "filter (\<lambda>y. P (entry_price y)) (concat (map (block st b) ls)) = concat (map (block st b) ls)"
    if "\<And>l. l \<in> set ls \<Longrightarrow> P (lprice b l)"
    using that by (intro filter_True) (auto simp: block_price)
  show "filter (\<lambda>y. P (entry_price y)) (concat (map (block st b) ls)) = []"
    if "\<And>l. l \<in> set ls \<Longrightarrow> \<not> P (lprice b l)"
    using that by (intro filter_False) (auto simp: block_price)
qed

text \<open>The abstract side is sorted: no entry stands behind a worse price.\<close>

lemma side_book_sorted:
  assumes "book_shape b"
  shows "sorted_wrt (\<lambda>x y. \<not> before s (entry_price y) (entry_price x)) (side_book st b s)"
proof -
  have "sorted_wrt (\<lambda>x y. \<not> before s (entry_price y) (entry_price x))
      (concat (map (block st b) ls))" if "sorted_wrt (before s) (map (lprice b) ls)" for ls
    using that
  proof (induction ls)
    case (Cons l ls)
    have "sorted_wrt (\<lambda>x y. \<not> before s (entry_price y) (entry_price x)) (block st b l)"
      by (rule sorted_wrt_mono_rel [of _ "\<lambda>_ _. True"])
        (auto simp: block_price before_def sorted_wrt_iff_nth_less)
    with Cons show ?case
      by (auto simp: sorted_wrt_append block_price before_def split: if_splits)
  qed simp
  then show ?thesis
    using book_shapeD(4) [OF assms] by (simp add: side_book_def)
qed

lemma side_book_keeps [simp]:
  "side_book st (b\<lparr>ob_best_bid := x\<rparr>) s = side_book st b s"
  "side_book st (b\<lparr>ob_best_ask := x\<rparr>) s = side_book st b s"
  "side_book st (b\<lparr>ob_sequence := q\<rparr>) s = side_book st b s"
  "side_book st (b\<lparr>ob_index := i\<rparr>) s = side_book st b s"
  "side_book st (set_depth s' d b) s = side_book st b s"
  by (simp_all add: side_book_def block_def [abs_def])

lemma side_book_new [simp]: "side_book st (new_book name) s = []"
  by (simp add: side_book_def new_book_def levels_of_def)

lemma block_new_level [simp]: "level_abs st (new_level p) = []"
  by (simp add: level_abs_def live_queue_def)

lemma block_cong:
  "lv b' l = lv b l \<Longrightarrow> block st b' l = block st b l"
  by (simp add: block_def lprice_def)

lemma side_book_with_new_level:
  assumes "levels_of s b = L @ R" "book_shape b"
  shows "side_book st (with_new_level p s (L @ ob_fresh b # R) b) s' = side_book st b s'"
proof -
  let ?b = "with_new_level p s (L @ ob_fresh b # R) b"
  have "block st ?b l = block st b l" if "l \<in> set (all_levels b)" for l
    using that book_shapeD(3) [OF assms(2)] by (intro block_cong) (auto simp: lv_with_new_level)
  then have old: "map (block st ?b) xs = map (block st b) xs" if "set xs \<subseteq> set (all_levels b)" for xs
    using that by auto
  have new: "block st ?b (ob_fresh b) = []" by (simp add: block_def lv_with_new_level)
  have sub: "set L \<subseteq> set (all_levels b)" "set R \<subseteq> set (all_levels b)"
    "set (levels_of (\<not> s) b) \<subseteq> set (all_levels b)"
    using assms(1) by (auto simp: set_all_levels [of b s])
  show ?thesis
    using assms(1) by (cases "s' = s") (auto simp: side_book_def old [OF sub(1)] old [OF sub(2)]
        old [OF sub(3)] new)
qed

subsection \<open>Changing one level\<close>

lemma book_shape_set_level:
  assumes "book_shape b" "l \<in> set (all_levels b)" "pl_price pl = lprice b l"
  shows "book_shape (set_level l pl b)"
  using assms by (auto simp: book_shape_def lprice_set_level insert_absorb)

lemma book_shape_keeps [simp]:
  "book_shape (set_depth s d b) = book_shape b"
  "book_shape (b\<lparr>ob_index := i\<rparr>) = book_shape b"
  by (simp_all add: book_shape_def)

lemma total_set_level:
  assumes "distinct (levels_of s b)"
  shows "(\<Sum>x\<leftarrow>levels_of s b. pl_total (lv (set_level l pl b) x))
    = (\<Sum>x\<leftarrow>levels_of s b. pl_total (lv b x))
      + (if l \<in> set (levels_of s b) then pl_total pl - pl_total (lv b l) else 0)"
proof (cases "l \<in> set (levels_of s b)")
  case True
  then show ?thesis
    using assms sum_list_map_upd_one [of "levels_of s b" l "\<lambda>x. pl_total (lv (set_level l pl b) x)"
        "\<lambda>x. pl_total (lv b x)"]
    by (simp add: lv_set_level)
next
  case False
  then show ?thesis
    by (auto simp: lv_set_level intro!: sum_list_map_cong)
qed

lemma book_depth_set_level:
  assumes shape: "book_shape b" and dep: "book_depth b" and l: "l \<in> set (levels_of s b)"
    and d: "d = depth_of s b + (pl_total pl - pl_total (lv b l))"
  shows "book_depth (set_depth s d (set_level l pl b))"
  unfolding book_depth_def
proof
  fix s'
  have dist: "distinct (levels_of s'' b)" for s''
    using book_shapeD(1) [OF shape] by (simp add: distinct_all_levels [of b s''])
  have "l \<notin> set (levels_of (\<not> s) b)"
    using book_shapeD(1) [OF shape] l by (auto simp: distinct_all_levels [of b s])
  then show "depth_of s' (set_depth s d (set_level l pl b))
      = (\<Sum>x\<leftarrow>levels_of s' (set_depth s d (set_level l pl b)).
           pl_total (lv (set_depth s d (set_level l pl b)) x))"
    using dep total_set_level [OF dist, of l pl] l d
    by (cases "s' = s") (auto simp: book_depth_def)
qed

subsection \<open>Putting an order into its level\<close>

text \<open>
  An order that the book does not know: it waits in no level, and neither its address nor
  its id is indexed.  A price has room while its ring holds fewer than 127 orders.
\<close>

definition fresh_order :: "store \<Rightarrow> order_book \<Rightarrow> addr \<Rightarrow> bool" where
  "fresh_order st b a \<longleftrightarrow>
     (\<forall>l \<in> set (all_levels b). a \<notin> set (entries (lv b l))) \<and>
     ob_index b (o_order_id (st a)) = None \<and>
     (\<forall>i loc. ob_index b i = Some loc \<longrightarrow> loc_order loc \<noteq> a)"

definition has_room :: "order_book \<Rightarrow> i64 \<Rightarrow> bool" where
  "has_room b p \<longleftrightarrow> (case ob_p2l b p of None \<Rightarrow> True | Some l \<Rightarrow> ring_len (lv b l) < 127)"

definition put_order :: "bool \<Rightarrow> laddr \<Rightarrow> addr \<Rightarrow> store \<Rightarrow> order_book \<Rightarrow> order_book" where
  "put_order s l a st b =
     set_depth s (depth_of s b + o_remaining (st a))
       (index_order st a (set_level l (level_add_order st (Some a) (lv b l)) b))"

lemma index_order_keeps [simp]:
  "levels_of s (index_order st a b) = levels_of s b" "depth_of s (index_order st a b) = depth_of s b"
  "lv (index_order st a b) = lv b" "lprice (index_order st a b) = lprice b"
  "all_levels (index_order st a b) = all_levels b"
  "book_shape (index_order st a b) = book_shape b"
  "ob_heap (index_order st a b) = ob_heap b" "ob_p2l (index_order st a b) = ob_p2l b"
  "side_book st' (index_order st a b) s = side_book st' b s"
  by (simp_all add: index_order_def)

lemma index_set_depth:
  "index_order st a (set_depth s d b) = set_depth s d (index_order st a b)"
  by (auto simp: index_order_def set_depth_def)

lemma book_depth_index [simp]: "book_depth (set_depth s d (index_order st a b))
    = book_depth (set_depth s d b)"
  by (simp add: book_depth_def index_order_def)
    (simp add: set_depth_def depth_of_def levels_of_def lv_def)

lemma put_order_lv:
  "lv (put_order s l a st b) l' = (if l' = l then level_add_order st (Some a) (lv b l) else lv b l')"
  by (simp add: put_order_def lv_set_level)

lemma put_order_fields [simp]:
  "levels_of s' (put_order s l a st b) = levels_of s' b"
  "all_levels (put_order s l a st b) = all_levels b"
  "ob_index (put_order s l a st b) = (ob_index b)(o_order_id (st a) \<mapsto>
     \<lparr>loc_price = o_price (st a), loc_is_bid = is_buy (st a), loc_order = a\<rparr>)"
  by (simp_all add: put_order_def index_order_def)

lemma level_add_order_price [simp]: "pl_price (level_add_order st p pl) = pl_price pl"
  by (simp add: level_add_order_def push_slot_def split: option.split)

lemma put_order_lprice [simp]: "lprice (put_order s l a st b) = lprice b"
  by (simp add: lprice_def put_order_lv fun_eq_iff)

lemma put_order_orders:
  assumes ord: "book_orders st b" and l: "l \<in> set (levels_of s b)"
    and sides: "l \<notin> set (levels_of (\<not> s) b)"
    and price: "lprice b l = o_price (st a)" and side: "is_buy (st a) = s"
    and alive: "live (st a)" and new: "a \<notin> set (entries (lv b l))" and room: "ring_len (lv b l) < 127"
  shows "book_orders st (put_order s l a st b)"
  unfolding book_orders_def
proof (intro allI ballI)
  fix s' l' assume l': "l' \<in> set (levels_of s' (put_order s l a st b))"
  have r: "o_remaining (st a) \<noteq> 0" using alive by (simp add: live_def)
  show "level_ok st (lv (put_order s l a st b) l') \<and>
      (\<forall>x\<in>set (entries (lv (put_order s l a st b) l')).
        o_price (st x) = lprice (put_order s l a st b) l' \<and> is_buy (st x) = s')"
  proof (cases "l' = l")
    case True
    then have "s' = s" using l' sides by (cases "s' = s") auto
    then show ?thesis
      using True book_ordersD [OF ord l] price side
        level_add_order_entries(1) [of st a "lv b l", OF r room]
        level_add_order_ok(1) [OF book_ordersD(1) [OF ord l] alive new room]
      by (auto simp: put_order_lv)
  next
    case False
    then show ?thesis
      using l' book_ordersD [OF ord, of l' s'] by (auto simp: put_order_lv)
  qed
qed

lemma put_order_index:
  assumes ind: "book_index st b" and l: "l \<in> set (all_levels b)"
    and price: "lprice b l = o_price (st a)"
    and alive: "live (st a)" and fresh: "fresh_order st b a" and room: "ring_len (lv b l) < 127"
  shows "book_index st (put_order s l a st b)"
proof -
  have r: "o_remaining (st a) \<noteq> 0" using alive by (simp add: live_def)
  note e = level_add_order_entries(1) [of st a "lv b l", OF r room]
  have mono: "set (entries (lv b l')) \<subseteq> set (entries (lv (put_order s l a st b) l'))" for l'
    by (auto simp: put_order_lv e)
  have a_in: "a \<in> set (entries (lv (put_order s l a st b) l))"
    by (simp add: put_order_lv e)
  have cases: "x \<in> set (entries (lv (put_order s l a st b) l')) \<Longrightarrow>
      x = a \<or> x \<in> set (entries (lv b l'))" for x l'
    by (auto simp: put_order_lv e split: if_splits)
  have old_id: "o_order_id (st x) \<noteq> o_order_id (st a)"
    if "live (st x)" "x \<in> set (entries (lv b l'))" "l' \<in> set (all_levels b)" for x l'
    using book_index_live [OF ind that(3,2,1)] fresh by (auto simp: fresh_order_def)
  show ?thesis
    unfolding book_index_def
  proof (intro conjI allI impI ballI)
    fix i loc assume "ob_index (put_order s l a st b) i = Some loc"
    then consider "i = o_order_id (st a)"
        "loc = \<lparr>loc_price = o_price (st a), loc_is_bid = is_buy (st a), loc_order = a\<rparr>"
      | "ob_index b i = Some loc"
      by (metis fun_upd_apply option.inject put_order_fields(3))
    note c = this
    from c show "o_order_id (st (loc_order loc)) = i"
      by cases (simp_all add: book_index_entry [OF ind])
    from c show "loc_price loc = o_price (st (loc_order loc))"
      by cases (simp_all add: book_index_entry [OF ind])
    from c show "loc_is_bid loc = is_buy (st (loc_order loc))"
      by cases (simp_all add: book_index_entry [OF ind])
    from c show "is_active (st (loc_order loc))"
      using alive by cases (simp_all add: book_index_entry(4) [OF ind] live_active)
    from c show "o_remaining (st (loc_order loc)) = 0 \<or>
        (\<exists>x \<in> set (all_levels (put_order s l a st b)). lprice (put_order s l a st b) x = loc_price loc \<and>
          loc_order loc \<in> set (entries (lv (put_order s l a st b) x)))"
    proof cases
      case 1
      then show ?thesis using l price a_in by auto
    next
      case 2
      then show ?thesis using book_index_entry(5) [OF ind 2] mono by fastforce
    qed
  next
    fix l' x assume "l' \<in> set (all_levels (put_order s l a st b))"
      "x \<in> set (entries (lv (put_order s l a st b) l'))" "live (st x)"
    then show "\<exists>loc. ob_index (put_order s l a st b) (o_order_id (st x)) = Some loc \<and> loc_order loc = x"
      using cases [of x l'] old_id [of x l'] book_index_live [OF ind, of l' x]
      by (cases "x = a") auto
  qed
qed

lemma put_order_ok:
  assumes ok: "book_ok st b" and l: "l \<in> set (levels_of s b)"
    and price: "lprice b l = o_price (st a)" and side: "is_buy (st a) = s"
    and alive: "live (st a)" and fresh: "fresh_order st b a" and room: "ring_len (lv b l) < 127"
  shows "book_ok st (put_order s l a st b)"
proof -
  have shape: "book_shape b" and ord: "book_orders st b" and dep: "book_depth b"
    and ind: "book_index st b"
    using ok by (simp_all add: book_ok_def)
  have la: "l \<in> set (all_levels b)" using l by (rule in_all_levels)
  have new: "a \<notin> set (entries (lv b l))" using fresh la by (simp add: fresh_order_def)
  have other: "l \<notin> set (levels_of (\<not> s) b)"
    using book_shapeD(1) [OF shape] l by (auto simp: distinct_all_levels [of b s])
  have r: "o_remaining (st a) \<noteq> 0" using alive by (simp add: live_def)
  have "book_shape (put_order s l a st b)"
    using book_shape_set_level [OF shape la, of "level_add_order st (Some a) (lv b l)"]
    by (simp add: put_order_def lprice_def)
  moreover have "book_depth (put_order s l a st b)"
    using book_depth_set_level [OF shape dep l, of "depth_of s b + o_remaining (st a)"
        "level_add_order st (Some a) (lv b l)"] r
    by (simp add: put_order_def) (simp add: level_add_order_def)
  ultimately show ?thesis
    using put_order_orders [OF ord l other price side alive new room]
      put_order_index [OF ind la price alive fresh room]
    by (simp add: book_ok_def)
qed

lemma put_order_side_book:
  assumes ok: "book_ok st b" and ls: "levels_of s b = L @ l # R"
    and price: "lprice b l = o_price (st a)"
    and alive: "live (st a)" and fresh: "fresh_order st b a" and room: "ring_len (lv b l) < 127"
  shows "side_book st (put_order s l a st b) s
      = insert_priority s ((o_price (st a), a), o_remaining (st a)) (side_book st b s)"
    and "side_book st (put_order s l a st b) (\<not> s) = side_book st b (\<not> s)"
proof -
  let ?b = "put_order s l a st b" and ?x = "((o_price (st a), a), o_remaining (st a))"
  have shape: "book_shape b" and ord: "book_orders st b"
    using ok by (simp_all add: book_ok_def)
  have l: "l \<in> set (levels_of s b)" by (simp add: ls)
  have new: "a \<notin> set (entries (lv b l))"
    using fresh in_all_levels [OF l] by (simp add: fresh_order_def)
  have dist: "distinct (levels_of s b)" and other: "l \<notin> set (levels_of (\<not> s) b)"
    using book_shapeD(1) [OF shape] l by (auto simp: distinct_all_levels [of b s])
  have same: "block st ?b x = block st b x" if "x \<noteq> l" for x
    using that by (intro block_cong) (simp add: put_order_lv)
  have maps: "map (block st ?b) xs = map (block st b) xs" if "l \<notin> set xs" for xs
    using that by (auto intro: same)
  have blk: "block st ?b l = block st b l @ [?x]"
    using level_add_order_ok(2) [OF book_ordersD(1) [OF ord l] alive new room] price
    by (simp add: block_def put_order_lv)
  have nl: "l \<notin> set L" "l \<notin> set R" using dist ls by auto
  have x: "entry_price ?x = lprice b l" by (simp add: price entry_price_def)
  have bL: "before s (lprice b y) (lprice b l)" if "y \<in> set L" for y
    using side_split(1) [OF shape ls that] .
  have bR: "before s (lprice b l) (lprice b y)" if "y \<in> set R" for y
    using side_split(2) [OF shape ls that] .
  have irr: "\<not> before s (lprice b l) (lprice b l)"
    "y \<in> set L \<Longrightarrow> \<not> before s (lprice b l) (lprice b y)" for y
    using bL [of y] by (auto simp: before_def split: if_splits)
  have "filter (\<lambda>y. \<not> before s (lprice b l) (entry_price y)) (side_book st b s)
      = concat (map (block st b) (L @ [l]))"
    using irr bR filter_blocks(1) [of "L @ [l]" "\<lambda>p. \<not> before s (lprice b l) p" b st]
      filter_blocks(2) [of R "\<lambda>p. \<not> before s (lprice b l) p" b st]
    by (auto simp: side_book_def ls)
  moreover have "filter (\<lambda>y. before s (lprice b l) (entry_price y)) (side_book st b s)
      = concat (map (block st b) R)"
    using irr bR filter_blocks(2) [of "L @ [l]" "\<lambda>p. before s (lprice b l) p" b st]
      filter_blocks(1) [of R "\<lambda>p. before s (lprice b l) p" b st]
    by (auto simp: side_book_def ls)
  ultimately show "side_book st ?b s = insert_priority s ?x (side_book st b s)"
    unfolding insert_priority_def x
    using nl by (simp add: side_book_def ls maps blk)
  show "side_book st ?b (\<not> s) = side_book st b (\<not> s)"
    using other by (simp add: side_book_def maps)
qed

subsection \<open>Adding an order\<close>

text \<open>Level lookup followed by insertion, for \<open>add_order\<close> and for resting.\<close>

lemma get_and_put:
  assumes ok: "book_ok st b" and side: "is_buy (st a) = s" and alive: "live (st a)"
    and fresh: "fresh_order st b a" and room: "has_room b (o_price (st a))"
    and opp: "\<And>l. l \<in> set (levels_of (\<not> s) b) \<Longrightarrow> lprice b l \<noteq> o_price (st a)"
  obtains l b' where "get_level (o_price (st a)) s b = Inr (l, b')" "deref b' l = Inr (lv b' l)"
    "book_ok st (put_order s l a st b')"
    "side_book st (put_order s l a st b') s
       = insert_priority s ((o_price (st a), a), o_remaining (st a)) (side_book st b s)"
    "side_book st (put_order s l a st b') (\<not> s) = side_book st b (\<not> s)"
    "ob_sequence b' = ob_sequence b" "levels_of (\<not> s) b' = levels_of (\<not> s) b"
    "\<And>x. x \<in> set (levels_of s b') \<Longrightarrow> lprice b' x = o_price (st a) \<or> lprice b' x \<in> lprice b ` set (levels_of s b)"
    "\<And>x. x \<in> set (levels_of (\<not> s) b) \<Longrightarrow> lprice b' x = lprice b x"
proof -
  have shape: "book_shape b" using ok by (simp add: book_ok_def)
  obtain l b' L R where g: "get_level (o_price (st a)) s b = Inr (l, b')" and ok': "book_ok st b'"
    and ls: "levels_of s b' = L @ l # R" "levels_of (\<not> s) b' = levels_of (\<not> s) b"
    and pr: "lprice b' l = o_price (st a)"
    and which: "b' = b \<or> levels_of s b = L @ R \<and> ob_p2l b (o_price (st a)) = None \<and> l = ob_fresh b \<and>
       b' = with_new_level (o_price (st a)) s (L @ ob_fresh b # R) b"
    using get_level_ok [where st = st and s = s and p = "o_price (st a)", OF ok opp] by blast
  have shape': "book_shape b'" using ok' by (simp add: book_ok_def)
  have l: "l \<in> set (levels_of s b')" using ls(1) by simp
  have fl: "ob_fresh b \<notin> set (all_levels b)" using book_shapeD(3) [OF shape] by blast
  have room': "ring_len (lv b' l) < 127"
    using which
  proof
    assume b: "b' = b"
    have "ob_p2l b (o_price (st a)) = Some l"
      using book_shapeD(5) [OF shape] in_all_levels [OF l] pr b by simp
    then show ?thesis using room b by (simp add: has_room_def)
  qed (simp add: lv_with_new_level)
  have fresh': "fresh_order st b' a"
    using which
  proof
    assume w: "levels_of s b = L @ R \<and> ob_p2l b (o_price (st a)) = None \<and> l = ob_fresh b \<and>
       b' = with_new_level (o_price (st a)) s (L @ ob_fresh b # R) b"
    then have "set (all_levels b') = insert (ob_fresh b) (set (all_levels b))"
      by (auto simp: set_all_levels [of _ s])
    then show ?thesis
      using fresh w by (auto simp: fresh_order_def lv_with_new_level)
  qed (use fresh in simp)
  have sb: "side_book st b' s' = side_book st b s'" for s'
    using which side_book_with_new_level [OF _ shape, of s L R] by blast
  have seq: "ob_sequence b' = ob_sequence b" using which by auto
  have d: "deref b' l = Inr (lv b' l)"
    by (rule deref_level [OF shape' in_all_levels [OF l]])
  note new = side_book_with_new_level
  show thesis
  proof (rule that [OF g d put_order_ok [OF ok' l pr side alive fresh' room'] _ _ seq ls(2)])
    show "side_book st (put_order s l a st b') s
        = insert_priority s ((o_price (st a), a), o_remaining (st a)) (side_book st b s)"
      "side_book st (put_order s l a st b') (\<not> s) = side_book st b (\<not> s)"
      using put_order_side_book [OF ok' ls(1) pr alive fresh' room'] by (simp_all add: sb)
    show "lprice b' x = o_price (st a) \<or> lprice b' x \<in> lprice b ` set (levels_of s b)"
      if "x \<in> set (levels_of s b')" for x
      using which that pr by (auto simp: lprice_def lv_with_new_level)
    show "lprice b' x = lprice b x" if "x \<in> set (levels_of (\<not> s) b)" for x
      using which fl in_all_levels [OF that] by (auto simp: lprice_def lv_with_new_level)
  qed
qed

lemma update_best_ok:
  assumes "book_ok st b"
  obtains b' where "update_best_prices b = Inr b'" "book_ok st b'" "best_ok b'"
    "side_book st b' = side_book st b" "ob_sequence b' = ob_sequence b"
    "levels_of s b' = levels_of s b" "lprice b' = lprice b"
proof -
  have shape: "book_shape b" using assms by (simp add: book_ok_def)
  show thesis
    by (rule that [OF update_best_prices_ok [OF shape]])
      (use assms in \<open>auto simp: best_ok_def first_price_def fun_eq_iff split: list.split\<close>)
qed

lemma bump_sequence_keeps [simp]:
  "book_ok st (bump_sequence b) = book_ok st b" "best_ok (bump_sequence b) = best_ok b"
  "side_book st (bump_sequence b) s = side_book st b s"
  "ob_sequence (bump_sequence b) = ob_sequence b + 1"
  "levels_of s (bump_sequence b) = levels_of s b" "lprice (bump_sequence b) = lprice b"
  by (simp_all add: bump_sequence_def best_ok_def first_price_def split: list.split)

lemma add_order_put:
  assumes "get_level (o_price (st a)) (is_buy (st a)) b = Inr (l, b')" "deref b' l = Inr (lv b' l)"
  shows "add_order st (Some a) b = res_bind (update_best_prices (put_order (is_buy (st a)) l a st b'))
           (\<lambda>b5. Inr (True, bump_sequence b5))"
  using assms by (simp add: add_order_def Let_def put_order_def)

lemma add_order_ok:
  assumes "book_ok st b" "live (st a)" "fresh_order st b a" "has_room b (o_price (st a))"
    and "\<And>l. l \<in> set (levels_of (\<not> is_buy (st a)) b) \<Longrightarrow> lprice b l \<noteq> o_price (st a)"
  obtains b' where "add_order st (Some a) b = Inr (True, b')" "book_ok st b'" "best_ok b'"
    "ob_sequence b' = ob_sequence b + 1"
    "side_book st b' (is_buy (st a)) = insert_priority (is_buy (st a))
       ((o_price (st a), a), o_remaining (st a)) (side_book st b (is_buy (st a)))"
    "side_book st b' (\<not> is_buy (st a)) = side_book st b (\<not> is_buy (st a))"
proof -
  let ?s = "is_buy (st a)"
  show thesis
  proof (rule get_and_put [OF assms(1) refl assms(2-5)], assumption)
    fix l b1
    assume g: "get_level (o_price (st a)) ?s b = Inr (l, b1)" "deref b1 l = Inr (lv b1 l)"
      "book_ok st (put_order ?s l a st b1)"
      and sb: "side_book st (put_order ?s l a st b1) ?s
         = insert_priority ?s ((o_price (st a), a), o_remaining (st a)) (side_book st b ?s)"
      "side_book st (put_order ?s l a st b1) (\<not> ?s) = side_book st b (\<not> ?s)"
      and seq: "ob_sequence b1 = ob_sequence b"
    obtain b2 where u: "update_best_prices (put_order ?s l a st b1) = Inr b2" "book_ok st b2"
      "best_ok b2" "side_book st b2 = side_book st (put_order ?s l a st b1)"
      "ob_sequence b2 = ob_sequence (put_order ?s l a st b1)"
      using update_best_ok [OF g(3)] by metis
    show thesis
      by (rule that [of "bump_sequence b2"])
        (use u sb seq in \<open>simp_all add: add_order_put [where st = st and a = a, OF g(1,2)]
           put_order_def index_order_def\<close>)
  qed
qed

subsection \<open>Deleting an empty level\<close>

definition drop_level :: "bool \<Rightarrow> laddr \<Rightarrow> order_book \<Rightarrow> order_book" where
  "drop_level s l b = delete_level l
     (set_levels s (remove1 l (levels_of s b)) (b\<lparr>ob_p2l := (ob_p2l b)(lprice b l := None)\<rparr>))"

lemma drop_level_fields [simp]:
  "levels_of s (drop_level s l b) = remove1 l (levels_of s b)"
  "levels_of (\<not> s) (drop_level s l b) = levels_of (\<not> s) b"
  "depth_of s' (drop_level s l b) = depth_of s' b"
  "ob_index (drop_level s l b) = ob_index b" "ob_sequence (drop_level s l b) = ob_sequence b"
  "ob_heap (drop_level s l b) = (ob_heap b)(l := None)"
  "ob_p2l (drop_level s l b) = (ob_p2l b)(lprice b l := None)"
  "ob_fresh (drop_level s l b) = ob_fresh b"
  by (simp_all add: drop_level_def delete_level_def)

lemma drop_level_lv: "l' \<noteq> l \<Longrightarrow> lv (drop_level s l b) l' = lv b l'"
  by (simp add: lv_def)

lemma drop_level_lprice: "l' \<noteq> l \<Longrightarrow> lprice (drop_level s l b) l' = lprice b l'"
  by (simp add: lprice_def drop_level_lv)

lemma set_drop_level:
  assumes "book_shape b" "l \<in> set (levels_of s b)"
  shows "set (all_levels (drop_level s l b)) = set (all_levels b) - {l}"
    and "set (levels_of s' (drop_level s l b)) = set (levels_of s' b) - {l}"
proof -
  have d: "distinct (levels_of s b)" "l \<notin> set (levels_of (\<not> s) b)"
    using book_shapeD(1) [OF assms(1)] assms(2) by (auto simp: distinct_all_levels [of b s])
  then show "set (all_levels (drop_level s l b)) = set (all_levels b) - {l}"
    by (auto simp: set_all_levels [of _ s])
  show "set (levels_of s' (drop_level s l b)) = set (levels_of s' b) - {l}"
    using d by (cases "s' = s") auto
qed

lemma book_shape_drop_level:
  assumes shape: "book_shape b" and l: "l \<in> set (levels_of s b)"
  shows "book_shape (drop_level s l b)"
proof -
  let ?b = "drop_level s l b"
  note sets = set_drop_level [OF shape l]
  have pr: "map (lprice ?b) xs = map (lprice b) xs" if "l \<notin> set xs" for xs
    using that by (intro map_cong refl drop_level_lprice) auto
  have d: "distinct (levels_of s'' b)" for s''
    using book_shapeD(1) [OF shape] by (simp add: distinct_all_levels [of b s''])
  have "sorted_wrt (before s') (map (lprice ?b) (levels_of s' ?b))" for s'
  proof (cases "s' = s")
    case True
    have "sorted_wrt (\<lambda>x y. before s (lprice b x) (lprice b y)) (remove1 l (levels_of s b))"
      unfolding distinct_remove1_removeAll [OF d] removeAll_filter_not_eq
      using book_shapeD(4) [OF shape, of s] by (intro sorted_wrt_filter) (simp add: sorted_wrt_map)
    then show ?thesis
      using True d [of s] by (simp add: pr sorted_wrt_map [symmetric])
  next
    case False
    then have "s' = (\<not> s)" by simp
    moreover have "l \<notin> set (levels_of (\<not> s) b)"
      using book_shapeD(1) [OF shape] l by (auto simp: distinct_all_levels [of b s])
    ultimately show ?thesis
      using book_shapeD(4) [OF shape, of "\<not> s"] by (simp add: pr)
  qed
  moreover have "distinct (all_levels ?b)"
    using book_shapeD(1) [OF shape] by (auto simp: distinct_all_levels [of _ s] dest: notin_set_remove1)
  moreover have "ob_p2l ?b p = Some x \<longleftrightarrow> x \<in> set (all_levels ?b) \<and> lprice ?b x = p" for p x
    using book_shapeD(5) [OF shape] level_price_inj [OF shape _ in_all_levels [OF l], of x]
    by (cases "x = l") (auto simp: sets drop_level_lprice)
  ultimately show ?thesis
    using book_shapeD(2,3) [OF shape]
    unfolding book_shape_def by (auto simp: sets)
qed

end
