(* ===== verification/Order_Book_Cancel.thy ===== *)
theory Order_Book_Cancel
  imports Order_Book_Ops
begin

text \<open>
  Cancelling: dropping a level that became empty, and the proof that \<open>cancel_order\<close> removes
  exactly the cancelled order from the abstract book.
\<close>

text \<open>No operation leaves a level without a slot behind.\<close>

definition nonempty_levels :: "order_book \<Rightarrow> bool" where
  "nonempty_levels b \<longleftrightarrow> (\<forall>l \<in> set (all_levels b). entries (lv b l) \<noteq> [])"

definition book_inv :: "store \<Rightarrow> order_book \<Rightarrow> bool" where
  "book_inv st b \<longleftrightarrow> book_ok st b \<and> best_ok b \<and> nonempty_levels b"

lemma book_inv_new: "book_inv st (new_book name)"
  using book_ok_new best_ok_new
  by (auto simp: book_inv_def nonempty_levels_def new_book_def all_levels_def)

lemma nonempty_levels_keeps [simp]:
  "nonempty_levels (b\<lparr>ob_best_bid := x\<rparr>) = nonempty_levels b"
  "nonempty_levels (b\<lparr>ob_best_ask := x\<rparr>) = nonempty_levels b"
  "nonempty_levels (b\<lparr>ob_sequence := q\<rparr>) = nonempty_levels b"
  "nonempty_levels (b\<lparr>ob_index := i\<rparr>) = nonempty_levels b"
  "nonempty_levels (set_depth s d b) = nonempty_levels b"
  "nonempty_levels (bump_sequence b) = nonempty_levels b"
  by (simp_all add: nonempty_levels_def bump_sequence_def)

lemma remove1_level_totals:
  fixes f :: "laddr \<Rightarrow> u32"
  assumes "distinct xs" "f l = 0"
  shows "sum_list (map f (remove1 l xs)) = sum_list (map f xs)"
  using assms by (induction xs) auto

text \<open>The index speaks of the levels only through the orders that wait at a price.\<close>

definition waits :: "order_book \<Rightarrow> i64 \<Rightarrow> addr \<Rightarrow> bool" where
  "waits b p a \<longleftrightarrow> (\<exists>l \<in> set (all_levels b). lprice b l = p \<and> a \<in> set (entries (lv b l)))"

lemma book_index_waits:
  "book_index st b \<longleftrightarrow>
     (\<forall>i loc. ob_index b i = Some loc \<longrightarrow>
        o_order_id (st (loc_order loc)) = i \<and> loc_price loc = o_price (st (loc_order loc)) \<and>
        loc_is_bid loc = is_buy (st (loc_order loc)) \<and> is_active (st (loc_order loc)) \<and>
        (o_remaining (st (loc_order loc)) = 0 \<or> waits b (loc_price loc) (loc_order loc))) \<and>
     (\<forall>p a. waits b p a \<longrightarrow> live (st a) \<longrightarrow>
        (\<exists>loc. ob_index b (o_order_id (st a)) = Some loc \<and> loc_order loc = a))"
  unfolding book_index_def waits_def by blast

lemma book_index_waiting:
  "book_index st b \<Longrightarrow> waits b p a \<Longrightarrow> live (st a) \<Longrightarrow>
    \<exists>loc. ob_index b (o_order_id (st a)) = Some loc \<and> loc_order loc = a"
  unfolding book_index_waits by simp

lemma book_index_loc:
  "book_index st b \<Longrightarrow> ob_index b i = Some loc \<Longrightarrow>
    o_remaining (st (loc_order loc)) = 0 \<or> waits b (loc_price loc) (loc_order loc)"
  by (drule book_index_entry(5)) (auto simp: waits_def)

lemma book_index_transfer:
  assumes "book_index st b" "\<And>p a. waits b' p a = waits b p a" "ob_index b' = ob_index b"
  shows "book_index st b'"
  using assms(1) unfolding book_index_waits assms(2,3) .

lemma book_ok_drop_level:
  assumes ok: "book_ok st b" and l: "l \<in> set (levels_of s b)" and emp: "entries (lv b l) = []"
  shows "book_ok st (drop_level s l b)"
proof -
  let ?b = "drop_level s l b"
  have shape: "book_shape b" and ord: "book_orders st b" and dep: "book_depth b"
    and ind: "book_index st b"
    using ok by (simp_all add: book_ok_def)
  note sets = set_drop_level [OF shape l]
  have d: "distinct (levels_of s'' b)" for s''
    using book_shapeD(1) [OF shape] by (simp add: distinct_all_levels [of b s''])
  have zero: "pl_total (lv b l) = 0"
    using book_ordersD(1) [OF ord l] emp by (simp add: level_ok_def)
  have tot: "(\<Sum>x\<leftarrow>xs. pl_total (lv ?b x)) = (\<Sum>x\<leftarrow>xs. pl_total (lv b x))" if "l \<notin> set xs" for xs
    using that by (intro sum_list_map_cong) (metis drop_level_lv)
  have "book_orders st ?b"
    using ord unfolding book_orders_def
    by (auto simp: sets drop_level_lv drop_level_lprice)
  moreover have "book_depth ?b"
    unfolding book_depth_def
  proof
    fix s'
    show "depth_of s' ?b = (\<Sum>x\<leftarrow>levels_of s' ?b. pl_total (lv ?b x))"
    proof (cases "s' = s")
      case True
      then show ?thesis
        using dep d [of s] zero by (simp add: tot remove1_level_totals book_depth_def)
    next
      case False
      then have "s' = (\<not> s)" by simp
      moreover have "l \<notin> set (levels_of (\<not> s) b)"
        using book_shapeD(1) [OF shape] l by (auto simp: distinct_all_levels [of b s])
      ultimately show ?thesis
        using dep by (simp add: tot book_depth_def)
    qed
  qed
  moreover have "book_index st ?b"
  proof (rule book_index_transfer [OF ind])
    show "waits ?b p a = waits b p a" for p a
      using emp l [THEN in_all_levels] by (fastforce simp: waits_def sets drop_level_lv drop_level_lprice)
  qed simp
  ultimately show ?thesis
    using book_shape_drop_level [OF shape l] by (simp add: book_ok_def)
qed

lemma side_book_drop_level:
  assumes shape: "book_shape b" and l: "l \<in> set (levels_of s b)" and emp: "entries (lv b l) = []"
  shows "side_book st (drop_level s l b) s' = side_book st b s'"
proof -
  let ?b = "drop_level s l b"
  have d: "distinct (levels_of s b)" "l \<notin> set (levels_of (\<not> s) b)"
    using book_shapeD(1) [OF shape] l by (auto simp: distinct_all_levels [of b s])
  have blk: "map (block st ?b) xs = map (block st b) xs" if "l \<notin> set xs" for xs
    using that by (intro map_cong refl block_cong) (metis drop_level_lv)
  have none: "block st b l = []"
    using emp by (simp add: block_def level_abs_def live_queue_def)
  have rem: "concat (map (block st b) (remove1 l xs)) = concat (map (block st b) xs)" for xs
    using none by (induction xs) auto
  show ?thesis
    using d by (cases "s' = s") (auto simp: side_book_def blk rem)
qed

text \<open>The prices that stand on a side.\<close>

definition level_prices :: "order_book \<Rightarrow> bool \<Rightarrow> i64 set" where
  "level_prices b s = lprice b ` set (levels_of s b)"

lemma level_prices_drop:
  "book_shape b \<Longrightarrow> l \<in> set (levels_of t b) \<Longrightarrow> level_prices (drop_level t l b) s \<subseteq> level_prices b s"
  using set_drop_level(2) [of b l t s] drop_level_lprice [of _ l t b]
  by (fastforce simp: level_prices_def)

lemma level_prices_keeps [simp]:
  "level_prices (b\<lparr>ob_best_bid := x\<rparr>) = level_prices b"
  "level_prices (b\<lparr>ob_best_ask := x\<rparr>) = level_prices b"
  "level_prices (bump_sequence b) = level_prices b"
  "level_prices (b\<lparr>ob_index := i\<rparr>) = level_prices b"
  by (simp_all add: level_prices_def fun_eq_iff)

subsection \<open>Cancelling an order\<close>

lemma waits_price:
  assumes "book_orders st b" "waits b p a"
  shows "o_price (st a) = p"
proof -
  obtain l s where "l \<in> set (levels_of s b)" "lprice b l = p" "a \<in> set (entries (lv b l))"
    using assms(2) all_levels_side by (metis waits_def)
  then show ?thesis using book_ordersD(2) [OF assms(1)] by blast
qed

lemma waits_level:
  assumes "book_shape b" "book_orders st b" "l \<in> set (all_levels b)" "l' \<in> set (all_levels b)"
    and "lprice b l = o_price (st a)" "a \<in> set (entries (lv b l'))"
  shows "l' = l"
  using assms waits_price [of st b "lprice b l'" a] level_price_inj
  by (metis waits_def)

text \<open>
  The book after the lazy removal of one order from its level \<open>l\<close>, before the level is
  dropped when it became empty.
\<close>

definition without_order :: "addr \<Rightarrow> laddr \<Rightarrow> price_level \<Rightarrow> store \<Rightarrow> order_book \<Rightarrow> order_book" where
  "without_order a l pl st b =
     (set_depth (is_buy (st a)) (depth_of (is_buy (st a)) b - o_remaining (st a)) (set_level l pl b))
       \<lparr>ob_index := (ob_index b)(o_order_id (st a) := None)\<rparr>"

lemma without_order_simps [simp]:
  "levels_of s (without_order a l pl st b) = levels_of s b"
  "all_levels (without_order a l pl st b) = all_levels b"
  "lv (without_order a l pl st b) l' = (if l' = l then pl else lv b l')"
  "ob_index (without_order a l pl st b) = (ob_index b)(o_order_id (st a) := None)"
  "ob_sequence (without_order a l pl st b) = ob_sequence b"
  "ob_heap (without_order a l pl st b) = (ob_heap b)(l \<mapsto> pl)"
  "ob_p2l (without_order a l pl st b) = ob_p2l b"
  by (simp_all add: without_order_def lv_set_level)

lemma without_order_lprice:
  "pl_price pl = lprice b l \<Longrightarrow> lprice (without_order a l pl st b) = lprice b"
  by (simp add: lprice_def fun_eq_iff)

lemma without_order_ok:
  assumes ok: "book_ok st b" and loc: "ob_index b (o_order_id (st a)) = Some loc" "loc_order loc = a"
    and l: "l \<in> set (all_levels b)" "lprice b l = o_price (st a)"
    and pl: "remove_order st (Some a) (lv b l) = (upd a cancel st, pl)"
  shows "book_ok (upd a cancel st) (without_order a l pl st b)"
    and "side_book (upd a cancel st) (without_order a l pl st b) s
      = filter (\<lambda>x. entry_order x \<noteq> a) (side_book st b s)"
    and "a \<notin> set (entries (lv b l)) \<Longrightarrow> entries pl = entries (lv b l)"
    and "pl_price pl = lprice b l" and "level_ok (upd a cancel st) pl"
proof -
  let ?st = "upd a cancel st" and ?b = "without_order a l pl st b"
  have shape: "book_shape b" and ord: "book_orders st b" and dep: "book_depth b"
    and ind: "book_index st b"
    using ok by (simp_all add: book_ok_def)
  note here = waits_level [OF shape ord l(1) _ l(2)]
  have act: "is_active (st a)" using book_index_entry(4) [OF ind loc(1)] loc(2) by simp
  have mem: "a \<in> set (entries (lv b l)) \<or> o_remaining (st a) = 0"
    using book_index_entry(5) [OF ind loc(1)] loc(2) here by blast
  obtain sl where sl: "l \<in> set (levels_of sl b)" using l(1) by (rule all_levels_side)
  have lok: "level_ok st (lv b l)" using book_ordersD(1) [OF ord sl] .
  have R: "level_ok ?st pl" "pl_price pl = lprice b l" "set (entries pl) \<subseteq> set (entries (lv b l))"
    "level_abs ?st pl = filter (\<lambda>(x, q). x \<noteq> a) (level_abs st (lv b l))"
    "a \<notin> set (entries (lv b l)) \<Longrightarrow> entries pl = entries (lv b l)"
    "pl_total pl = pl_total (lv b l) - o_remaining (st a)"
    using remove_order_ok [OF lok act mem] pl by (metis Pair_inject lprice_def)+
  show "pl_price pl = lprice b l" "level_ok ?st pl"
    "a \<notin> set (entries (lv b l)) \<Longrightarrow> entries pl = entries (lv b l)"
    using R by blast+
  have pr: "lprice ?b = lprice b" by (rule without_order_lprice [OF R(2)])
  have out: "a \<notin> set (entries (lv b x))" if "x \<in> set (all_levels b)" "x \<noteq> l" for x
    using here that by blast
  have fr: "?st y = st y" if "y \<in> set (entries (lv b x))" "x \<in> set (all_levels b)" "x \<noteq> l" for x y
    using out [OF that(2,3)] that(1) by (auto simp: upd_def)
  have same: "o_price (?st y) = o_price (st y)" "is_buy (?st y) = is_buy (st y)"
    "o_order_id (?st y) = o_order_id (st y)" "o_remaining (?st y) = o_remaining (st y)" for y
    by (simp_all add: upd_apply is_buy_def)
  have "book_shape ?b"
    using book_shape_set_level [OF shape l(1) R(2)] by (simp add: without_order_def)
  moreover have "book_orders ?st ?b"
    unfolding book_orders_def
  proof (intro allI ballI)
    fix s x assume x: "x \<in> set (levels_of s ?b)"
    then have xa: "x \<in> set (all_levels b)" by (simp add: in_all_levels)
    show "level_ok ?st (lv ?b x) \<and>
        (\<forall>y\<in>set (entries (lv ?b x)). o_price (?st y) = lprice ?b x \<and> is_buy (?st y) = s)"
      using x R(1,3) book_ordersD [OF ord, of x s] level_frame(1) [of "lv b x" ?st st] fr [OF _ xa]
      by (auto simp: pr same subset_iff)
  qed
  moreover have "book_depth ?b"
  proof (cases "o_remaining (st a) = 0")
    case True
    have "set_depth s (depth_of s b) (set_level l pl b) = set_level l pl b" for s
      by (simp add: set_depth_def depth_of_def set_level_def)
    moreover have "depth_of sl b + (pl_total pl - pl_total (lv b l)) = depth_of sl b"
      using R(6) True by simp
    ultimately show ?thesis
      using book_depth_set_level [OF shape dep sl refl, of pl] True
      by (simp add: without_order_def book_depth_def)
  next
    case False
    then have "is_buy (st a) = sl" using mem book_ordersD(3) [OF ord sl] by blast
    then show ?thesis
      using book_depth_set_level [OF shape dep sl refl, of pl] R(6)
      by (simp add: without_order_def book_depth_def)
  qed
  moreover have "book_index ?st ?b"
  proof -
    have live_kept: "y \<in> set (entries pl)" if "y \<in> set (entries (lv b l))" "live (st y)" "y \<noteq> a" for y
    proof -
      have "y \<in> fst ` set (level_abs ?st pl)"
        using that live_in_queue [of st y "lv b l"] by (force simp: R(4))
      moreover have "live (?st y)" using that by simp
      ultimately show ?thesis using live_in_queue by blast
    qed
    have waits: "waits ?b p y \<Longrightarrow> waits b p y" for p y
      using R(3) by (auto simp: waits_def pr split: if_splits)
    have waits': "waits ?b p y" if "waits b p y" "live (st y)" "y \<noteq> a" for p y
      using that live_kept by (fastforce simp: waits_def pr)
    have uniq: "i = o_order_id (st a)" if "ob_index b i = Some loc'" "loc_order loc' = a" for i loc'
      using book_index_entry(1) [OF ind that(1)] that(2) by simp
    show ?thesis
      unfolding book_index_waits
    proof (intro conjI allI impI)
      fix i loc' assume "ob_index ?b i = Some loc'"
      then have i: "ob_index b i = Some loc'" "i \<noteq> o_order_id (st a)" by (auto split: if_splits)
      then have ne: "loc_order loc' \<noteq> a" using uniq by blast
      have wt: "o_remaining (st (loc_order loc')) = 0 \<or> waits b (loc_price loc') (loc_order loc')"
        by (rule book_index_loc [OF ind i(1)])
      show "o_order_id (?st (loc_order loc')) = i" "loc_price loc' = o_price (?st (loc_order loc'))"
        "loc_is_bid loc' = is_buy (?st (loc_order loc'))" "is_active (?st (loc_order loc'))"
        using book_index_entry [OF ind i(1)] ne by simp_all
      show "o_remaining (?st (loc_order loc')) = 0 \<or> waits ?b (loc_price loc') (loc_order loc')"
        using wt ne waits' [of "loc_price loc'" "loc_order loc'"]
          book_index_entry(4) [OF ind i(1)]
        by (auto simp: live_def)
    next
      fix p y assume y: "waits ?b p y" "live (?st y)"
      then have "y \<noteq> a" by auto
      with y have "live (st y)" by simp
      with waits [OF y(1)] obtain loc' where
        loc': "ob_index b (o_order_id (st y)) = Some loc'" "loc_order loc' = y"
        using book_index_waiting [OF ind] by blast
      then have "o_order_id (st y) \<noteq> o_order_id (st a)" using loc \<open>y \<noteq> a\<close> by (metis option.inject)
      with loc' \<open>y \<noteq> a\<close>
      show "\<exists>loc. ob_index ?b (o_order_id (?st y)) = Some loc \<and> loc_order loc = y"
        by simp
    qed
  qed
  ultimately show "book_ok ?st ?b" by (simp add: book_ok_def)
  have blk: "block ?st ?b x = filter (\<lambda>y. entry_order y \<noteq> a) (block st b x)"
    if "x \<in> set (all_levels b)" for x
  proof (cases "x = l")
    case True
    have f: "filter (\<lambda>(x, q). x \<noteq> a) xs = filter (\<lambda>x. fst x \<noteq> a) xs" for xs :: "(addr \<times> u32) list"
      by (rule filter_cong) auto
    show ?thesis
      unfolding True by (simp add: block_def pr R(4) f filter_map comp_def entry_order_def case_prod_beta)
  next
    case False
    then have "level_abs ?st (lv b x) = level_abs st (lv b x)"
      using level_frame(2) [of "lv b x" ?st st] fr [OF _ that] by blast
    moreover have "filter (\<lambda>y. entry_order y \<noteq> a) (block st b x) = block st b x"
      using out [OF that False]
      by (intro filter_True) (auto simp: block_def level_abs_def live_queue_def entry_order_def)
    ultimately show ?thesis using False by (simp add: block_def pr)
  qed
  show "side_book ?st ?b s = filter (\<lambda>x. entry_order x \<noteq> a) (side_book st b s)"
    using blk in_all_levels [of _ s b]
    by (simp add: side_book_def filter_concat comp_def cong: map_cong)
qed

lemma cancel_twice [simp]: "upd a cancel (upd a cancel st) = upd a cancel st"
  by (simp add: upd_def cancel_def)

lemma best_published:
  "best_ok (b\<lparr>ob_best_bid := first_price b (ob_bids b) 0,
     ob_best_ask := first_price b (ob_asks b) int64_max\<rparr>)"
  by (simp add: best_ok_def first_price_def split: list.split)

lemma remove_then_delete:
  assumes "book_shape b" "l \<in> set (levels_of s b)"
  shows "res_bind (remove_level l s b) (\<lambda>b'. Inr (delete_level l b')) = Inr (drop_level s l b)"
  using deref_level [OF assms(1) in_all_levels [OF assms(2)]]
  by (simp add: remove_level_def Let_def drop_level_def lprice_def)

lemma drop_level_index:
  "(drop_level s l b)\<lparr>ob_index := i\<rparr> = drop_level s l (b\<lparr>ob_index := i\<rparr>)"
  by (cases s) (simp_all add: drop_level_def delete_level_def set_levels_def lprice_def)

text \<open>The three outcomes of a cancel: unknown id, unknown price, cancelled.\<close>

lemma cancel_order_unknown: "ob_index b i = None \<Longrightarrow> cancel_order i st b = Inr (False, st, b)"
  by (simp add: cancel_order_def)

lemma cancel_order_no_level:
  assumes ok: "book_ok st b" and loc: "ob_index b i = Some loc" and none: "ob_p2l b (loc_price loc) = None"
  shows "o_remaining (st (loc_order loc)) = 0"
    and "cancel_order i st b = Inr (False, st, b\<lparr>ob_index := (ob_index b)(i := None)\<rparr>)"
    and "book_ok st (b\<lparr>ob_index := (ob_index b)(i := None)\<rparr>)"
proof -
  have shape: "book_shape b" and ord: "book_orders st b" and dep: "book_depth b"
    and ind: "book_index st b"
    using ok by (simp_all add: book_ok_def)
  show r: "o_remaining (st (loc_order loc)) = 0"
    using book_index_loc [OF ind loc] none book_shapeD(5) [OF shape] by (metis option.distinct(1) waits_def)
  show "cancel_order i st b = Inr (False, st, b\<lparr>ob_index := (ob_index b)(i := None)\<rparr>)"
    using loc none by (simp add: cancel_order_def find_level_def)
  have "book_index st (b\<lparr>ob_index := (ob_index b)(i := None)\<rparr>)"
    unfolding book_index_waits
  proof (intro conjI allI impI)
    fix j loc' assume "ob_index (b\<lparr>ob_index := (ob_index b)(i := None)\<rparr>) j = Some loc'"
    then have j: "ob_index b j = Some loc'" by (auto split: if_splits)
    show "o_order_id (st (loc_order loc')) = j" "loc_price loc' = o_price (st (loc_order loc'))"
      "loc_is_bid loc' = is_buy (st (loc_order loc'))" "is_active (st (loc_order loc'))"
      by (rule book_index_entry [OF ind j])+
    show "o_remaining (st (loc_order loc')) = 0 \<or>
        waits (b\<lparr>ob_index := (ob_index b)(i := None)\<rparr>) (loc_price loc') (loc_order loc')"
      using book_index_loc [OF ind j] by (simp add: waits_def)
  next
    fix p a assume "waits (b\<lparr>ob_index := (ob_index b)(i := None)\<rparr>) p a" "live (st a)"
    then obtain loc' where loc': "ob_index b (o_order_id (st a)) = Some loc'" "loc_order loc' = a"
      using book_index_waiting [OF ind, of p a] by (auto simp: waits_def)
    then have "o_order_id (st a) \<noteq> i"
      using loc r live_pos [OF \<open>live (st a)\<close>] by auto
    with loc' show "\<exists>loc'. ob_index (b\<lparr>ob_index := (ob_index b)(i := None)\<rparr>) (o_order_id (st a))
        = Some loc' \<and> loc_order loc' = a"
      by simp
  qed
  then show "book_ok st (b\<lparr>ob_index := (ob_index b)(i := None)\<rparr>)"
    using shape ord dep by (simp add: book_ok_def book_orders_def book_depth_def)
qed

text \<open>
  A cancel only needs the sound structure of the book, not its best prices, which it publishes
  anew.  The last facts follow the levels: none appears, slots only go, and the level of an
  order that was alone in it is removed.
\<close>

lemma remove_order_sole:
  assumes "level_ok st pl" "entries pl = [a]" "is_active (st a)"
  shows "entries (snd (remove_order st (Some a) pl)) = []"
proof -
  let ?st = "upd a cancel st" and ?pl = "pl\<lparr>pl_total := pl_total pl - o_remaining (st a)\<rparr>"
  have "ring_len pl = 1" using assms(2) length_entries [of pl] by simp
  then have ne: "pl_head pl \<noteq> pl_tail pl" using ring_len_0_iff [of pl] by auto
  have "slots pl = [Some a]" using slots_eq_entries [of pl] level_okD(2) [OF assms(1)] assms(2) by simp
  then have head: "pl_buffer pl (pl_head pl) = Some a" using slots_clear_head [OF ne] by simp
  have okc: "level_ok ?st ?pl"
    using assms cancel_store_total [OF assms(1,3), of] by (intro level_okI) (simp_all add: level_simps level_okD)
  have "entries (advance ?st ?pl) = []"
    using advance_ok [OF okc] assms(2) by (simp add: level_simps)
  then show ?thesis using assms(3) ne head by (simp add: remove_order_def Let_def)
qed

lemma cancel_order_sound:
  assumes ok: "book_ok st b" and ne: "nonempty_levels b"
    and loc: "ob_index b i = Some loc" "ob_p2l b (loc_price loc) \<noteq> None"
  obtains b' where "cancel_order i st b = Inr (True, upd (loc_order loc) cancel st, b')"
    "book_inv (upd (loc_order loc) cancel st) b'" "ob_sequence b' = ob_sequence b + 1"
    "\<And>s. side_book (upd (loc_order loc) cancel st) b' s
       = filter (\<lambda>x. entry_order x \<noteq> loc_order loc) (side_book st b s)"
    "ob_index b' = (ob_index b)(i := None)"
    "\<And>s. level_prices b' s \<subseteq> level_prices b s"
    "set (all_levels b') \<subseteq> set (all_levels b)"
    "\<And>x. x \<in> set (all_levels b') \<Longrightarrow> set (entries (lv b' x)) \<subseteq> set (entries (lv b x))"
    "\<And>l. ob_p2l b (loc_price loc) = Some l \<Longrightarrow> entries (lv b l) = [loc_order loc] \<Longrightarrow> l \<notin> set (all_levels b')"
proof -
  let ?a = "loc_order loc"
  let ?st = "upd ?a cancel st"
  have shape: "book_shape b" and ord: "book_orders st b" and ind: "book_index st b"
    using ok by (simp_all add: book_ok_def)
  note e = book_index_entry [OF ind loc(1)]
  obtain l where l: "ob_p2l b (loc_price loc) = Some l" using loc(2) by auto
  then have la: "l \<in> set (all_levels b)" "lprice b l = o_price (st ?a)"
    using book_shapeD(5) [OF shape] e(2) by auto
  have act: "is_active (st ?a)" by (rule e(4))
  obtain pl where pl: "remove_order st (Some ?a) (lv b l) = (?st, pl)"
    using remove_order_cases [of st ?a "lv b l"] act by metis
  have ix: "ob_index b (o_order_id (st ?a)) = Some loc" using e(1) loc(1) by simp
  note R = without_order_ok [OF ok ix refl la pl]
  let ?b = "without_order ?a l pl st b"
  let ?b2 = "set_depth (is_buy (st ?a)) (depth_of (is_buy (st ?a)) b - o_remaining (st ?a)) (set_level l pl b)"
  have b: "?b = ?b2\<lparr>ob_index := (ob_index b)(i := None)\<rparr>"
    using e(1) by (simp add: without_order_def)
  have emp: "level_empty pl \<longleftrightarrow> entries pl = []" by (rule level_ok_empty_iff [OF R(5)])
  have side: "l \<in> set (levels_of (is_buy (st ?a)) b)" if "entries pl = []"
  proof -
    have "?a \<in> set (entries (lv b l))" using that R(3) ne la(1) by (metis nonempty_levels_def)
    moreover obtain s where s: "l \<in> set (levels_of s b)" using la(1) by (rule all_levels_side)
    ultimately have "is_buy (st ?a) = s" by (intro book_ordersD(3) [OF ord s])
    then show ?thesis using s by simp
  qed
  define b5 where "b5 = (if level_empty pl then drop_level (is_buy (st ?a)) l ?b else ?b)"
  have shape2: "book_shape ?b2"
    using book_shape_set_level [OF shape la(1) R(4)] by simp
  have run: "cancel_order i st b = res_bind (update_best_prices b5) (\<lambda>b6. Inr (True, ?st, bump_sequence b6))"
    using loc(1) l pl deref_level [OF shape la(1)] e(3)
      remove_then_delete [OF shape2, of l "is_buy (st ?a)"] side emp
    by (auto simp: cancel_order_def find_level_def b5_def b drop_level_index)
  have lb: "l \<in> set (levels_of (is_buy (st ?a)) ?b)" "entries (lv ?b l) = []" if "level_empty pl"
    using that side emp by simp_all
  have shapeb: "book_shape ?b" using R(1) by (simp add: book_ok_def)
  have ok5: "book_ok ?st b5"
    using R(1) book_ok_drop_level [OF R(1) lb] by (simp add: b5_def)
  have sb5: "side_book ?st b5 s = filter (\<lambda>x. entry_order x \<noteq> ?a) (side_book st b s)" for s
    using R(2) side_book_drop_level [OF shapeb lb] by (simp add: b5_def)
  have ne5: "nonempty_levels b5"
    using ne emp set_drop_level(1) [OF shapeb lb(1)] drop_level_lv [of _ l "is_buy (st ?a)" ?b]
    by (auto simp: b5_def nonempty_levels_def)
  have seq: "ob_sequence b5 = ob_sequence b" "ob_index b5 = (ob_index b)(i := None)"
    using e(1) by (simp_all add: b5_def)
  have shape5: "book_shape b5" using ok5 by (simp add: book_ok_def)
  have lev: "set (all_levels b5) = (if level_empty pl then set (all_levels b) - {l} else set (all_levels b))"
    using set_drop_level(1) [OF shapeb lb(1)] by (simp add: b5_def)
  have lvs: "lv b5 x = (if x = l then pl else lv b x)" if "x \<in> set (all_levels b5)" for x
    using that lev drop_level_lv [of x l "is_buy (st ?a)" ?b] by (auto simp: b5_def split: if_splits)
  have lok: "level_ok st (lv b l)" using la(1) book_ordersD(1) [OF ord] by (metis all_levels_side)
  have sub: "set (entries pl) \<subseteq> set (entries (lv b l))"
  proof (cases "?a \<in> set (entries (lv b l))")
    case True
    then show ?thesis using remove_order_ok [OF lok act] pl by (metis prod.inject)
  qed (simp add: R(3))
  note u = update_best_prices_ok [OF shape5]
  show thesis
  proof (rule that [OF run [unfolded u res_bind_simps]])
    show "book_inv ?st (bump_sequence (b5\<lparr>ob_best_bid := first_price b5 (ob_bids b5) 0,
        ob_best_ask := first_price b5 (ob_asks b5) int64_max\<rparr>))"
      using ok5 ne5 by (simp add: book_inv_def best_published)
    have "level_prices b5 s \<subseteq> level_prices b s" for s
      using level_prices_drop [OF shapeb lb(1)] without_order_lprice [OF R(4)]
      by (auto simp: b5_def level_prices_def)
    then show "level_prices (bump_sequence (b5\<lparr>ob_best_bid := first_price b5 (ob_bids b5) 0,
        ob_best_ask := first_price b5 (ob_asks b5) int64_max\<rparr>)) s \<subseteq> level_prices b s" for s
      by simp
    fix x assume "x \<in> set (all_levels (bump_sequence (b5\<lparr>ob_best_bid := first_price b5 (ob_bids b5) 0,
        ob_best_ask := first_price b5 (ob_asks b5) int64_max\<rparr>)))"
    then show "set (entries (lv (bump_sequence (b5\<lparr>ob_best_bid := first_price b5 (ob_bids b5) 0,
        ob_best_ask := first_price b5 (ob_asks b5) int64_max\<rparr>)) x)) \<subseteq> set (entries (lv b x))"
      using lvs [of x] sub by (simp add: bump_sequence_def)
  next
    fix l' assume "ob_p2l b (loc_price loc) = Some l'" "entries (lv b l') = [?a]"
    then have "l' = l" "entries pl = []" using l remove_order_sole [OF lok, of ?a] act pl by simp_all
    then show "l' \<notin> set (all_levels (bump_sequence (b5\<lparr>ob_best_bid := first_price b5 (ob_bids b5) 0,
        ob_best_ask := first_price b5 (ob_asks b5) int64_max\<rparr>)))"
      using lev emp by (simp add: bump_sequence_def)
  qed (use sb5 seq lev in \<open>auto simp: bump_sequence_def split: if_splits\<close>)
qed

lemma cancel_order_ok:
  assumes inv: "book_inv st b" and loc: "ob_index b i = Some loc" "ob_p2l b (loc_price loc) \<noteq> None"
  obtains b' where "cancel_order i st b = Inr (True, upd (loc_order loc) cancel st, b')"
    "book_inv (upd (loc_order loc) cancel st) b'" "ob_sequence b' = ob_sequence b + 1"
    "\<And>s. side_book (upd (loc_order loc) cancel st) b' s
       = filter (\<lambda>x. entry_order x \<noteq> loc_order loc) (side_book st b s)"
    "ob_index b' = (ob_index b)(i := None)"
    "\<And>s. level_prices b' s \<subseteq> level_prices b s"
  using inv cancel_order_sound [OF _ _ loc, of st] unfolding book_inv_def by metis

end
