(* ===== verification/Order_Book_Match.thy ===== *)
theory Order_Book_Match
  imports Order_Book_Cancel
begin

text \<open>
  Matching an incoming order against the book: the sweep over the opposite levels returns,
  keeps the invariant, and produces exactly the fills of the abstract specification
  \<open>match_fills\<close> run over the crossing prefix of the opposite side.
\<close>

subsection \<open>The list specification under renaming and concatenation\<close>

lemma match_map:
  "match_fills (map (\<lambda>(a, r). (f a, r)) xs) q = map (\<lambda>(a, r). (f a, r)) (match_fills xs q)"
  "match_rest (map (\<lambda>(a, r). (f a, r)) xs) q = map (\<lambda>(a, r). (f a, r)) (match_rest xs q)"
  "match_left (map (\<lambda>(a, r). (f a, r)) xs) q = match_left xs q"
  by (induction xs q rule: match_left.induct) auto

lemma match_rest_append:
  "match_rest (xs @ ys) q = match_rest xs q @ match_rest ys (match_left xs q)"
  by (induction xs q rule: match_left.induct) auto

lemma match_rest_subset: "set (map fst (match_rest xs q)) \<subseteq> set (map fst xs)"
  by (induction xs q rule: match_left.induct) auto

text \<open>An order that does not survive in the rest was filled with all it had.\<close>

lemma match_rest_cover:
  "(a, r) \<in> set xs \<Longrightarrow> a \<in> fst ` set (match_rest xs q) \<or> (a, r) \<in> set (match_fills xs q)"
  by (induction xs q rule: match_left.induct) (auto simp: rev_image_eqI)

lemma apply_fills_maker:
  assumes "distinct (map fst ms)" "inc \<notin> fst ` set ms" "(a, q) \<in> set ms"
  shows "o_remaining (apply_fills inc ms st a) = o_remaining (st a) - q"
  using assms
proof (induction ms arbitrary: st)
  case (Cons x ms)
  obtain b r where x: "x = (b, r)" by (cases x)
  show ?case
  proof (cases "b = a")
    case True
    then have "a \<notin> fst ` set ms" "r = q" "a \<noteq> inc" using Cons.prems x by force+
    then show ?thesis using x True by (simp add: apply_fills_other apply_fill_apply)
  next
    case False
    then have "(a, q) \<in> set ms" "a \<noteq> inc" using Cons.prems x by force+
    then show ?thesis
      using Cons.IH [of "apply_fill b inc r st"] Cons.prems x False
      by (simp add: apply_fill_apply)
  qed
qed simp

lemma level_abs_entries: "fst ` set (level_abs st pl) \<subseteq> set (entries pl)"
  by (auto simp: level_abs_def live_queue_def)

lemma level_abs_live: "(a, r) \<in> set (level_abs st pl) \<Longrightarrow> live (st a) \<and> r = o_remaining (st a)"
  by (auto simp: level_abs_def live_queue_def)

lemma level_abs_distinct: "level_ok st pl \<Longrightarrow> distinct (map fst (level_abs st pl))"
  by (auto simp: level_abs_def live_queue_def comp_def level_okD)

subsection \<open>Trading with one level\<close>

definition traded :: "bool \<Rightarrow> laddr \<Rightarrow> price_level \<Rightarrow> order_book \<Rightarrow> order_book" where
  "traded t l pl b = set_depth t (depth_of t b - (pl_total (lv b l) - pl_total pl)) (set_level l pl b)"

lemma traded_simps [simp]:
  "levels_of s (traded t l pl b) = levels_of s b"
  "all_levels (traded t l pl b) = all_levels b"
  "lv (traded t l pl b) l' = (if l' = l then pl else lv b l')"
  "ob_index (traded t l pl b) = ob_index b" "ob_sequence (traded t l pl b) = ob_sequence b"
  by (simp_all add: traded_def lv_set_level)

lemma traded_lprice: "pl_price pl = lprice b l \<Longrightarrow> lprice (traded t l pl b) = lprice b"
  by (simp add: lprice_def fun_eq_iff)

text \<open>An order that the book has never seen.\<close>

definition unseen :: "order_book \<Rightarrow> addr \<Rightarrow> bool" where
  "unseen b a \<longleftrightarrow> (\<forall>l \<in> set (all_levels b). a \<notin> set (entries (lv b l))) \<and>
     (\<forall>i loc. ob_index b i = Some loc \<longrightarrow> loc_order loc \<noteq> a)"

lemma traded_ok:
  assumes ok: "book_ok st b" and l: "l \<in> set (levels_of t b)" and inc: "unseen b inc"
    and ms: "ms = match_fills (level_abs st (lv b l)) q"
    and st1: "st1 = apply_fills inc ms st"
    and pl: "level_ok st1 pl" "pl_price pl = lprice b l" "set (entries pl) \<subseteq> set (entries (lv b l))"
      "level_abs st1 pl = match_rest (level_abs st (lv b l)) q"
  shows "book_ok st1 (traded t l pl b)"
    and "x \<in> set (all_levels b) \<Longrightarrow> x \<noteq> l \<Longrightarrow> block st1 (traded t l pl b) x = block st b x"
    and "block st1 (traded t l pl b) l = match_rest (block st b l) q"
    and "unseen (traded t l pl b) inc"
proof -
  let ?b = "traded t l pl b"
  have shape: "book_shape b" and ord: "book_orders st b" and dep: "book_depth b"
    and ind: "book_index st b"
    using ok by (simp_all add: book_ok_def)
  have la: "l \<in> set (all_levels b)" using l by (rule in_all_levels)
  have lok: "level_ok st (lv b l)" by (rule book_ordersD(1) [OF ord l])
  have sub: "fst ` set ms \<subseteq> fst ` set (level_abs st (lv b l))"
    using match_fills_subset [of "level_abs st (lv b l)" q] by (simp add: ms)
  then have in_l: "fst ` set ms \<subseteq> set (entries (lv b l))"
    using level_abs_entries by (rule subset_trans)
  have inc': "inc \<notin> fst ` set ms" using in_l inc la by (auto simp: unseen_def)
  have pr: "lprice ?b = lprice b" by (rule traded_lprice [OF pl(2)])
  have frame: "st1 y = st y" if "y \<in> set (entries (lv b x))" "x \<in> set (all_levels b)" "x \<noteq> l" for x y
  proof -
    have "y \<notin> set (entries (lv b l))"
      using entries_disjoint [OF shape ord that(2) la that(1)] that(3) by blast
    moreover have "y \<noteq> inc" using inc that by (auto simp: unseen_def)
    ultimately show ?thesis unfolding st1 using in_l by (intro apply_fills_other) auto
  qed
  have dead: "st1 y = st y" if "\<not> live (st y)" "y \<noteq> inc" for y
  proof -
    have "y \<notin> fst ` set ms" using sub that(1) level_abs_live by fastforce
    then show ?thesis unfolding st1 using that(2) by (intro apply_fills_other)
  qed
  have was_live: "live (st y)" if "live (st1 y)" "y \<noteq> inc" for y
    using dead [OF _ that(2)] that(1) by metis
  have kept: "y \<in> set (entries pl)"
    if "y \<in> set (entries (lv b l))" "live (st1 y)" "y \<noteq> inc" for y
  proof -
    have ly: "live (st y)" using was_live that by blast
    have "(y, o_remaining (st y)) \<in> set (level_abs st (lv b l))"
      using that(1) ly by (auto simp: level_abs_def live_queue_def)
    then consider "y \<in> fst ` set (level_abs st1 pl)" | "(y, o_remaining (st y)) \<in> set ms"
      using match_rest_cover [of y "o_remaining (st y)" "level_abs st (lv b l)" q]
      by (auto simp: pl(4) ms)
    then show ?thesis
    proof cases
      case 1
      then show ?thesis using level_abs_entries by blast
    next
      case 2
      have "distinct (map fst ms)"
        unfolding ms by (intro match_fills_distinct level_abs_distinct lok)
      then have "o_remaining (st1 y) = 0"
        using apply_fills_maker [OF _ inc' 2, of st] by (simp add: st1)
      then show ?thesis using live_pos [OF that(2)] by simp
    qed
  qed
  have same: "o_price (st1 y) = o_price (st y)" "is_buy (st1 y) = is_buy (st y)"
    "o_order_id (st1 y) = o_order_id (st y)" "is_active (st1 y) = is_active (st y)" for y
    by (simp_all add: st1 is_buy_def)
  have "book_shape ?b"
    using book_shape_set_level [OF shape la pl(2)] by (simp add: traded_def)
  moreover have "book_orders st1 ?b"
    unfolding book_orders_def
  proof (intro allI ballI)
    fix s x assume x: "x \<in> set (levels_of s ?b)"
    then have xa: "x \<in> set (all_levels b)" by (simp add: in_all_levels)
    show "level_ok st1 (lv ?b x) \<and>
        (\<forall>y\<in>set (entries (lv ?b x)). o_price (st1 y) = lprice ?b x \<and> is_buy (st1 y) = s)"
      using x pl(1,3) book_ordersD [OF ord, of x s] level_frame(1) [of "lv b x" st1 st] frame [OF _ xa]
      by (auto simp: pr same subset_iff)
  qed
  moreover have "book_depth ?b"
    unfolding traded_def by (rule book_depth_set_level [OF shape dep l]) simp
  moreover have "book_index st1 ?b"
    unfolding book_index_waits
  proof (intro conjI allI impI)
    fix i loc assume "ob_index ?b i = Some loc"
    then have i: "ob_index b i = Some loc" by simp
    then have ne: "loc_order loc \<noteq> inc" using inc by (auto simp: unseen_def)
    show "o_order_id (st1 (loc_order loc)) = i" "loc_price loc = o_price (st1 (loc_order loc))"
      "loc_is_bid loc = is_buy (st1 (loc_order loc))" "is_active (st1 (loc_order loc))"
      using book_index_entry [OF ind i] by (simp_all add: same)
    show "o_remaining (st1 (loc_order loc)) = 0 \<or> waits ?b (loc_price loc) (loc_order loc)"
    proof (cases "live (st1 (loc_order loc))")
      case True
      then have "o_remaining (st (loc_order loc)) \<noteq> 0"
        using was_live [OF True ne] by (simp add: live_def)
      then obtain x where x: "x \<in> set (all_levels b)" "lprice b x = loc_price loc"
          "loc_order loc \<in> set (entries (lv b x))"
        using book_index_loc [OF ind i] by (auto simp: waits_def)
      then have "loc_order loc \<in> set (entries (lv ?b x))"
        using kept [OF _ True ne] by auto
      then have "waits ?b (loc_price loc) (loc_order loc)"
        using x by (simp only: waits_def pr traded_simps) blast
      then show ?thesis ..
    next
      case False
      then show ?thesis
        using book_index_entry(4) [OF ind i] by (auto simp: live_def same)
    qed
  next
    fix p y assume y: "waits ?b p y" "live (st1 y)"
    then have w: "waits b p y"
      using pl(3) by (auto simp: waits_def pr split: if_splits)
    then have "y \<noteq> inc" using inc by (auto simp: unseen_def waits_def)
    then show "\<exists>loc. ob_index ?b (o_order_id (st1 y)) = Some loc \<and> loc_order loc = y"
      using book_index_waiting [OF ind w] was_live [OF y(2)] by (simp add: same)
  qed
  ultimately show "book_ok st1 ?b" by (simp add: book_ok_def)
  show "block st1 ?b x = block st b x" if "x \<in> set (all_levels b)" "x \<noteq> l"
    using level_frame(2) [of "lv b x" st1 st] frame [OF _ that] that(2) by (simp add: block_def pr)
  show "block st1 ?b l = match_rest (block st b l) q"
    by (simp add: block_def pr pl(4) match_map [where f = "\<lambda>a. (lprice b l, a)"])
  show "unseen ?b inc"
    using inc pl(3) la unfolding unseen_def by auto
qed

subsection \<open>The sweep\<close>

lemma sweep_done: "o_remaining (st inc) = 0 \<Longrightarrow> sweep s inc st b fs = Some (Inr (st, b, fs))"
  by (subst sweep.simps) (simp split: list.split)

lemma sweep_empty: "levels_of (\<not> s) b = [] \<Longrightarrow> sweep s inc st b fs = Some (Inr (st, b, fs))"
  by (subst sweep.simps) simp

lemma sweep_beyond:
  "levels_of (\<not> s) b = l # ls \<Longrightarrow> deref b l = Inr (lv b l) \<Longrightarrow>
    before (\<not> s) (o_price (st inc)) (lprice b l) \<Longrightarrow> sweep s inc st b fs = Some (Inr (st, b, fs))"
  by (subst sweep.simps) (simp add: beyond_limit_before lprice_def)

text \<open>The book after one round: the traded level is dropped when it became empty.\<close>

definition trade_round :: "bool \<Rightarrow> laddr \<Rightarrow> price_level \<Rightarrow> order_book \<Rightarrow> order_book" where
  "trade_round t l pl b =
     (if level_empty pl then drop_level t l (traded t l pl b) else traded t l pl b)"

lemma sweep_round:
  assumes ls: "levels_of (\<not> s) b = l # ls" and d: "deref b l = Inr (lv b l)"
    and cross: "\<not> before (\<not> s) (o_price (st inc)) (lprice b l)" and rem: "o_remaining (st inc) \<noteq> 0"
    and m: "match_loop inc st (lv b l) fs = Some (st1, pl, fs1)" and p: "pl_price pl = lprice b l"
  shows "sweep s inc st b fs = sweep s inc st1 (trade_round (\<not> s) l pl b) fs1"
proof -
  let ?b = "traded (\<not> s) l pl b"
  have pop: "pop_level (\<not> s) l pl ?b = drop_level (\<not> s) l ?b"
    using ls p by (simp add: pop_level_def drop_level_def lprice_def)
  have b2: "set_depth (\<not> s) (depth_of (\<not> s) (set_level l pl b) - (pl_total (lv b l) - pl_total pl))
      (set_level l pl b) = ?b"
    by (simp add: traded_def)
  show ?thesis
    using cross rem m
    by (subst sweep.simps)
      (simp add: ls d beyond_limit_before lprice_def [symmetric] match_order_def Let_def
        b2 pop trade_round_def del: set_level_simps)
qed

lemma trade_round_ok:
  assumes ok: "book_ok st1 (traded t l pl b)" and l: "levels_of t b = l # ls"
    and pl: "level_ok st1 pl" and u: "unseen (traded t l pl b) inc"
    and pr: "pl_price pl = lprice b l"
  shows "book_ok st1 (trade_round t l pl b)" "unseen (trade_round t l pl b) inc"
    "side_book st1 (trade_round t l pl b) s = side_book st1 (traded t l pl b) s"
    "levels_of (\<not> t) (trade_round t l pl b) = levels_of (\<not> t) b"
    "x \<noteq> l \<Longrightarrow> lv (trade_round t l pl b) x = lv b x"
    "levels_of t (trade_round t l pl b) = (if level_empty pl then ls else l # ls)"
    "ob_sequence (trade_round t l pl b) = ob_sequence b"
    "ob_index (trade_round t l pl b) = ob_index b"
    "nonempty_levels b \<Longrightarrow> nonempty_levels (trade_round t l pl b)"
    "level_prices (trade_round t l pl b) s \<subseteq> level_prices b s"
proof -
  have shape: "book_shape (traded t l pl b)" using ok by (simp add: book_ok_def)
  have mem: "l \<in> set (levels_of t (traded t l pl b))" using l by simp
  have emp: "level_empty pl \<longleftrightarrow> entries (lv (traded t l pl b) l) = []"
    using level_ok_empty_iff [OF pl] by simp
  show "book_ok st1 (trade_round t l pl b)"
    "side_book st1 (trade_round t l pl b) s = side_book st1 (traded t l pl b) s"
    using ok book_ok_drop_level [OF ok mem] side_book_drop_level [OF shape mem] emp
    by (simp_all add: trade_round_def)
  show "level_prices (trade_round t l pl b) s \<subseteq> level_prices b s"
    using level_prices_drop [OF shape mem] traded_lprice [OF pr, of t]
    by (auto simp: trade_round_def level_prices_def)
  show "nonempty_levels b \<Longrightarrow> nonempty_levels (trade_round t l pl b)"
    using emp set_drop_level(1) [OF shape mem] drop_level_lv [of _ l t "traded t l pl b"]
    by (auto simp: trade_round_def nonempty_levels_def)
  show "unseen (trade_round t l pl b) inc"
    using u set_drop_level(1) [OF shape mem] drop_level_lv [of _ l t "traded t l pl b"]
    by (auto simp: trade_round_def unseen_def)
  show "x \<noteq> l \<Longrightarrow> lv (trade_round t l pl b) x = lv b x"
    by (simp add: trade_round_def drop_level_lv)
qed (use l in \<open>auto simp: trade_round_def\<close>)

definition crosses :: "bool \<Rightarrow> i64 \<Rightarrow> side_entry \<Rightarrow> bool" where
  "crosses s p y \<longleftrightarrow> \<not> before (\<not> s) p (entry_price y)"

definition trades :: "bool \<Rightarrow> i64 \<Rightarrow> u32 \<Rightarrow> side_entry list \<Rightarrow> (addr \<times> u32) list" where
  "trades s p q xs =
     map (\<lambda>y. (entry_order y, snd y)) (match_fills (takeWhile (crosses s p) xs) q)"

definition untraded :: "bool \<Rightarrow> i64 \<Rightarrow> u32 \<Rightarrow> side_entry list \<Rightarrow> side_entry list" where
  "untraded s p q xs =
     match_rest (takeWhile (crosses s p) xs) q @ dropWhile (crosses s p) xs"

definition left_over :: "bool \<Rightarrow> i64 \<Rightarrow> u32 \<Rightarrow> side_entry list \<Rightarrow> u32" where
  "left_over s p q xs = match_left (takeWhile (crosses s p) xs) q"

lemma crossing_block:
  "\<not> before (\<not> s) p (lprice b l) \<Longrightarrow>
    takeWhile (crosses s p) (block st b l @ ys) = block st b l @ takeWhile (crosses s p) ys \<and>
    dropWhile (crosses s p) (block st b l @ ys) = dropWhile (crosses s p) ys"
  using block_price [of _ st b l] by (auto simp: crosses_def takeWhile_append dropWhile_append)

lemma trades_block:
  assumes "\<not> before (\<not> s) p (lprice b l)"
  shows "trades s p q (block st b l @ ys) = match_fills (level_abs st (lv b l)) q
      @ trades s p (match_left (level_abs st (lv b l)) q) ys"
    and "untraded s p q (block st b l @ ys) = match_rest (block st b l) q
      @ untraded s p (match_left (level_abs st (lv b l)) q) ys"
    and "left_over s p q (block st b l @ ys)
      = left_over s p (match_left (level_abs st (lv b l)) q) ys"
proof -
  have m: "match_left (block st b l) q = match_left (level_abs st (lv b l)) q"
    "map (\<lambda>y. (entry_order y, snd y)) (match_fills (block st b l) q)
       = match_fills (level_abs st (lv b l)) q"
    by (simp_all add: block_def match_map [where f = "\<lambda>a. (lprice b l, a)"] comp_def
        case_prod_beta entry_order_def)
  show "trades s p q (block st b l @ ys) = match_fills (level_abs st (lv b l)) q
      @ trades s p (match_left (level_abs st (lv b l)) q) ys"
    "untraded s p q (block st b l @ ys) = match_rest (block st b l) q
      @ untraded s p (match_left (level_abs st (lv b l)) q) ys"
    "left_over s p q (block st b l @ ys)
      = left_over s p (match_left (level_abs st (lv b l)) q) ys"
    using crossing_block [OF assms, of st ys] m
    by (simp_all add: trades_def untraded_def left_over_def match_fills_append match_rest_append
        match_left_append)
qed

lemma trades_zero [simp]: "trades s p 0 xs = []" "untraded s p 0 xs = xs" "left_over s p 0 xs = 0"
  by (simp_all add: trades_def untraded_def left_over_def)

lemma trades_none:
  "(\<And>y. y \<in> set xs \<Longrightarrow> \<not> crosses s p y) \<Longrightarrow>
    trades s p q xs = [] \<and> untraded s p q xs = xs \<and> left_over s p q xs = q"
  by (cases xs) (simp_all add: trades_def untraded_def left_over_def)

text \<open>What a finished sweep of the side opposite to \<open>s\<close> has achieved.\<close>

definition swept ::
  "bool \<Rightarrow> addr \<Rightarrow> store \<Rightarrow> order_book \<Rightarrow> store \<Rightarrow> order_book \<Rightarrow> bool" where
  "swept s inc st b st' b' \<longleftrightarrow>
     book_ok st' b' \<and> unseen b' inc \<and> nonempty_levels b' \<and>
     side_book st' b' (\<not> s)
       = untraded s (o_price (st inc)) (o_remaining (st inc)) (side_book st b (\<not> s)) \<and>
     side_book st' b' s = side_book st b s \<and>
     o_remaining (st' inc)
       = left_over s (o_price (st inc)) (o_remaining (st inc)) (side_book st b (\<not> s)) \<and>
     ob_sequence b' = ob_sequence b \<and> ob_index b' = ob_index b \<and>
     level_prices b' (\<not> s) \<subseteq> level_prices b (\<not> s) \<and>
     levels_of s b' = levels_of s b \<and> (\<forall>x \<in> set (levels_of s b). lv b' x = lv b x) \<and>
     (o_remaining (st' inc) \<noteq> 0 \<longrightarrow>
       (\<forall>x \<in> set (levels_of (\<not> s) b'). before (\<not> s) (o_price (st inc)) (lprice b' x)))"

lemma round_side_books:
  assumes shape: "book_shape b" and ls: "levels_of t b = l # ls"
    and blk: "\<And>x. x \<in> set (all_levels b) \<Longrightarrow> x \<noteq> l \<Longrightarrow> block st1 b1 x = block st b x"
      "block st1 b1 l = match_rest (block st b l) q"
    and lv1: "levels_of t b1 = l # ls" "levels_of (\<not> t) b1 = levels_of (\<not> t) b"
  shows "side_book st1 b1 t = match_rest (block st b l) q @ concat (map (block st b) ls)"
    and "side_book st1 b1 (\<not> t) = side_book st b (\<not> t)"
proof -
  have d: "l \<notin> set ls" "l \<notin> set (levels_of (\<not> t) b)"
    using book_shapeD(1) [OF shape] ls by (auto simp: distinct_all_levels [of b t])
  have sub: "set ls \<subseteq> set (all_levels b)" "set (levels_of (\<not> t) b) \<subseteq> set (all_levels b)"
    using ls by (auto simp: set_all_levels [of b t])
  have m: "map (block st1 b1) xs = map (block st b) xs" if "set xs \<subseteq> set (all_levels b)" "l \<notin> set xs" for xs
    using that by (intro map_cong refl blk(1)) auto
  show "side_book st1 b1 t = match_rest (block st b l) q @ concat (map (block st b) ls)"
    "side_book st1 b1 (\<not> t) = side_book st b (\<not> t)"
    using m [OF sub(1) d(1)] m [OF sub(2) d(2)] blk(2)
    by (simp_all add: side_book_def lv1 del: map_eq_conv)
qed

lemma sweep_ok:
  assumes "book_ok st b" "unseen b inc" "nonempty_levels b"
  shows "let ms = trades s (o_price (st inc)) (o_remaining (st inc)) (side_book st b (\<not> s));
             st' = apply_fills inc ms st
         in \<exists>b'. sweep s inc st b fs = Some (Inr (st', b', fs @ fills_of (o_price (st inc)) ms)) \<and>
              swept s inc st b st' b'"
  using assms
proof (induction "length (levels_of (\<not> s) b)" arbitrary: st b fs rule: less_induct)
  case less
  let ?p = "o_price (st inc)" and ?q = "o_remaining (st inc)"
  have ok: "book_ok st b" and ne: "nonempty_levels b" and u: "unseen b inc"
    using less.prems by simp_all
  have shape: "book_shape b" using ok by (simp add: book_ok_def)
  show ?case
  proof (cases "?q = 0")
    case True
    then show ?thesis
      using less.prems by (simp add: Let_def sweep_done swept_def)
  next
    case rem: False
    show ?thesis
    proof (cases "levels_of (\<not> s) b")
      case Nil
      then have "side_book st b (\<not> s) = []" by (simp add: side_book_def)
      then show ?thesis
        using Nil less.prems trades_none [of "[]" s ?p ?q] by (simp add: sweep_empty swept_def)
    next
      case (Cons l ls)
      have l: "l \<in> set (levels_of (\<not> s) b)" by (simp add: Cons)
      have la: "l \<in> set (all_levels b)" by (rule in_all_levels [OF l])
      have d: "deref b l = Inr (lv b l)" by (rule deref_level [OF shape la])
      have sb: "side_book st b (\<not> s) = block st b l @ concat (map (block st b) ls)"
        by (simp add: side_book_def Cons)
      show ?thesis
      proof (cases "before (\<not> s) ?p (lprice b l)")
        case True
        have all: "before (\<not> s) ?p (lprice b x)" if "x \<in> set (levels_of (\<not> s) b)" for x
          using that Cons True first_price_extreme [OF shape Cons, of x]
          by (auto simp: before_def split: if_splits)
        have "\<not> crosses s ?p y" if "y \<in> set (side_book st b (\<not> s))" for y
          using that all block_price by (fastforce simp: side_book_def crosses_def)
        then show ?thesis
          using trades_none [of "side_book st b (\<not> s)" s ?p ?q] less.prems all
            sweep_beyond [where st = st and inc = inc and fs = fs, OF Cons d True]
          by (simp add: swept_def)
      next
        case cross: False
        let ?ms = "match_fills (level_abs st (lv b l)) ?q"
        let ?st1 = "apply_fills inc ?ms st"
        let ?left = "match_left (level_abs st (lv b l)) ?q"
        have lok: "level_ok st (lv b l)"
          using ok l by (auto simp: book_ok_def book_orders_def)
        have new: "inc \<notin> set (entries (lv b l))" using u la by (simp add: unseen_def)
        obtain pl where m: "match_loop inc st (lv b l) fs = Some (?st1, pl, fs @ fills_of ?p ?ms)"
          and pl: "level_ok ?st1 pl" "pl_price pl = lprice b l"
            "set (entries pl) \<subseteq> set (entries (lv b l))"
            "level_abs ?st1 pl = match_rest (level_abs st (lv b l)) ?q"
          and left: "o_remaining (?st1 inc) = ?left" "o_remaining (?st1 inc) \<noteq> 0 \<Longrightarrow> entries pl = []"
          using match_loop_ok [OF lok new, of fs] by (auto simp: Let_def lprice_def)
        note T = traded_ok [OF ok l u refl refl pl]
        let ?b1 = "trade_round (\<not> s) l pl b"
        note R = trade_round_ok [OF T(1) Cons pl(1) T(4) pl(2)]
        have nl: "l \<notin> set (levels_of s b)"
          using book_shapeD(1) [OF shape] l by (auto simp: distinct_all_levels [of b s])
        have own: "\<forall>x \<in> set (levels_of s b). lv ?b1 x = lv b x" using nl R(5) by metis
        have run: "sweep s inc st b fs = sweep s inc ?st1 ?b1 (fs @ fills_of ?p ?ms)"
          by (rule sweep_round [OF Cons d cross rem m pl(2)])
        note sides = round_side_books [where ?b1.0 = "traded (\<not> s) l pl b" and ?st1.0 = ?st1,
            OF shape Cons T(2,3), simplified Cons traded_simps, OF _ _ refl refl]
        have sb1: "side_book ?st1 ?b1 (\<not> s) = match_rest (block st b l) ?q @ concat (map (block st b) ls)"
          "side_book ?st1 ?b1 s = side_book st b s"
          using sides by (simp_all add: R(3))
        have left_b: "match_left (block st b l) ?q = ?left"
          by (simp add: block_def match_map [where f = "\<lambda>a. (lprice b l, a)"])
        note tb = trades_block [where st = st and ys = "concat (map (block st b) ls)", OF cross]
        show ?thesis
        proof (cases "o_remaining (?st1 inc) = 0")
          case True
          then have "?left = 0" using left(1) by simp
          then show ?thesis
            using R(1,2,4,7,8) R(9) [OF ne] R(10) [of "\<not> s"] own sb1 True left(1)
            unfolding run sb tb
            by (auto simp: sweep_done swept_def Let_def sb tb)
        next
          case False
          then have emp: "level_empty pl"
            using left(2) level_ok_empty_iff [OF pl(1)] by blast
          have nil: "match_rest (block st b l) ?q = []"
            using False left(1) left_b by (intro match_left_pos_rest) simp
          have shorter: "length (levels_of (\<not> s) ?b1) < length (levels_of (\<not> s) b)"
            using R(6) emp Cons by simp
          show ?thesis
            using less.hyps [OF shorter R(1,2) R(9) [OF ne],
                of "fs @ fills_of ?p ?ms"] R(4,7,8) R(10) [of "\<not> s"] own sb1 nil left(1)
            unfolding run sb tb
            by (auto simp: swept_def Let_def sb tb apply_fills_append)
        qed
      qed
    qed
  qed
qed

subsection \<open>Matching an order\<close>

lemma fresh_order_unseen:
  "fresh_order st b a \<longleftrightarrow> unseen b a \<and> ob_index b (o_order_id (st a)) = None"
  by (auto simp: fresh_order_def unseen_def)

text \<open>The own side has room at a price for one order more.\<close>

definition side_room :: "order_book \<Rightarrow> bool \<Rightarrow> i64 \<Rightarrow> bool" where
  "side_room b s p \<longleftrightarrow> (\<forall>l \<in> set (levels_of s b). lprice b l = p \<longrightarrow> ring_len (lv b l) < 127)"

lemma nonempty_put_order:
  assumes "nonempty_levels b \<or> (\<forall>x \<in> set (all_levels b). x \<noteq> l \<longrightarrow> entries (lv b x) \<noteq> [])"
    and "o_remaining (st a) \<noteq> 0" "ring_len (lv b l) < 127"
  shows "nonempty_levels (put_order s l a st b)"
  using assms level_add_order_entries(1) [of st a "lv b l"]
  by (auto simp: nonempty_levels_def put_order_lv)

lemma rest_order_put:
  assumes "get_level (o_price (st a)) s b = Inr (l, b')" "deref b' l = Inr (lv b' l)"
  shows "rest_order s a st b = Inr (put_order s l a st b')"
  using assms by (simp add: rest_order_def Let_def put_order_def index_set_depth)

lemma get_and_put_nonempty:
  assumes ok: "book_ok st b" and ne: "nonempty_levels b" and alive: "live (st a)"
    and room: "has_room b (o_price (st a))"
    and opp: "\<And>l. l \<in> set (levels_of (\<not> s) b) \<Longrightarrow> lprice b l \<noteq> o_price (st a)"
    and g: "get_level (o_price (st a)) s b = Inr (l, b')"
  shows "nonempty_levels (put_order s l a st b')"
proof -
  have shape: "book_shape b" using ok by (simp add: book_ok_def)
  obtain L R where ls: "levels_of s b' = L @ l # R" and pr: "lprice b' l = o_price (st a)"
    and which: "b' = b \<or> levels_of s b = L @ R \<and> ob_p2l b (o_price (st a)) = None \<and> l = ob_fresh b \<and>
       b' = with_new_level (o_price (st a)) s (L @ ob_fresh b # R) b"
    using get_level_ok [where st = st and s = s and p = "o_price (st a)", OF ok opp] g
    by (metis Inr_inject Pair_inject)
  have r: "o_remaining (st a) \<noteq> 0" using alive by (simp add: live_def)
  from which show ?thesis
  proof
    assume b: "b' = b"
    then have "ob_p2l b (o_price (st a)) = Some l"
      using book_shapeD(5) [OF shape] in_all_levels [of l s b] ls pr by simp
    then show ?thesis
      using ne room b by (intro nonempty_put_order disjI1 r) (simp_all add: has_room_def)
  next
    assume w: "levels_of s b = L @ R \<and> ob_p2l b (o_price (st a)) = None \<and> l = ob_fresh b \<and>
       b' = with_new_level (o_price (st a)) s (L @ ob_fresh b # R) b"
    have "set (all_levels b') = insert l (set (all_levels b))"
      using w by (auto simp: set_all_levels [of _ s])
    then show ?thesis
      using ne w by (intro nonempty_put_order r) (auto simp: nonempty_levels_def lv_with_new_level)
  qed
qed

lemma has_room_side:
  assumes "book_shape b" "side_room b s p" "\<And>l. l \<in> set (levels_of (\<not> s) b) \<Longrightarrow> lprice b l \<noteq> p"
  shows "has_room b p"
proof (cases "ob_p2l b p")
  case (Some l)
  then have "l \<in> set (levels_of s b)" "lprice b l = p"
    using book_shapeD(5) [OF assms(1), of p l] assms(3) by (auto simp: set_all_levels [of b s])
  then show ?thesis using assms(2) Some by (simp add: has_room_def side_room_def)
qed (simp add: has_room_def)

lemma publish_ok:
  assumes "book_ok st b" "nonempty_levels b"
  obtains b' where "update_best_prices b = Inr b'" "book_inv st b'" "side_book st b' = side_book st b"
    "ob_sequence b' = ob_sequence b" "level_prices b' = level_prices b"
    "unseen b' a = unseen b a"
proof -
  have shape: "book_shape b" using assms by (simp add: book_ok_def)
  show thesis
    by (rule that [OF update_best_prices_ok [OF shape]])
      (use assms in \<open>simp_all add: book_inv_def best_published fun_eq_iff unseen_def\<close>)
qed

lemma unseen_bump [simp]: "unseen (bump_sequence b) a = unseen b a"
  by (simp add: unseen_def bump_sequence_def)

lemma rest_order_ok:
  assumes ok: "book_ok st b" and ne: "nonempty_levels b" and side: "is_buy (st a) = s"
    and alive: "live (st a)" and fresh: "fresh_order st b a"
    and room: "side_room b s (o_price (st a))"
    and opp: "\<And>l. l \<in> set (levels_of (\<not> s) b) \<Longrightarrow> lprice b l \<noteq> o_price (st a)"
  obtains b' where "rest_order s a st b = Inr b'" "book_ok st b'" "nonempty_levels b'"
    "side_book st b' s
       = insert_priority s ((o_price (st a), a), o_remaining (st a)) (side_book st b s)"
    "side_book st b' (\<not> s) = side_book st b (\<not> s)" "ob_sequence b' = ob_sequence b"
    "level_prices b' s \<subseteq> insert (o_price (st a)) (level_prices b s)"
    "level_prices b' (\<not> s) = level_prices b (\<not> s)"
proof -
  have shape: "book_shape b" using ok by (simp add: book_ok_def)
  have room': "has_room b (o_price (st a))" by (rule has_room_side [OF shape room opp])
  show thesis
  proof (rule get_and_put [OF ok side alive fresh room' opp], assumption)
    fix l b1
    assume g: "get_level (o_price (st a)) s b = Inr (l, b1)" "deref b1 l = Inr (lv b1 l)"
      and ok1: "book_ok st (put_order s l a st b1)"
      and sb: "side_book st (put_order s l a st b1) s
         = insert_priority s ((o_price (st a), a), o_remaining (st a)) (side_book st b s)"
      "side_book st (put_order s l a st b1) (\<not> s) = side_book st b (\<not> s)"
      and seq: "ob_sequence b1 = ob_sequence b"
      and lv: "levels_of (\<not> s) b1 = levels_of (\<not> s) b"
        "\<And>x. x \<in> set (levels_of s b1) \<Longrightarrow> lprice b1 x = o_price (st a) \<or> lprice b1 x \<in> lprice b ` set (levels_of s b)"
        "\<And>x. x \<in> set (levels_of (\<not> s) b) \<Longrightarrow> lprice b1 x = lprice b x"
    show thesis
    proof (rule that [OF rest_order_put [where st = st and a = a, OF g] ok1
          get_and_put_nonempty [OF ok ne alive room' opp g(1)] sb])
      show "ob_sequence (put_order s l a st b1) = ob_sequence b"
        using seq by (simp add: put_order_def index_order_def)
      show "level_prices (put_order s l a st b1) s \<subseteq> insert (o_price (st a)) (level_prices b s)"
        "level_prices (put_order s l a st b1) (\<not> s) = level_prices b (\<not> s)"
        using lv by (auto simp: level_prices_def)
    qed
  qed
qed

lemma book_match_ok:
  assumes inv: "book_inv st b" and side: "is_buy (st inc) = s" and alive: "live (st inc)"
    and fresh: "fresh_order st b inc" and room: "side_room b s (o_price (st inc))"
  defines "p \<equiv> o_price (st inc)" and "q \<equiv> o_remaining (st inc)"
    and "opp \<equiv> side_book st b (\<not> is_buy (st inc))"
  defines "st' \<equiv> apply_fills inc (trades (is_buy (st inc)) p q opp) st"
  obtains b' where "book_match (Some inc) st b fs
      = Some (Inr (if left_over s p q opp > 0 then Some inc else None, st', b',
                   fs @ fills_of p (trades s p q opp)))"
    "book_inv st' b'" "ob_sequence b' = ob_sequence b + 1"
    "side_book st' b' (\<not> s) = untraded s p q opp"
    "side_book st' b' s = (if left_over s p q opp = 0 then side_book st b s
       else insert_priority s ((p, inc), left_over s p q opp) (side_book st b s))"
    "o_remaining (st' inc) = left_over s p q opp"
    "level_prices b' (\<not> s) \<subseteq> level_prices b (\<not> s)"
    "level_prices b' s \<subseteq> (if left_over s p q opp = 0 then level_prices b s
       else insert p (level_prices b s))"
    "left_over s p q opp \<noteq> 0 \<Longrightarrow> \<forall>x \<in> level_prices b' (\<not> s). before (\<not> s) p x"
    "left_over s p q opp = 0 \<Longrightarrow> unseen b' inc"
proof -
  have ok: "book_ok st b" and ne: "nonempty_levels b" and u: "unseen b inc"
    and new: "ob_index b (o_order_id (st inc)) = None"
    using inv fresh by (simp_all add: book_inv_def fresh_order_unseen)
  have q: "q \<noteq> 0" using alive by (simp add: q_def live_def)
  obtain b1 where sw: "sweep s inc st b fs = Some (Inr (st', b1, fs @ fills_of p (trades s p q opp)))"
    and S: "swept s inc st b st' b1"
    using sweep_ok [OF ok u ne, of s fs] unfolding st'_def p_def q_def opp_def side Let_def by blast
  have S1: "book_ok st' b1" "unseen b1 inc" "nonempty_levels b1"
    "side_book st' b1 (\<not> s) = untraded s p q opp" "side_book st' b1 s = side_book st b s"
    "o_remaining (st' inc) = left_over s p q opp" "ob_sequence b1 = ob_sequence b"
    "ob_index b1 = ob_index b" "level_prices b1 (\<not> s) \<subseteq> level_prices b (\<not> s)"
    "levels_of s b1 = levels_of s b" "\<And>x. x \<in> set (levels_of s b) \<Longrightarrow> lv b1 x = lv b x"
    "\<And>x. left_over s p q opp \<noteq> 0 \<Longrightarrow> x \<in> set (levels_of (\<not> s) b1) \<Longrightarrow> before (\<not> s) p (lprice b1 x)"
    using S unfolding swept_def p_def q_def opp_def side by simp_all
  have keep: "o_price (st' inc) = p" "is_buy (st' inc) = s" "o_order_id (st' inc) = o_order_id (st inc)"
    by (simp_all add: st'_def p_def is_buy_def side [symmetric])
  have own: "level_prices b1 s = level_prices b s"
    using S1(10,11) by (simp add: level_prices_def lprice_def)
  have run: "book_match (Some inc) st b fs = Some (res_bind
      (if left_over s p q opp > 0 then rest_order s inc st' b1 else Inr b1)
      (\<lambda>b2. res_bind (update_best_prices b2) (\<lambda>b3.
         Inr (if left_over s p q opp > 0 then Some inc else None, st', bump_sequence b3,
              fs @ fills_of p (trades s p q opp)))))"
    using q by (simp add: book_match_def side sw q_def [symmetric] S1(6))
  show thesis
  proof (cases "left_over s p q opp = 0")
    case True
    obtain b3 where P: "update_best_prices b1 = Inr b3" "book_inv st' b3"
      "side_book st' b3 = side_book st' b1" "ob_sequence b3 = ob_sequence b1"
      "level_prices b3 = level_prices b1" "unseen b3 inc = unseen b1 inc"
      using publish_ok [OF S1(1,3)] by metis
    show thesis
      by (rule that [of "bump_sequence b3"])
        (use P S1 True own run in \<open>simp_all add: book_inv_def\<close>)
  next
    case left: False
    have alive': "live (st' inc)"
      using alive left S1(6) by (simp add: live_def) (simp add: st'_def)
    have fresh': "fresh_order st' b1 inc"
      using S1(2,8) new by (simp add: fresh_order_unseen keep)
    have room': "side_room b1 s (o_price (st' inc))"
      using room S1(10,11) by (simp add: side_room_def keep p_def lprice_def)
    have opp': "lprice b1 l \<noteq> o_price (st' inc)" if "l \<in> set (levels_of (\<not> s) b1)" for l
      using S1(12) [OF left that] by (auto simp: keep before_def split: if_splits)
    obtain b2 where R: "rest_order s inc st' b1 = Inr b2" "book_ok st' b2" "nonempty_levels b2"
      "side_book st' b2 s = insert_priority s ((p, inc), left_over s p q opp) (side_book st' b1 s)"
      "side_book st' b2 (\<not> s) = side_book st' b1 (\<not> s)" "ob_sequence b2 = ob_sequence b1"
      "level_prices b2 s \<subseteq> insert p (level_prices b1 s)"
      "level_prices b2 (\<not> s) = level_prices b1 (\<not> s)"
      by (rule rest_order_ok [OF S1(1,3) keep(2) alive' fresh' room' opp'])
        (assumption | simp add: keep S1(6))+
    obtain b3 where P: "update_best_prices b2 = Inr b3" "book_inv st' b3"
      "side_book st' b3 = side_book st' b2" "ob_sequence b3 = ob_sequence b2"
      "level_prices b3 = level_prices b2"
      using publish_ok [OF R(2,3)] by metis
    show thesis
    proof (rule that [of "bump_sequence b3"])
      have "level_prices (bump_sequence b3) (\<not> s) = level_prices b1 (\<not> s)" using P(5) R(8) by simp
      then show "\<forall>x \<in> level_prices (bump_sequence b3) (\<not> s). before (\<not> s) p x"
        using S1(12) [OF left] by (auto simp: level_prices_def)
    qed (use P R S1 left own run in \<open>simp_all add: book_inv_def\<close>)
  qed
qed

end
