(* ===== verification/Order_Book_Spec.thy ===== *)
theory Order_Book_Spec
  imports Order_Book_Match
begin

text \<open>
  What the order book promises to its clients: the refinement of its operations by the
  abstract book, runs of operations from an empty book, and the cases outside the contract
  (a full ring, a level shared by both sides, a level of cancelled orders).
\<close>

subsection \<open>Writing an order object that the book does not know\<close>

text \<open>What the book depends on of an order.\<close>

definition same_view :: "order \<Rightarrow> order \<Rightarrow> bool" where
  "same_view x y \<longleftrightarrow> o_price x = o_price y \<and> is_buy x = is_buy y \<and> o_order_id x = o_order_id y \<and>
     o_remaining x = o_remaining y \<and> is_active x = is_active y"

lemma same_view_live: "same_view x y \<Longrightarrow> live x = live y"
  by (simp add: same_view_def live_def)

lemma level_view:
  assumes "\<And>a. a \<in> set (entries pl) \<Longrightarrow> same_view (st' a) (st a)"
  shows "level_ok st' pl = level_ok st pl" "level_abs st' pl = level_abs st pl"
proof -
  have "map (live_qty st') (entries pl) = map (live_qty st) (entries pl)"
    using assms same_view_live by (simp add: live_qty_def same_view_def live_def)
  then show "level_ok st' pl = level_ok st pl" by (simp only: level_ok_def)
  have "live_queue st' pl = live_queue st pl"
    unfolding live_queue_def using assms same_view_live by (intro filter_cong) auto
  moreover have "o_remaining (st' a) = o_remaining (st a)" if "a \<in> set (live_queue st pl)" for a
    using that assms by (simp add: live_queue_def same_view_def)
  ultimately show "level_abs st' pl = level_abs st pl" by (simp add: level_abs_def)
qed

lemma store_view:
  assumes "book_ok st b" "\<And>a. unseen b a \<or> same_view (st' a) (st a)"
  shows "book_ok st' b" "side_book st' b = side_book st b"
proof -
  have shape: "book_shape b" and ord: "book_orders st b" and dep: "book_depth b"
    and ind: "book_index st b"
    using assms(1) by (simp_all add: book_ok_def)
  have entry: "same_view (st' a) (st a)" if "a \<in> set (entries (lv b l))" "l \<in> set (all_levels b)" for a l
    using assms(2) [of a] that by (auto simp: unseen_def)
  have loc: "same_view (st' (loc_order loc)) (st (loc_order loc))" if "ob_index b i = Some loc" for i loc
    using assms(2) [of "loc_order loc"] that by (auto simp: unseen_def)
  have "book_orders st' b"
    unfolding book_orders_def
  proof (intro allI ballI)
    fix s l assume l: "l \<in> set (levels_of s b)"
    note e = entry [OF _ in_all_levels [OF l]]
    show "level_ok st' (lv b l) \<and>
        (\<forall>a\<in>set (entries (lv b l)). o_price (st' a) = lprice b l \<and> is_buy (st' a) = s)"
      using book_ordersD [OF ord l] level_view(1) [OF e] e by (simp add: same_view_def)
  qed
  moreover have "book_index st' b"
    unfolding book_index_waits
  proof (intro conjI allI impI)
    fix i loc' assume i: "ob_index b i = Some loc'"
    show "o_order_id (st' (loc_order loc')) = i" "loc_price loc' = o_price (st' (loc_order loc'))"
      "loc_is_bid loc' = is_buy (st' (loc_order loc'))" "is_active (st' (loc_order loc'))"
      "o_remaining (st' (loc_order loc')) = 0 \<or> waits b (loc_price loc') (loc_order loc')"
      using book_index_entry [OF ind i] book_index_loc [OF ind i] loc [OF i]
      by (simp_all add: same_view_def)
  next
    fix p a assume a: "waits b p a" "live (st' a)"
    then have "same_view (st' a) (st a)" using entry by (auto simp: waits_def)
    with a show "\<exists>loc. ob_index b (o_order_id (st' a)) = Some loc \<and> loc_order loc = a"
      using book_index_waiting [OF ind a(1)] same_view_live by (simp add: same_view_def live_def)
  qed
  ultimately show "book_ok st' b" using shape dep by (simp add: book_ok_def)
  show "side_book st' b = side_book st b"
  proof
    fix s
    have "block st' b l = block st b l" if "l \<in> set (levels_of s b)" for l
      using level_view(2) [OF entry [OF _ in_all_levels [OF that]]] by (simp add: block_def)
    then show "side_book st' b s = side_book st b s"
      unfolding side_book_def by (metis (no_types, lifting) map_cong)
  qed
qed

lemma write_unseen:
  assumes "book_inv st b" "unseen b a"
  shows "book_inv (st(a := x)) b" "side_book (st(a := x)) b = side_book st b"
proof -
  have ok: "book_ok st b" using assms(1) by (simp add: book_inv_def)
  have v: "unseen b y \<or> same_view ((st(a := x)) y) (st y)" for y
    using assms(2) by (simp add: same_view_def)
  have "book_ok (st(a := x)) b" by (rule store_view(1) [OF ok v])
  then show "book_inv (st(a := x)) b" using assms(1) by (simp add: book_inv_def)
  show "side_book (st(a := x)) b = side_book st b" by (rule store_view(2) [OF ok v])
qed

subsection \<open>Adding, with the whole invariant\<close>

lemma add_order_inv:
  assumes inv: "book_inv st b" and alive: "live (st a)" and fresh: "fresh_order st b a"
    and room: "has_room b (o_price (st a))"
    and opp: "\<And>l. l \<in> set (levels_of (\<not> is_buy (st a)) b) \<Longrightarrow> lprice b l \<noteq> o_price (st a)"
  obtains b' where "add_order st (Some a) b = Inr (True, b')" "book_inv st b'"
    "ob_sequence b' = ob_sequence b + 1"
    "side_book st b' (is_buy (st a)) = insert_priority (is_buy (st a))
       ((o_price (st a), a), o_remaining (st a)) (side_book st b (is_buy (st a)))"
    "side_book st b' (\<not> is_buy (st a)) = side_book st b (\<not> is_buy (st a))"
proof -
  let ?s = "is_buy (st a)"
  have ok: "book_ok st b" and ne: "nonempty_levels b" using inv by (simp_all add: book_inv_def)
  show thesis
  proof (rule get_and_put [OF ok refl alive fresh room opp], assumption)
    fix l b1
    assume g: "get_level (o_price (st a)) ?s b = Inr (l, b1)" "deref b1 l = Inr (lv b1 l)"
      "book_ok st (put_order ?s l a st b1)"
      and sb: "side_book st (put_order ?s l a st b1) ?s
         = insert_priority ?s ((o_price (st a), a), o_remaining (st a)) (side_book st b ?s)"
      "side_book st (put_order ?s l a st b1) (\<not> ?s) = side_book st b (\<not> ?s)"
      and seq: "ob_sequence b1 = ob_sequence b"
    obtain b2 where u: "update_best_prices (put_order ?s l a st b1) = Inr b2" "book_inv st b2"
      "side_book st b2 = side_book st (put_order ?s l a st b1)"
      "ob_sequence b2 = ob_sequence (put_order ?s l a st b1)"
      using publish_ok [OF g(3) get_and_put_nonempty [OF ok ne alive room opp g(1)]] by metis
    show thesis
      by (rule that [of "bump_sequence b2"])
        (use u sb seq in \<open>simp_all add: add_order_put [where st = st and a = a, OF g(1,2)]
           put_order_def index_order_def book_inv_def\<close>)
  qed
qed

subsection \<open>Runs of operations\<close>

text \<open>
  The operations of the book as one step function on the order store and the book; a fault
  or a loop that never ends is \<open>None\<close>.  \<open>Write\<close> stands for the creation of an order object.
\<close>

datatype book_op = Write addr order | Add addr | Cancel u64 | Match addr

fun book_step :: "store \<times> order_book \<Rightarrow> book_op \<Rightarrow> (store \<times> order_book) option" where
  "book_step (st, b) (Write a x) = Some (st(a := x), b)"
| "book_step (st, b) (Add a) =
     (case add_order st (Some a) b of Inl _ \<Rightarrow> None | Inr (_, b') \<Rightarrow> Some (st, b'))"
| "book_step (st, b) (Cancel i) =
     (case cancel_order i st b of Inl _ \<Rightarrow> None | Inr (_, st', b') \<Rightarrow> Some (st', b'))"
| "book_step (st, b) (Match a) =
     (case book_match (Some a) st b [] of
        Some (Inr (_, st', b', _)) \<Rightarrow> Some (st', b') | _ \<Rightarrow> None)"

fun book_guard :: "store \<times> order_book \<Rightarrow> book_op \<Rightarrow> bool" where
  "book_guard (st, b) (Write a x) \<longleftrightarrow> unseen b a"
| "book_guard (st, b) (Add a) \<longleftrightarrow> live (st a) \<and> fresh_order st b a \<and> has_room b (o_price (st a)) \<and>
     o_price (st a) \<notin> level_prices b (\<not> is_buy (st a))"
| "book_guard (st, b) (Cancel i) \<longleftrightarrow> True"
| "book_guard (st, b) (Match a) \<longleftrightarrow> live (st a) \<and> fresh_order st b a \<and>
     side_room b (is_buy (st a)) (o_price (st a))"

lemma best_ok_index [simp]: "best_ok (b\<lparr>ob_index := i\<rparr>) = best_ok b"
  by (simp add: best_ok_def first_price_def split: list.split)

lemma cancel_order_safe:
  assumes "book_inv st b"
  shows "\<exists>r st' b'. cancel_order i st b = Inr (r, st', b') \<and> book_inv st' b' \<and>
    (\<forall>s. level_prices b' s \<subseteq> level_prices b s)"
proof (cases "ob_index b i")
  case None
  then show ?thesis using assms by (auto simp: cancel_order_unknown)
next
  case (Some loc)
  show ?thesis
  proof (cases "ob_p2l b (loc_price loc)")
    case None
    then show ?thesis
      using cancel_order_no_level(2,3) [OF _ Some None] assms
      by (auto simp: book_inv_def)
  next
    case (Some l)
    then show ?thesis
      using cancel_order_ok [OF assms \<open>ob_index b i = Some loc\<close>] by (metis option.distinct(1))
  qed
qed

lemma book_step_safe:
  assumes "case_prod book_inv s" "book_guard s x"
  shows "\<exists>s'. book_step s x = Some s' \<and> case_prod book_inv s'"
proof -
  obtain st b where s: "s = (st, b)" by (cases s)
  have inv: "book_inv st b" using assms(1) s by simp
  show ?thesis
  proof (cases x)
    case (Write a y)
    then show ?thesis using write_unseen(1) [OF inv] assms(2) s by simp
  next
    case (Add a)
    then have g: "live (st a)" "fresh_order st b a" "has_room b (o_price (st a))"
      "\<And>l. l \<in> set (levels_of (\<not> is_buy (st a)) b) \<Longrightarrow> lprice b l \<noteq> o_price (st a)"
      using assms(2) s by (force simp: level_prices_def)+
    show ?thesis by (rule add_order_inv [OF inv g], assumption) (simp add: s Add)
  next
    case (Cancel i)
    then show ?thesis using cancel_order_safe [OF inv, of i] s by auto
  next
    case (Match a)
    then have g: "live (st a)" "fresh_order st b a" "side_room b (is_buy (st a)) (o_price (st a))"
      using assms(2) s by auto
    show ?thesis by (rule book_match_ok [OF inv refl g, where fs = "[]"]) (simp add: s Match)
  qed
qed

interpretation book_runs: safe_system book_step book_guard "case_prod book_inv"
  by unfold_locales (rule book_step_safe)

subsection \<open>The abstract book seen from the concrete one\<close>

lemma side_book_entry:
  assumes "y \<in> set (side_book st b s)"
  shows "live (st (entry_order y))" "snd y = o_remaining (st (entry_order y))"
    "\<exists>l \<in> set (levels_of s b). entry_order y \<in> set (entries (lv b l)) \<and> entry_price y = lprice b l"
proof -
  obtain l where l: "l \<in> set (levels_of s b)" "y \<in> set (block st b l)"
    using assms by (auto simp: side_book_def)
  then obtain a q where y: "y = ((lprice b l, a), q)" "(a, q) \<in> set (level_abs st (lv b l))"
    by (auto simp: block_def)
  have "a \<in> set (entries (lv b l))"
    using y(2) level_abs_entries [of st "lv b l"] by force
  then show "live (st (entry_order y))" "snd y = o_remaining (st (entry_order y))"
    "\<exists>l \<in> set (levels_of s b). entry_order y \<in> set (entries (lv b l)) \<and> entry_price y = lprice b l"
    using l(1) y level_abs_live [OF y(2)] by (auto simp: entry_order_def entry_price_def)
qed

lemma side_book_distinct:
  assumes ok: "book_ok st b"
  shows "distinct (map entry_order (side_book st b s))"
proof -
  have shape: "book_shape b" and ord: "book_orders st b" using ok by (simp_all add: book_ok_def)
  have blk: "map entry_order (block st b l) = live_queue st (lv b l)" for l
    by (simp add: block_def level_abs_def entry_order_def comp_def)
  have "distinct (map entry_order (concat (map (block st b) ls)))"
    if "distinct ls" "set ls \<subseteq> set (levels_of s b)" for ls
    using that
  proof (induction ls)
    case (Cons l ls)
    have l: "l \<in> set (levels_of s b)" using Cons.prems by simp
    have "a \<notin> set (live_queue st (lv b l'))"
      if "a \<in> set (live_queue st (lv b l))" "l' \<in> set ls" for a l'
      using entries_disjoint [OF shape ord in_all_levels [OF l] in_all_levels, of l' s a] that Cons.prems
      by (auto simp: live_queue_def)
    then have "set (live_queue st (lv b l)) \<inter> set (map entry_order (concat (map (block st b) ls))) = {}"
      unfolding map_concat map_map comp_def blk by auto
    moreover have "distinct (live_queue st (lv b l))"
      using book_ordersD(1) [OF ord l] by (simp add: live_queue_def level_okD)
    ultimately show ?case using Cons by (simp add: blk)
  qed simp
  moreover have "distinct (levels_of s b)"
    using book_shapeD(1) [OF shape] by (simp add: distinct_all_levels [of b s])
  ultimately show ?thesis by (simp add: side_book_def)
qed

text \<open>The depth counter of a side is the quantity of its abstract book.\<close>

lemma depth_side_book:
  assumes "book_ok st b"
  shows "depth_of s b = sum_list (map snd (side_book st b s))"
proof -
  have "sum_list (map snd (block st b l)) = pl_total (lv b l)" if "l \<in> set (levels_of s b)" for l
    using level_total_abs [of st "lv b l"] that assms
    by (simp add: book_ok_def book_orders_def block_def comp_def case_prod_beta)
  then have "sum_list (map snd (concat (map (block st b) ls))) = (\<Sum>l\<leftarrow>ls. pl_total (lv b l))"
    if "set ls \<subseteq> set (levels_of s b)" for ls
    using that by (induction ls) simp_all
  then show ?thesis using assms by (simp add: book_ok_def book_depth_def side_book_def)
qed

lemma sum_insert_priority:
  "sum_list (map snd (insert_priority s x xs)) = snd x + sum_list (map snd xs)"
  by (simp add: insert_priority_def) (induction xs; simp add: algebra_simps)

lemma match_fills_earlier:
  "distinct (map fst xs) \<Longrightarrow> i < j \<Longrightarrow> j < length xs \<Longrightarrow>
    fst (xs ! j) \<in> fst ` set (match_fills xs q) \<Longrightarrow> xs ! i \<in> set (match_fills xs q)"
proof (induction xs q arbitrary: i j rule: match_left.induct)
  case (2 a r xs q)
  obtain j' where j: "j = Suc j'" "j' < length xs" using 2(3,4) by (cases j) auto
  have aj: "fst (xs ! j') \<noteq> a" using 2(2) j(2) nth_mem by fastforce
  have q: "q \<noteq> 0" "r \<le> q" using 2(5) aj j by (auto split: if_splits)
  show ?case
  proof (cases i)
    case (Suc i')
    then show ?thesis using 2 q j aj by auto
  qed (use q in simp)
qed simp

lemma distinct_entry_keys: "distinct (map entry_order xs) \<Longrightarrow> distinct (map fst xs)"
proof -
  have "map entry_order xs = map snd (map fst xs)" by (simp add: entry_order_def)
  then show "distinct (map entry_order xs) \<Longrightarrow> distinct (map fst xs)" by (metis distinct_map)
qed

lemma trades_map:
  "fst ` set (trades s p q xs) \<subseteq> entry_order ` set (takeWhile (crosses s p) xs)"
  using match_fills_subset [of "takeWhile (crosses s p) xs" q]
  by (force simp: trades_def entry_order_def)

lemma trades_distinct:
  assumes "distinct (map entry_order xs)"
  shows "distinct (map fst (trades s p q xs))"
proof -
  let ?C = "takeWhile (crosses s p) xs"
  have "distinct (map entry_order ?C)"
    using assms by (metis distinct_append map_append takeWhile_dropWhile_id)
  then have inj: "inj_on entry_order (set ?C)" and d: "distinct ?C"
    by (auto simp: distinct_map)
  have s: "inj_on snd (set (map fst ?C))"
    using inj by (force simp: inj_on_def entry_order_def)
  have "distinct (map fst ?C)"
    using d inj by (force simp: distinct_map inj_on_def entry_order_def)
  then have "distinct (map fst (match_fills ?C q))" by (rule match_fills_distinct)
  moreover have "inj_on snd (set (map fst (match_fills ?C q)))"
    using s match_fills_subset by (rule inj_on_subset)
  moreover have "map fst (trades s p q xs) = map snd (map fst (match_fills ?C q))"
    by (simp add: trades_def entry_order_def)
  ultimately show ?thesis by (simp only: distinct_map)
qed

lemma trades_sum:
  "sum_list (map (unat \<circ> snd) (trades s p q xs)) + unat (left_over s p q xs) = unat q"
  using match_fills_total_nat [of "takeWhile (crosses s p) xs" q]
  by (simp add: trades_def left_over_def comp_def)

lemma match_fills_nonzero:
  "(\<And>y. y \<in> set xs \<Longrightarrow> snd y \<noteq> 0) \<Longrightarrow> y \<in> set (match_fills xs q) \<Longrightarrow> snd y \<noteq> 0"
  by (induction xs q rule: match_left.induct) (fastforce split: if_splits)+

text \<open>Nothing traded exactly if everything is left over.\<close>

lemma trades_nonzero: "y \<in> set (trades s p q (side_book st b t)) \<Longrightarrow> snd y \<noteq> 0"
proof -
  assume "y \<in> set (trades s p q (side_book st b t))"
  then obtain z where z: "z \<in> set (match_fills (takeWhile (crosses s p) (side_book st b t)) q)" "snd y = snd z"
    by (auto simp: trades_def)
  have "snd z \<noteq> 0"
  proof (rule match_fills_nonzero [OF _ z(1)])
    show "snd x \<noteq> 0" if "x \<in> set (takeWhile (crosses s p) (side_book st b t))" for x
      using side_book_entry(1,2) [of x st b t] set_takeWhileD [OF that] by (auto simp: live_def)
  qed
  then show "snd y \<noteq> 0" by (simp add: z(2))
qed

lemma trades_Nil_iff:
  "trades s p q (side_book st b t) = [] \<longleftrightarrow> left_over s p q (side_book st b t) = q"
proof (cases "trades s p q (side_book st b t)")
  case Nil
  then show ?thesis using trades_sum [of s p q "side_book st b t"] by (simp add: word_unat_eq_iff)
next
  case (Cons y ys)
  then have "snd y \<noteq> 0" using trades_nonzero [of y s p q st b t] by simp
  then show ?thesis
    using trades_sum [of s p q "side_book st b t"] Cons by (auto simp: unat_eq_0)
qed

lemma untraded_sum:
  "sum_list (map snd (trades s p q xs)) + sum_list (map snd (untraded s p q xs))
    = sum_list (map snd xs)"
proof -
  have "sum_list (map snd xs) = sum_list (map snd (takeWhile (crosses s p) xs))
      + sum_list (map snd (dropWhile (crosses s p) xs))"
    by (metis map_append sum_list_append takeWhile_dropWhile_id)
  moreover have "sum_list (map snd (trades s p q xs))
      + sum_list (map snd (match_rest (takeWhile (crosses s p) xs) q))
      = sum_list (map snd (takeWhile (crosses s p) xs))"
    using match_rest_sum [of "takeWhile (crosses s p) xs" q] by (simp add: trades_def comp_def)
  ultimately show ?thesis by (simp add: untraded_def algebra_simps)
qed

lemma trades_earlier:
  assumes d: "distinct (map entry_order xs)" and ij: "i < j" "j < length xs"
    and t: "entry_order (xs ! j) \<in> fst ` set (trades s p q xs)"
  shows "(entry_order (xs ! i), snd (xs ! i)) \<in> set (trades s p q xs)" "crosses s p (xs ! j)"
proof -
  let ?C = "takeWhile (crosses s p) xs"
  obtain y where y: "y \<in> set ?C" "entry_order y = entry_order (xs ! j)"
    using t trades_map [of s p q xs] by auto
  then have "y = xs ! j"
    using d ij(2) set_takeWhileD [OF y(1)] by (auto simp: distinct_map inj_on_def)
  with y(1) have mem: "xs ! j \<in> set ?C" by simp
  then show "crosses s p (xs ! j)" by (rule set_takeWhileD [THEN conjunct2])
  have dx: "distinct xs" using d by (simp add: distinct_map)
  have j: "j < length ?C"
  proof (rule ccontr)
    assume "\<not> j < length ?C"
    then have "drop (length ?C) xs ! (j - length ?C) = xs ! j" "j - length ?C < length (drop (length ?C) xs)"
      using ij(2) by auto
    then have "xs ! j \<in> set (drop (length ?C) xs)" by (metis nth_mem)
    then have "xs ! j \<in> set (dropWhile (crosses s p) xs)" by (simp add: dropWhile_eq_drop)
    then show False
      using mem dx by (metis IntI distinct_append empty_iff takeWhile_dropWhile_id)
  qed
  have n: "?C ! j = xs ! j" "?C ! i = xs ! i"
    using j ij(1) by (simp_all add: takeWhile_nth)
  have dC: "distinct (map fst ?C)"
    using distinct_entry_keys [OF d] by (metis distinct_append map_append takeWhile_dropWhile_id)
  obtain m where m: "m \<in> set (match_fills ?C q)" "entry_order m = entry_order (xs ! j)"
    using t by (auto simp: trades_def)
  then obtain z where z: "z \<in> set ?C" "fst z = fst m"
    using match_fills_subset [of ?C q] by (fastforce simp: image_iff)
  then have "entry_order z = entry_order (xs ! j)" using m(2) by (simp add: entry_order_def)
  then have "z = xs ! j"
    using d ij(2) set_takeWhileD [OF z(1)] by (auto simp: distinct_map inj_on_def)
  then have "fst (?C ! j) \<in> fst ` set (match_fills ?C q)" using z(2) m(1) n by force
  then have "?C ! i \<in> set (match_fills ?C q)" by (rule match_fills_earlier [OF dC ij(1) j])
  then show "(entry_order (xs ! i), snd (xs ! i)) \<in> set (trades s p q xs)"
    by (simp add: trades_def n image_iff) (metis)
qed

end
