(* ===== verification/Order_Book_Props.thy ===== *)
theory Order_Book_Props
  imports Order_Book_Spec
begin

text \<open>
  The properties of the order book, each with a run on concrete orders, and the situations
  that its operations do not cover.
\<close>

subsection \<open>Concrete orders and runs\<close>

definition demo_order :: "u64 \<Rightarrow> order_side \<Rightarrow> i64 \<Rightarrow> u32 \<Rightarrow> order" where
  "demo_order i s p q = default_order\<lparr>o_order_id := i, o_side := s, o_price := p,
     o_quantity := q, o_remaining := q\<rparr>"

definition demo_store :: store where
  "demo_store = (\<lambda>_. default_order)(10 := demo_order 11 SELL 100 5, 20 := demo_order 12 SELL 101 7,
     30 := demo_order 13 BUY 101 8, 40 := demo_order 14 SELL 100 5, 50 := demo_order 15 BUY 100 5)"

definition demo_book :: order_book where
  "demo_book = (case run_ops book_step [Add 10, Add 20] (demo_store, new_book ''ABC'') of
     Some (_, b) \<Rightarrow> b | None \<Rightarrow> new_book ''ABC'')"

lemmas run_defs = add_order_def get_level_def find_level_def alloc_level_def insert_level_def
  deref_def new_book_def demo_store_def demo_order_def default_order_def is_buy_def Let_def
  levels_of_def set_levels_def lower_bound_loop.simps level_cmp_def before_def new_level_def
  level_add_order_def push_slot_def ring_next_eq set_level_def index_order_def set_depth_def
  depth_of_def update_best_prices_def best_price_def bump_sequence_def

lemmas match_run_defs = book_match_def beyond_limit_def sweep.simps match_order_def
  match_loop.simps advance.simps slot_live_def is_active_def clear_head_def pop_level_def
  delete_level_def level_empty_def rest_order_def apply_fill_def take_remaining_def
  add_filled_def upd_def cancel_order_def remove_order_def cancel_def remove_level_def min_def

lemma demo_book_eq:
  "demo_book = \<lparr>ob_symbol = strncpy zero_symbol ''ABC'' 7, ob_sequence = 2,
     ob_best_bid = 0, ob_best_ask = 100, ob_bid_depth = 0, ob_ask_depth = 12,
     ob_bids = [], ob_asks = [0, Suc 0],
     ob_index = [11 \<mapsto> \<lparr>loc_price = 100, loc_is_bid = False, loc_order = 10\<rparr>,
                 12 \<mapsto> \<lparr>loc_price = 101, loc_is_bid = False, loc_order = 20\<rparr>],
     ob_p2l = [100 \<mapsto> 0, 101 \<mapsto> Suc 0],
     ob_heap = [0 \<mapsto> \<lparr>pl_price = 100, pl_buffer = [0 \<mapsto> 10], pl_head = 0, pl_tail = 1,
                      pl_total = 5, pl_size = 1\<rparr>,
                Suc 0 \<mapsto> \<lparr>pl_price = 101, pl_buffer = [0 \<mapsto> 20], pl_head = 0, pl_tail = 1,
                      pl_total = 7, pl_size = 1\<rparr>],
     ob_fresh = Suc (Suc 0)\<rparr>"
  by (simp add: demo_book_def run_defs)

lemma demo_guard: "run_guard book_step book_guard [Add 10, Add 20] (demo_store, new_book ''ABC'')"
  by (simp add: run_defs live_def is_active_def fresh_order_def has_room_def all_levels_def
      level_prices_def ring_len_def lprice_def lv_def entries_def slots_def)

lemma demo_inv: "book_inv demo_store demo_book"
proof -
  have "\<exists>s'. run_ops book_step [Add 10, Add 20] (demo_store, new_book ''ABC'') = Some s' \<and>
      case_prod book_inv s'"
    by (rule book_runs.run_safe) (simp add: book_inv_new, rule demo_guard)
  moreover have "run_ops book_step [Add 10, Add 20] (demo_store, new_book ''ABC'')
      = Some (demo_store, demo_book)"
    by (simp add: demo_book_def run_defs)
  ultimately show ?thesis by simp
qed

lemma demo_entries:
  "entries (lv demo_book 0) = [10]" "entries (lv demo_book (Suc 0)) = [20]"
  by (simp_all add: demo_book_eq lv_def entries_def slots_def ring_len_def)

lemma demo_levels:
  "ob_asks demo_book = [0, Suc 0]" "ob_bids demo_book = []"
  "lprice demo_book 0 = 100" "lprice demo_book (Suc 0) = 101"
  by (simp_all add: demo_book_eq lprice_def lv_def)

lemma demo_fresh:
  assumes "a \<notin> {10, 20}" "o_order_id (demo_store a) \<notin> {11, 12}"
  shows "fresh_order demo_store demo_book a"
proof -
  have "set (all_levels demo_book) = {0, Suc 0}"
    by (simp add: demo_book_eq all_levels_def)
  then show ?thesis
    using assms by (simp add: fresh_order_def demo_entries) (simp add: demo_book_eq split: if_splits)
qed

lemma demo_side_room: "side_room demo_book True p"
  by (simp add: side_room_def demo_book_eq)

subsection \<open>Matching\<close>

text \<open>
  C1: \<open>OrderBook::match\<close> implements the abstract price-time matching.  Called on a live
  order that the book has not seen, with room for it on its own side, it returns (no fault,
  no endless loop); it appends to the fills exactly the trades of the specification
  (the crossing prefix of the opposite side, best price first, oldest first, as far as the
  quantity goes); the opposite side keeps what was not traded, the remainder rests on the
  own side behind every order of at least its priority; and the invariant holds again.
\<close>

theorem match_implements_price_time:
  assumes "book_inv st b" "live (st a)" "fresh_order st b a"
    and "side_room b (is_buy (st a)) (o_price (st a))"
  shows "let s = is_buy (st a); p = o_price (st a); q = o_remaining (st a);
             opp = side_book st b (\<not> s); left = left_over s p q opp;
             st' = apply_fills a (trades s p q opp) st
         in \<exists>b'. book_match (Some a) st b fs
              = Some (Inr (if left > 0 then Some a else None, st', b',
                           fs @ fills_of p (trades s p q opp))) \<and>
            book_inv st' b' \<and> ob_sequence b' = ob_sequence b + 1 \<and>
            side_book st' b' (\<not> s) = untraded s p q opp \<and>
            side_book st' b' s = (if left = 0 then side_book st b s
                                  else insert_priority s ((p, a), left) (side_book st b s)) \<and>
            o_remaining (st' a) = left"
  unfolding Let_def
  by (rule book_match_ok [OF assms(1) refl assms(2-4), where fs = fs]) blast

text \<open>The run of the example: 8 at 101 trade 5 at the order at 100 and 3 at the one at 101.\<close>

lemma demo_live: "live (demo_store 30)" "is_buy (demo_store 30)" "o_price (demo_store 30) = 101"
  by (simp_all add: run_defs live_def is_active_def)

lemma demo_buys: "is_buy (demo_store 30) = True"
  by (simp add: demo_live)

lemma demo_fresh_30: "fresh_order demo_store demo_book 30"
  by (rule demo_fresh) (simp_all add: demo_store_def demo_order_def default_order_def)

lemma demo_sides:
  "side_book demo_store demo_book False = [((100, 10), 5), ((101, 20), 7)]"
  "side_book demo_store demo_book True = []"
  by (simp_all add: side_book_def block_def level_abs_def live_queue_def demo_entries demo_levels)
    (simp add: run_defs live_def is_active_def)

theorem match_implements_price_time_witness:
  "\<exists>st' b'. book_match (Some 30) demo_store demo_book []
     = Some (Inr (None, st', b', [\<lparr>fill_order = 10, fill_quantity = 5, fill_price = 101\<rparr>,
                                  \<lparr>fill_order = 20, fill_quantity = 3, fill_price = 101\<rparr>])) \<and>
     book_inv st' b' \<and> side_book st' b' False = [((101, 20), 4)]"
proof -
  have q: "o_remaining (demo_store 30) = 8" by (simp add: demo_store_def demo_order_def)
  have t: "trades True 101 8 [((100, 10), 5), ((101, 20), 7)] = [(10, 5), (20, 3)]"
    "untraded True 101 8 [((100, 10), 5), ((101, 20), 7)] = [((101, 20), 4)]"
    "left_over True 101 8 [((100, 10), 5), ((101, 20), 7)] = 0"
    by (simp_all add: trades_def untraded_def left_over_def crosses_def before_def entry_price_def
        entry_order_def)
  show ?thesis
    using match_implements_price_time [OF demo_inv demo_live(1) demo_fresh_30, of "[]"]
    by (simp add: demo_live demo_side_room demo_sides q t Let_def) blast
qed

text \<open>
  C10: price-time priority.  If an order \<open>y\<close> of the opposite side gets a fill, then its price
  does not lie beyond the limit of the incoming order, and every order \<open>x\<close> that stands
  before it (a better price, or the same price and an earlier arrival) has been filled to
  the last share.
\<close>

theorem match_price_time_priority:
  assumes "book_inv st b" "live (st a)" "fresh_order st b a"
    and "side_room b (is_buy (st a)) (o_price (st a))"
    and "book_match (Some a) st b [] = Some (Inr (r, st', b', fills))"
    and "xs = side_book st b (\<not> is_buy (st a))" "i < j" "j < length xs"
    and "f \<in> set fills" "fill_order f = entry_order (xs ! j)"
  shows "o_remaining (st' (entry_order (xs ! i))) = 0 \<and>
    \<not> before (\<not> is_buy (st a)) (o_price (st a)) (entry_price (xs ! j))"
proof -
  let ?s = "is_buy (st a)" and ?p = "o_price (st a)" and ?q = "o_remaining (st a)"
  let ?ms = "trades ?s ?p ?q xs"
  obtain b1 where m: "book_match (Some a) st b []
      = Some (Inr (if left_over ?s ?p ?q xs > 0 then Some a else None, apply_fills a ?ms st, b1,
                   [] @ fills_of ?p ?ms))"
    using book_match_ok [OF assms(1) refl assms(2-4), where fs = "[]"] assms(6)
    by metis
  then have st': "st' = apply_fills a ?ms st" and fills: "fills = fills_of ?p ?ms"
    using assms(5) by simp_all
  have ok: "book_ok st b" using assms(1) by (simp add: book_inv_def)
  have d: "distinct (map entry_order xs)" unfolding assms(6) by (rule side_book_distinct [OF ok])
  have t: "entry_order (xs ! j) \<in> fst ` set ?ms"
    using assms(9,10) by (auto simp: fills fills_of_def rev_image_eqI)
  note e = trades_earlier [OF d assms(7,8) t]
  have own: "a \<notin> fst ` set ?ms"
  proof
    assume "a \<in> fst ` set ?ms"
    then obtain y where "y \<in> set (takeWhile (crosses ?s ?p) xs)" "entry_order y = a"
      using trades_map [of ?s ?p ?q xs] by auto
    then have "y \<in> set xs" "entry_order y = a" by (auto dest: set_takeWhileD)
    then obtain l where "l \<in> set (levels_of (\<not> ?s) b)" "a \<in> set (entries (lv b l))"
      using side_book_entry(3) [of y st b "\<not> ?s"] assms(6) by auto
    then show False
      using assms(3) by (auto simp: fresh_order_def dest: in_all_levels)
  qed
  have "xs ! i \<in> set xs" using assms(7,8) by simp
  then have "snd (xs ! i) = o_remaining (st (entry_order (xs ! i)))"
    unfolding assms(6) by (rule side_book_entry(2))
  then have "o_remaining (st' (entry_order (xs ! i))) = 0"
    using apply_fills_maker [OF trades_distinct [OF d] own e(1), of st] by (simp add: st')
  with e(2) show ?thesis by (simp add: crosses_def)
qed

lemma demo_match:
  obtains st' b' where "book_match (Some 30) demo_store demo_book []
     = Some (Inr (None, st', b', [\<lparr>fill_order = 10, fill_quantity = 5, fill_price = 101\<rparr>,
                                  \<lparr>fill_order = 20, fill_quantity = 3, fill_price = 101\<rparr>]))"
proof -
  have q: "o_remaining (demo_store 30) = 8" by (simp add: demo_store_def demo_order_def)
  have t: "trades True 101 8 [((100, 10), 5), ((101, 20), 7)] = [(10, 5), (20, 3)]"
    "left_over True 101 8 [((100, 10), 5), ((101, 20), 7)] = 0"
    by (simp_all add: trades_def left_over_def crosses_def before_def entry_price_def entry_order_def)
  show thesis
    by (rule book_match_ok [OF demo_inv demo_buys demo_live(1) demo_fresh_30 demo_side_room, where fs = "[]"])
      (rule that, simp add: demo_live demo_sides q t)
qed

theorem match_price_time_priority_witness:
  "\<exists>r st' b' fills. book_match (Some 30) demo_store demo_book [] = Some (Inr (r, st', b', fills)) \<and>
     o_remaining (st' 10) = 0 \<and> \<not> before False 101 101"
proof -
  obtain st' b' where m: "book_match (Some 30) demo_store demo_book []
     = Some (Inr (None, st', b', [\<lparr>fill_order = 10, fill_quantity = 5, fill_price = 101\<rparr>,
                                  \<lparr>fill_order = 20, fill_quantity = 3, fill_price = 101\<rparr>]))"
    by (rule demo_match)
  show ?thesis
    using match_price_time_priority [OF demo_inv demo_live(1) demo_fresh_30 _ m refl, of 0 1
        "\<lparr>fill_order = 20, fill_quantity = 3, fill_price = 101\<rparr>"] m
    by (simp add: demo_live demo_side_room demo_sides entry_order_def entry_price_def)
qed

text \<open>
  C3: conservation.  The quantities of the fills and what remains of the incoming order add
  up to what it had, exactly (no wrap-around); the opposite depth counter loses what was
  traded and the own one gains what rests; and no order gains or loses shares: its filled and
  remaining quantities keep their sum.
\<close>

theorem match_conserves_quantity:
  assumes "book_inv st b" "live (st a)" "fresh_order st b a"
    and "side_room b (is_buy (st a)) (o_price (st a))"
    and "book_match (Some a) st b [] = Some (Inr (r, st', b', fills))"
  shows "sum_list (map (unat \<circ> fill_quantity) fills) + unat (o_remaining (st' a))
      = unat (o_remaining (st a)) \<and>
    depth_of (\<not> is_buy (st a)) b'
      = depth_of (\<not> is_buy (st a)) b - sum_list (map fill_quantity fills) \<and>
    depth_of (is_buy (st a)) b' = depth_of (is_buy (st a)) b + o_remaining (st' a) \<and>
    (\<forall>x. o_filled (st' x) + o_remaining (st' x) = o_filled (st x) + o_remaining (st x))"
proof -
  let ?s = "is_buy (st a)" and ?p = "o_price (st a)" and ?q = "o_remaining (st a)"
  let ?opp = "side_book st b (\<not> ?s)"
  let ?ms = "trades ?s ?p ?q ?opp" and ?left = "left_over ?s ?p ?q ?opp"
  obtain b1 where m: "book_match (Some a) st b []
      = Some (Inr (if ?left > 0 then Some a else None, apply_fills a ?ms st, b1, [] @ fills_of ?p ?ms))"
    and inv: "book_inv (apply_fills a ?ms st) b1"
    and opp: "side_book (apply_fills a ?ms st) b1 (\<not> ?s) = untraded ?s ?p ?q ?opp"
    and own: "side_book (apply_fills a ?ms st) b1 ?s = (if ?left = 0 then side_book st b ?s
       else insert_priority ?s ((?p, a), ?left) (side_book st b ?s))"
    and left: "o_remaining (apply_fills a ?ms st a) = ?left"
    by (rule book_match_ok [OF assms(1) refl assms(2-4), where fs = "[]"]) blast
  have e: "st' = apply_fills a ?ms st" "fills = fills_of ?p ?ms" "b' = b1"
    using m assms(5) by simp_all
  have f: "map fill_quantity (fills_of ?p ?ms) = map snd ?ms"
    by (simp add: fills_of_def comp_def case_prod_beta)
  then have f': "map (unat \<circ> fill_quantity) (fills_of ?p ?ms) = map (unat \<circ> snd) ?ms"
    by (metis map_map)
  have ok: "book_ok st b" "book_ok (apply_fills a ?ms st) b1" using assms(1) inv e by (simp_all add: book_inv_def)
  have "sum_list (map snd (untraded ?s ?p ?q ?opp))
      = sum_list (map snd ?opp) - sum_list (map snd ?ms)"
    using untraded_sum [of ?s ?p ?q ?opp] by (simp add: algebra_simps)
  then have "depth_of (\<not> ?s) b' = depth_of (\<not> ?s) b - sum_list (map fill_quantity fills)"
    using opp by (simp add: depth_side_book [OF ok(1)] depth_side_book [OF ok(2)] e f)
  moreover have "depth_of ?s b' = depth_of ?s b + o_remaining (st' a)"
    using own left
    by (simp add: depth_side_book [OF ok(1)] depth_side_book [OF ok(2)] e sum_insert_priority)
  moreover have "sum_list (map (unat \<circ> fill_quantity) fills) + unat (o_remaining (st' a)) = unat ?q"
    using trades_sum [of ?s ?p ?q ?opp] by (simp only: e f' left)
  ultimately show ?thesis using e(1) by simp
qed

theorem match_conserves_quantity_witness:
  "\<exists>r st' b' fills. book_match (Some 30) demo_store demo_book [] = Some (Inr (r, st', b', fills)) \<and>
     ob_ask_depth b' = 4 \<and> unat (o_remaining (st' 30)) = 0"
proof -
  obtain st' b' where m: "book_match (Some 30) demo_store demo_book []
     = Some (Inr (None, st', b', [\<lparr>fill_order = 10, fill_quantity = 5, fill_price = 101\<rparr>,
                                  \<lparr>fill_order = 20, fill_quantity = 3, fill_price = 101\<rparr>]))"
    by (rule demo_match)
  have "o_remaining (demo_store 30) = 8" "ob_ask_depth demo_book = 12"
    by (simp_all add: demo_store_def demo_order_def demo_book_eq)
  then show ?thesis
    using match_conserves_quantity [OF demo_inv demo_live(1) demo_fresh_30 _ m] m
    by (simp add: demo_live demo_side_room)
qed

text \<open>The prices of the two sides do not cross.\<close>

definition uncrossed :: "order_book \<Rightarrow> bool" where
  "uncrossed b \<longleftrightarrow> (\<forall>x \<in> level_prices b True. \<forall>y \<in> level_prices b False. x < y)"

lemma uncrossed_before: "uncrossed b \<longleftrightarrow>
    (\<forall>x \<in> level_prices b s. \<forall>y \<in> level_prices b (\<not> s). before (\<not> s) x y)"
  by (cases s) (auto simp: uncrossed_def before_def)

lemma uncrossed_best:
  assumes "uncrossed b" "best_ok b" "ob_bids b \<noteq> []" "ob_asks b \<noteq> []"
  shows "ob_best_bid b < ob_best_ask b"
  using assms
  by (auto simp: uncrossed_def best_ok_def first_price_def level_prices_def neq_Nil_conv)

text \<open>
  C21: matching never leaves the book crossed.  If every bid price was below every ask price,
  this is so afterwards; and where both sides have a level, the published best bid is below
  the published best ask.
\<close>

theorem match_keeps_uncrossed:
  assumes "book_inv st b" "live (st a)" "fresh_order st b a"
    and "side_room b (is_buy (st a)) (o_price (st a))"
    and "book_match (Some a) st b [] = Some (Inr (r, st', b', fills))" "uncrossed b"
  shows "uncrossed b' \<and> (ob_bids b' \<noteq> [] \<and> ob_asks b' \<noteq> [] \<longrightarrow> ob_best_bid b' < ob_best_ask b')"
proof -
  let ?s = "is_buy (st a)" and ?p = "o_price (st a)" and ?q = "o_remaining (st a)"
  let ?opp = "side_book st b (\<not> ?s)"
  let ?ms = "trades ?s ?p ?q ?opp" and ?left = "left_over ?s ?p ?q ?opp"
  obtain b1 where m: "book_match (Some a) st b []
      = Some (Inr (if ?left > 0 then Some a else None, apply_fills a ?ms st, b1, [] @ fills_of ?p ?ms))"
    and inv: "book_inv (apply_fills a ?ms st) b1"
    and prices: "level_prices b1 (\<not> ?s) \<subseteq> level_prices b (\<not> ?s)"
      "level_prices b1 ?s \<subseteq> (if ?left = 0 then level_prices b ?s else insert ?p (level_prices b ?s))"
      "?left \<noteq> 0 \<Longrightarrow> \<forall>x \<in> level_prices b1 (\<not> ?s). before (\<not> ?s) ?p x"
    by (rule book_match_ok [OF assms(1) refl assms(2-4), where fs = "[]"]) blast
  have "b' = b1" using m assms(5) by simp
  moreover have "uncrossed b1"
    using assms(6) prices unfolding uncrossed_before [where s = ?s]
    by (fastforce split: if_splits)
  ultimately show ?thesis using inv uncrossed_best by (simp add: book_inv_def)
qed

theorem match_keeps_uncrossed_witness:
  "\<exists>r st' b' fills. book_match (Some 30) demo_store demo_book [] = Some (Inr (r, st', b', fills)) \<and>
     uncrossed b'"
proof -
  obtain st' b' where m: "book_match (Some 30) demo_store demo_book []
     = Some (Inr (None, st', b', [\<lparr>fill_order = 10, fill_quantity = 5, fill_price = 101\<rparr>,
                                  \<lparr>fill_order = 20, fill_quantity = 3, fill_price = 101\<rparr>]))"
    by (rule demo_match)
  have "uncrossed demo_book" by (simp add: uncrossed_def level_prices_def demo_levels)
  then show ?thesis
    using match_keeps_uncrossed [OF demo_inv demo_live(1) demo_fresh_30 _ m] m
    by (simp add: demo_live demo_side_room)
qed

subsection \<open>Adding and cancelling\<close>

text \<open>
  C12: \<open>OrderBook::add_order\<close> puts a live, unknown order behind every order of its side
  with at least its priority and before all others, leaves the other side alone, counts one
  sequence number, and keeps the invariant (sorted levels, depth counters, index, best
  prices), when its price has room and no level of the other side has that price.
\<close>

theorem add_order_inserts:
  assumes "book_inv st b" "live (st a)" "fresh_order st b a" "has_room b (o_price (st a))"
    and "o_price (st a) \<notin> level_prices b (\<not> is_buy (st a))"
  shows "let s = is_buy (st a); x = ((o_price (st a), a), o_remaining (st a))
         in \<exists>b'. add_order st (Some a) b = Inr (True, b') \<and> book_inv st b' \<and>
              ob_sequence b' = ob_sequence b + 1 \<and>
              side_book st b' s = insert_priority s x (side_book st b s) \<and>
              side_book st b' (\<not> s) = side_book st b (\<not> s)"
proof -
  have opp: "lprice b l \<noteq> o_price (st a)" if "l \<in> set (levels_of (\<not> is_buy (st a)) b)" for l
    using assms(5) that unfolding level_prices_def by (metis imageI)
  show ?thesis
    unfolding Let_def by (rule add_order_inv [OF assms(1-4) opp]) blast+
qed

theorem add_order_inserts_witness:
  "\<exists>b'. add_order demo_store (Some 40) demo_book = Inr (True, b') \<and>
     side_book demo_store b' False = [((100, 10), 5), ((100, 40), 5), ((101, 20), 7)]"
proof -
  have a: "live (demo_store 40)" "is_buy (demo_store 40) = False" "o_price (demo_store 40) = 100"
    "o_remaining (demo_store 40) = 5"
    by (simp_all add: run_defs live_def is_active_def)
  have "fresh_order demo_store demo_book 40"
    by (rule demo_fresh) (simp_all add: demo_store_def demo_order_def default_order_def)
  moreover have "has_room demo_book 100"
    by (simp add: has_room_def demo_book_eq lv_def ring_len_def)
  moreover have "level_prices demo_book True = {}"
    by (simp add: level_prices_def demo_levels)
  ultimately have "\<exists>b'. add_order demo_store (Some 40) demo_book = Inr (True, b') \<and>
      side_book demo_store b' False
        = insert_priority False ((100, 40), 5) (side_book demo_store demo_book False)"
    using add_order_inserts [OF demo_inv a(1)] by (auto simp: a(2,3,4) Let_def)
  then show ?thesis
    by (simp add: demo_sides insert_priority_def before_def entry_price_def)
qed

text \<open>
  C11: \<open>OrderBook::cancel_order\<close> on a known id whose price has a level removes exactly that
  order from the abstract book (both sides keep everything else, in order), marks it
  cancelled and nothing else, forgets its id, and keeps the invariant; the level, when it
  became empty, is deleted, so no price without an order slot stays behind.
\<close>

theorem cancel_order_removes:
  assumes "book_inv st b" "ob_index b i = Some loc" "ob_p2l b (loc_price loc) \<noteq> None"
  shows "let a = loc_order loc; st' = upd a cancel st
         in o_order_id (st a) = i \<and>
            (\<exists>b'. cancel_order i st b = Inr (True, st', b') \<and> book_inv st' b' \<and>
              ob_sequence b' = ob_sequence b + 1 \<and> ob_index b' = (ob_index b)(i := None) \<and>
              (\<forall>s. side_book st' b' s = filter (\<lambda>x. entry_order x \<noteq> a) (side_book st b s)))"
proof -
  have "o_order_id (st (loc_order loc)) = i"
    using assms(1,2) book_index_entry(1) by (auto simp: book_inv_def book_ok_def)
  then show ?thesis
    unfolding Let_def using cancel_order_ok [OF assms] by metis
qed

theorem cancel_order_removes_witness:
  "\<exists>st' b'. cancel_order 11 demo_store demo_book = Inr (True, st', b') \<and>
     side_book st' b' False = [((101, 20), 7)]"
proof -
  have "ob_index demo_book 11 = Some \<lparr>loc_price = 100, loc_is_bid = False, loc_order = 10\<rparr>"
    "ob_p2l demo_book 100 \<noteq> None"
    by (simp_all add: demo_book_eq)
  then show ?thesis
    using cancel_order_removes [OF demo_inv, of 11]
    by (fastforce simp: Let_def demo_sides entry_order_def)
qed

text \<open>
  C9: from a new book, every sequence of creating orders, adding, cancelling and matching,
  each called within its contract, runs to its end without a dangling pointer or an endless
  loop, and ends in a book that satisfies the invariant.
\<close>

theorem book_runs_are_safe:
  assumes "run_guard book_step book_guard ops (st, new_book name)"
  shows "\<exists>st' b'. run_ops book_step ops (st, new_book name) = Some (st', b') \<and> book_inv st' b'"
  using book_runs.run_safe [of "(st, new_book name)" ops] assms book_inv_new by auto

theorem book_runs_are_safe_witness:
  "\<exists>st' b'. run_ops book_step [Add 10, Add 20] (demo_store, new_book ''ABC'') = Some (st', b') \<and>
     book_inv st' b'"
  by (rule book_runs_are_safe [OF demo_guard])

subsection \<open>Recounting and destroying\<close>

lemma sum_totals_eq:
  assumes "book_shape b" "set ls \<subseteq> set (all_levels b)" "ob_heap b' = ob_heap b"
  shows "sum_totals b' ls acc = Inr (acc + sum_list (map (\<lambda>l. pl_total (lv b l)) ls))"
  using assms(2)
proof (induction ls arbitrary: acc)
  case (Cons l ls)
  have "deref b' l = Inr (lv b l)"
    using deref_level [OF assms(1), of l] Cons.prems assms(3) by (simp add: deref_def)
  then show ?case using Cons by (simp add: algebra_simps)
qed simp

lemma recount_inv:
  assumes "book_inv st b"
  shows "update_depth b = Inr b"
proof -
  have shape: "book_shape b" and dep: "book_depth b"
    using assms by (simp_all add: book_inv_def book_ok_def)
  have d: "(\<Sum>l\<leftarrow>ob_bids b. pl_total (lv b l)) = ob_bid_depth b"
    "(\<Sum>l\<leftarrow>ob_asks b. pl_total (lv b l)) = ob_ask_depth b"
    using dep unfolding book_depth_def by (metis levels_of_True_False)+
  have s: "set (ob_bids b) \<subseteq> set (all_levels b)" "set (ob_asks b) \<subseteq> set (all_levels b)"
    by (auto simp: all_levels_def)
  show ?thesis
    by (simp add: update_depth_def sum_totals_eq [OF shape s(1)] sum_totals_eq [OF shape s(2)] d)
qed

lemma depth_of_side:
  assumes "book_inv st b"
  shows "depth_of s b = sum_list (map snd (side_book st b s))"
proof -
  have o: "level_ok st (lv b l)" if "l \<in> set (levels_of s b)" for l
    using assms that by (auto simp: book_inv_def book_ok_def dest: book_ordersD)
  have "map (\<lambda>l. sum_list (map snd (block st b l))) (levels_of s b) = map (\<lambda>l. pl_total (lv b l)) (levels_of s b)"
    using level_total_abs [OF o] by (simp add: block_def comp_def split_beta)
  moreover have split: "sum_list (map snd (concat (map (block st b) ls))) = sum_list (map (\<lambda>l. sum_list (map snd (block st b l))) ls)"
    for ls
    by (induction ls) simp_all
  ultimately have "sum_list (map snd (side_book st b s)) = sum_list (map (\<lambda>l. pl_total (lv b l)) (levels_of s b))"
    by (simp only: side_book_def split)
  then show ?thesis using assms by (simp add: book_inv_def book_ok_def book_depth_def)
qed

text \<open>
  C38: the depth counters are exact.  The operations add to and subtract from the two depths; after
  any sequence of creating orders, adding, cancelling and matching from a new book, each called
  within its contract, either depth is the sum of the remaining quantities of the orders that rest
  on its side, and \<open>OrderBook::update_depth\<close>, which recounts both from the levels, changes nothing.
\<close>

theorem depths_stay_exact:
  assumes "run_guard book_step book_guard ops (st, new_book name)"
    "run_ops book_step ops (st, new_book name) = Some (st', b)"
  shows "ob_bid_depth b = sum_list (map snd (side_book st' b True)) \<and>
    ob_ask_depth b = sum_list (map snd (side_book st' b False)) \<and> update_depth b = Inr b"
proof -
  have inv: "book_inv st' b"
    using book_runs.run_safe [of "(st, new_book name)" ops] assms book_inv_new by auto
  show ?thesis
    using depth_of_side [OF inv, of True] depth_of_side [OF inv, of False] recount_inv [OF inv]
    by (simp add: depth_of_def)
qed

theorem depths_stay_exact_witness:
  "ob_bid_depth demo_book = sum_list (map snd (side_book demo_store demo_book True)) \<and>
   ob_ask_depth demo_book = sum_list (map snd (side_book demo_store demo_book False)) \<and>
   update_depth demo_book = Inr demo_book \<and> ob_ask_depth demo_book = 12"
proof -
  have r: "run_ops book_step [Add 10, Add 20] (demo_store, new_book ''ABC'') = Some (demo_store, demo_book)"
    by (simp add: demo_book_def run_defs)
  show ?thesis using depths_stay_exact [OF demo_guard r] by (simp add: demo_book_eq)
qed

text \<open>
  The destructor, which deletes the levels that the price map names, frees every live
  level of a book that satisfies the invariant: no level leaks.
\<close>

theorem destroy_book_frees_all:
  assumes "book_inv st b"
  shows "destroy_book b = Map.empty"
proof
  fix l
  have shape: "book_shape b" using assms by (simp add: book_inv_def book_ok_def)
  show "destroy_book b l = None"
  proof (cases "ob_heap b l")
    case (Some pl)
    then have "l \<in> set (all_levels b)" using book_shapeD(2) [OF shape] by auto
    then have "ob_p2l b (lprice b l) = Some l" using book_shapeD(5) [OF shape] by simp
    then have "l \<in> ran (ob_p2l b)" by (rule ranI)
    then show ?thesis by (simp add: destroy_book_def restrict_map_def)
  qed (simp add: destroy_book_def restrict_map_def)
qed

theorem destroy_book_frees_all_witness: "destroy_book demo_book = Map.empty"
  by (rule destroy_book_frees_all [OF demo_inv])

subsection \<open>Outside the contract\<close>

text \<open>
  The two sides share one price map.  A bid added at the price of a resting ask lands in
  the ask level; cancelling both orders deletes the level while the vector of asks still
  points to it, and the best price is then read through the dangling pointer.
\<close>

lemma shared_level_dangles:
  "run_ops book_step [Add 10, Add 50, Cancel 11] (demo_store, new_book ''ABC'') \<noteq> None \<and>
   (case run_ops book_step [Add 10, Add 50, Cancel 11] (demo_store, new_book ''ABC'') of
      Some (st, b) \<Rightarrow> cancel_order 15 st b = Inl Dangling_Pointer | None \<Rightarrow> False)"
  by (simp add: run_defs match_run_defs)

text \<open>
  Cancelled orders leave the ring only from its head.  When the orders before a
  cancelled one trade away, its level stays in the book: the best ask is the price of a
  level with nothing to sell, while the depth is zero.
\<close>

theorem ghost_best_price:
  "case run_ops book_step [Match 10, Match 40, Cancel 14, Match 50] (demo_store, new_book ''ABC'') of
     Some (st, b) \<Rightarrow> ob_best_ask b = 100 \<and> ob_ask_depth b = 0 \<and> length (ob_asks b) = 1 \<and>
       side_book st b False = []
   | None \<Rightarrow> False"
  by (simp add: run_defs match_run_defs side_book_def block_def level_abs_def live_queue_def
      entries_def slots_def ring_len_def lv_def live_def)

text \<open>
  A filled order stays in the index.  Cancelling it while its price still has a level
  reports success and marks the completely filled order as cancelled.
\<close>

theorem cancel_after_fill_succeeds:
  "case run_ops book_step [Match 10, Match 40, Match 50] (demo_store, new_book ''ABC'') of
     Some (st, b) \<Rightarrow> o_filled (st 10) = o_quantity (st 10) \<and> o_status (st 10) = NEW \<and>
       (case cancel_order 11 st b of
          Inr (ok, st', b') \<Rightarrow> ok \<and> o_status (st' 10) = CANCELLED | Inl _ \<Rightarrow> False)
   | None \<Rightarrow> False"
  by (simp add: run_defs match_run_defs)

subsection \<open>The 128th order of a price\<close>

text \<open>A level whose ring looks empty while its size is not zero traps the sweep.\<close>

definition trapped :: "bool \<Rightarrow> addr \<Rightarrow> store \<Rightarrow> order_book \<Rightarrow> bool" where
  "trapped s inc st b \<longleftrightarrow> (\<exists>l ls pl. levels_of (\<not> s) b = l # ls \<and> ob_heap b l = Some pl \<and>
     pl_head pl = pl_tail pl \<and> pl_size pl \<noteq> 0 \<and> o_remaining (st inc) \<noteq> 0 \<and>
     \<not> beyond_limit s pl (st inc))"

lemma set_level_same: "ob_heap b l = Some pl \<Longrightarrow> set_level l pl b = b"
  by (simp add: set_level_def fun_upd_idem)

lemma set_depth_same: "set_depth s (depth_of s b) b = b"
  by (simp add: set_depth_def depth_of_def)

lemma sweep_trapped:
  assumes "trapped s inc st b"
  shows "sweep s inc st b fs = None"
proof -
  have "\<not> trapped s inc st b" if "sweep s inc st b fs = Some y" for y
  proof (rule sweep.raw_induct [where P = "\<lambda>s inc st b fs y. \<not> trapped s inc st b", OF _ that])
    fix sweep' s inc st b fs y
    assume IH: "\<And>s inc st b fs y. sweep' s inc st b fs = Some y \<Longrightarrow> \<not> trapped s inc st b"
      and step: "(case levels_of (\<not> s) b of [] \<Rightarrow> Some (Inr (st, b, fs))
        | l # x \<Rightarrow>
          if o_remaining (st inc) = 0 then Some (Inr (st, b, fs))
          else case deref b l of Inl e \<Rightarrow> Some (Inl e)
               | Inr level \<Rightarrow>
                   if beyond_limit s level (st inc) then Some (Inr (st, b, fs))
                   else Option.bind (match_order (Some inc) st level fs)
                         (\<lambda>(_, st1, level1, fills1).
                             let b1 = set_level l level1 b;
                                 diff = pl_total level - pl_total level1;
                                 b2 = set_depth (\<not> s) (depth_of (\<not> s) b1 - diff) b1;
                                 b3 = if level_empty level1 then pop_level (\<not> s) l level1 b2 else b2
                             in sweep' s inc st1 b3 fills1)) = Some y"
    show "\<not> trapped s inc st b"
    proof
      assume "trapped s inc st b"
      then obtain l ls pl where t: "levels_of (\<not> s) b = l # ls" "ob_heap b l = Some pl"
          "pl_head pl = pl_tail pl" "pl_size pl \<noteq> 0" "o_remaining (st inc) \<noteq> 0"
          "\<not> beyond_limit s pl (st inc)"
        by (auto simp: trapped_def)
      have "match_order (Some inc) st pl fs = Some (Some inc, st, pl, fs)"
        using t(3,5) by (simp add: match_order_def match_loop_empty advance_empty)
      then have "sweep' s inc st b fs = Some y"
        using step t
        by (simp add: deref_def set_level_same set_depth_same level_empty_def Let_def)
      then show False using IH \<open>trapped s inc st b\<close> by blast
    qed
  qed
  then show ?thesis using assms by (cases "sweep s inc st b fs") auto
qed

definition crowd_store :: store where
  "crowd_store = (\<lambda>a. if a < 128 then demo_order (of_nat a) SELL 100 1 else demo_order 999 BUY 100 1)"

lemma crowd_order:
  "a < 128 \<Longrightarrow> live (crowd_store a)" "a < 128 \<Longrightarrow> o_price (crowd_store a) = 100"
  "a < 128 \<Longrightarrow> \<not> is_buy (crowd_store a)" "a < 128 \<Longrightarrow> o_order_id (crowd_store a) = of_nat a"
  "a < 128 \<Longrightarrow> o_remaining (crowd_store a) = 1"
  by (simp_all add: crowd_store_def demo_order_def default_order_def live_def is_active_def is_buy_def)

lemma crowd_id: "a < 128 \<Longrightarrow> a' < 128 \<Longrightarrow> (of_nat a :: u64) = of_nat a' \<Longrightarrow> a = a'"
proof -
  have "unat (of_nat a :: u64) = a" if "a < 128" for a
    using that by (simp add: unat_of_nat)
  then show "a < 128 \<Longrightarrow> a' < 128 \<Longrightarrow> (of_nat a :: u64) = of_nat a' \<Longrightarrow> a = a'" by metis
qed

text \<open>The book of \<open>n\<close> orders at 100: one ask level, the orders in their order of arrival.\<close>

definition crowded :: "nat \<Rightarrow> order_book \<Rightarrow> laddr \<Rightarrow> bool" where
  "crowded n b l \<longleftrightarrow> book_inv crowd_store b \<and> ob_bids b = [] \<and> ob_asks b = [l] \<and>
     lprice b l = 100 \<and> entries (lv b l) = [0..<n] \<and>
     (\<forall>i loc. ob_index b i = Some loc \<longrightarrow> (\<exists>a < n. i = of_nat a \<and> loc_order loc = a))"

lemma crowd_add:
  assumes "crowded n b l" "n < 128"
  defines "b1 \<equiv> put_order False l n crowd_store b"
  shows "add_order crowd_store (Some n) b = Inr (True, bump_sequence (b1\<lparr>ob_best_bid := first_price b1 (ob_bids b1) 0,
    ob_best_ask := first_price b1 (ob_asks b1) int64_max\<rparr>))"
proof -
  have shape: "book_shape b" and l: "l \<in> set (all_levels b)" and p: "lprice b l = 100"
    using assms(1) by (auto simp: crowded_def book_inv_def book_ok_def all_levels_def)
  have "ob_p2l b 100 = Some l" using book_shapeD(5) [OF shape] l p by simp
  then have g: "get_level (o_price (crowd_store n)) (is_buy (crowd_store n)) b = Inr (l, b)"
    using crowd_order(2) [OF assms(2)] by (simp add: get_level_def find_level_def)
  have "book_shape b1"
    using book_shape_set_level [OF shape l, of "level_add_order crowd_store (Some n) (lv b l)"]
    by (simp add: b1_def put_order_def lprice_def)
  then show ?thesis
    using add_order_put [where st = crowd_store and a = n, OF g deref_level [OF shape l]] crowd_order(3) [OF assms(2)]
      update_best_prices_ok [of b1]
    by (simp add: b1_def)
qed

lemma bump_fields [simp]:
  "ob_bids (bump_sequence b) = ob_bids b" "ob_asks (bump_sequence b) = ob_asks b"
  "lv (bump_sequence b) = lv b" "ob_index (bump_sequence b) = ob_index b"
  "ob_heap (bump_sequence b) = ob_heap b" "ob_best_ask (bump_sequence b) = ob_best_ask b"
  "ob_ask_depth (bump_sequence b) = ob_ask_depth b"
  by (simp_all add: bump_sequence_def)

lemma crowd_Suc:
  assumes c: "crowded n b l" and n: "n < 127"
  shows "\<exists>b'. add_order crowd_store (Some n) b = Inr (True, b') \<and> crowded (Suc n) b' l"
proof -
  let ?b = "put_order False l n crowd_store b"
  have ok: "book_ok crowd_store b" and ne: "nonempty_levels b" and p: "lprice b l = 100"
    and ls: "ob_bids b = []" "ob_asks b = [l]" and e: "entries (lv b l) = [0..<n]"
    and ix: "\<And>i loc. ob_index b i = Some loc \<Longrightarrow> \<exists>a < n. i = of_nat a \<and> loc_order loc = a"
    using c by (auto simp: crowded_def book_inv_def)
  have n': "n < 128" using n by simp
  note o = crowd_order [OF n']
  have len: "ring_len (lv b l) < 127" using e n by (metis diff_zero length_entries length_upt)
  have id: "ob_index b (of_nat n) = None"
  proof (rule ccontr)
    assume "ob_index b (of_nat n) \<noteq> None"
    then obtain a where "a < n" "(of_nat n :: u64) = of_nat a" using ix by blast
    then show False using crowd_id [OF n', of a] n by simp
  qed
  have fresh: "fresh_order crowd_store b n"
    using e id ix ls by (fastforce simp: fresh_order_def all_levels_def o(4))
  have side: "is_buy (crowd_store n) = False" using o(3) by simp
  have ok1: "book_ok crowd_store ?b"
    using p ls o by (intro put_order_ok [OF ok _ _ side o(1) fresh len]) simp_all
  have ne1: "nonempty_levels ?b"
    using o(5) by (intro nonempty_put_order disjI1 ne len) simp
  have e1: "entries (lv ?b l) = [0..<Suc n]"
    using level_add_order_entries(1) [of crowd_store n "lv b l"] o(5) len e by (simp add: put_order_lv)
  have bids: "ob_bids ?b = []" "ob_asks ?b = [l]"
    using put_order_fields(1) [of True] put_order_fields(1) [of False] ls by (metis levels_of_True_False)+
  have "crowded (Suc n) (bump_sequence (?b\<lparr>ob_best_bid := first_price ?b (ob_bids ?b) 0,
      ob_best_ask := first_price ?b (ob_asks ?b) int64_max\<rparr>)) l"
    using ok1 ne1 e1 bids p ix o(4) best_published [of ?b]
    by (auto simp: crowded_def book_inv_def less_Suc_eq split: if_splits)
  then show ?thesis using crowd_add [OF c n'] by blast
qed

lemma run_ops_append:
  "run_ops step (xs @ ys) s = Option.bind (run_ops step xs s) (run_ops step ys)"
  by (induction xs arbitrary: s) (auto split: Option.bind_splits)

lemma crowd_start:
  "run_ops book_step [Add 0] (crowd_store, new_book ''ABC'') = Some (crowd_store, b) \<Longrightarrow> crowded 1 b 0"
proof -
  assume run: "run_ops book_step [Add 0] (crowd_store, new_book ''ABC'') = Some (crowd_store, b)"
  have o: "live (crowd_store 0)" "o_price (crowd_store 0) = 100" by (simp_all add: crowd_order)
  have "run_guard book_step book_guard [Add 0] (crowd_store, new_book ''ABC'')"
    by (simp add: o fresh_order_def has_room_def new_book_def all_levels_def level_prices_def
        levels_of_def split: option.split prod.split)
  then have "book_inv crowd_store b"
    using book_runs.run_safe [of "(crowd_store, new_book ''ABC'')" "[Add 0]"] run book_inv_new by auto
  moreover have "ob_bids b = [] \<and> ob_asks b = [0] \<and> lprice b 0 = 100 \<and> entries (lv b 0) = [0] \<and>
      ob_index b = [0 \<mapsto> \<lparr>loc_price = 100, loc_is_bid = False, loc_order = 0\<rparr>]"
    using run
    by (auto simp: run_defs crowd_store_def lprice_def lv_def entries_def slots_def ring_len_def)
  ultimately show ?thesis by (auto simp: crowded_def split: if_splits)
qed

lemma crowd_run:
  "n < 127 \<Longrightarrow> \<exists>b. run_ops book_step (map Add [0..<Suc n]) (crowd_store, new_book ''ABC'')
     = Some (crowd_store, b) \<and> crowded (Suc n) b 0"
proof (induction n)
  case 0
  have "\<exists>b. run_ops book_step [Add 0] (crowd_store, new_book ''ABC'') = Some (crowd_store, b)"
    by (simp add: run_defs crowd_store_def)
  then show ?case using crowd_start by auto
next
  case (Suc n)
  then obtain b where b: "run_ops book_step (map Add [0..<Suc n]) (crowd_store, new_book ''ABC'')
      = Some (crowd_store, b)" "crowded (Suc n) b 0" by auto
  obtain b' where "add_order crowd_store (Some (Suc n)) b = Inr (True, b')" "crowded (Suc (Suc n)) b' 0"
    using crowd_Suc [OF b(2) Suc.prems] by blast
  moreover have "[0..<Suc (Suc n)] = [0..<Suc n] @ [Suc n]" by simp
  ultimately show ?case
    unfolding \<open>[0..<Suc (Suc n)] = [0..<Suc n] @ [Suc n]\<close> map_append run_ops_append b(1) by simp
qed

text \<open>The level after the 128th order: its ring looks empty, its size and quantity do not.\<close>

lemma crowd_overflow:
  assumes c: "crowded 127 b 0"
  defines "b1 \<equiv> put_order False 0 127 crowd_store b"
  shows "pl_head (lv b1 0) = pl_tail (lv b1 0)" "pl_size (lv b1 0) = 128" "pl_price (lv b1 0) = 100"
    "ob_asks b1 = [0]" "ob_heap b1 0 = Some (lv b1 0)" "ob_ask_depth b1 = 128"
proof -
  have inv: "book_inv crowd_store b" and ls: "ob_asks b = [0]" and p: "lprice b 0 = 100"
    and e: "entries (lv b 0) = [0..<127]"
    using c by (auto simp: crowded_def)
  have lok: "level_ok crowd_store (lv b 0)"
    using book_ordersD(1) [of crowd_store b 0 False] inv ls by (simp add: book_inv_def book_ok_def)
  have len: "ring_len (lv b 0) = 127" using e by (metis diff_zero length_entries length_upt)
  have o: "o_remaining (crowd_store 127) = 1" by (simp add: crowd_order)
  have lv: "lv b1 0 = (push_slot 127 (lv b 0))\<lparr>pl_size := pl_size (lv b 0) + 1,
      pl_total := pl_total (lv b 0) + 1\<rparr>"
    by (simp add: b1_def put_order_lv level_add_order_def o)
  have "ring_len (lv b1 0) = 0"
    using push_slot_overflow [OF len] by (simp add: lv level_simps)
  then show "pl_head (lv b1 0) = pl_tail (lv b1 0)" by (simp add: ring_len_0_iff)
  show "pl_size (lv b1 0) = 128" using level_okD(1) [OF lok] len by (simp add: lv)
  show "ob_asks b1 = [0]"
    unfolding b1_def using put_order_fields(1) [of False False] ls by (metis levels_of_True_False(2))
  show "pl_price (lv b1 0) = 100" using p by (simp add: lprice_def lv level_simps)
  show "ob_heap b1 0 = Some (lv b1 0)" by (simp add: b1_def put_order_def index_order_def lv_def)
  have "depth_of False b = (\<Sum>l\<leftarrow>levels_of False b. pl_total (lv b l))"
    using inv unfolding book_inv_def book_ok_def book_depth_def by blast
  moreover have "pl_total (lv b 0) = sum_list (map (\<lambda>_. 1) [0..<127])"
    unfolding level_okD(4) [OF lok] e
    by (intro sum_list_map_cong) (simp add: live_qty_def crowd_order)
  ultimately have "ob_ask_depth b = 127" by (simp add: ls sum_list_triv)
  then show "ob_ask_depth b1 = 128" by (simp add: b1_def put_order_def index_order_def set_depth_def depth_of_def o)
qed

text \<open>
  C25: a price level overflows silently at its 128th order.  128 sell orders of one share at
  100 are all accepted, the best ask is 100 and the depth 128; the ring then looks empty, and
  \<open>OrderBook::match\<close> on a buy order at 100 never returns.
\<close>

theorem crowded_level_hangs:
  "\<exists>b. run_ops book_step (map Add [0..<128]) (crowd_store, new_book ''ABC'') = Some (crowd_store, b) \<and>
     ob_best_ask b = 100 \<and> ob_ask_depth b = 128 \<and>
     book_match (Some 200) crowd_store b [] = None"
proof -
  obtain b where b: "run_ops book_step (map Add [0..<127]) (crowd_store, new_book ''ABC'')
      = Some (crowd_store, b)" "crowded 127 b 0"
    using crowd_run [of 126] by auto
  let ?b = "put_order False 0 127 crowd_store b"
  let ?b' = "bump_sequence (?b\<lparr>ob_best_bid := first_price ?b (ob_bids ?b) 0,
      ob_best_ask := first_price ?b (ob_asks ?b) int64_max\<rparr>)"
  note full = crowd_overflow [OF b(2)]
  have add: "add_order crowd_store (Some 127) b = Inr (True, ?b')"
    using crowd_add [OF b(2)] by simp
  have buy: "crowd_store 200 = demo_order 999 BUY 100 1" by (simp add: crowd_store_def)
  have "trapped True 200 crowd_store ?b'"
    using full b(2) by (simp add: trapped_def buy crowded_def) (simp add: beyond_limit_def demo_order_def)
  then have "sweep True 200 crowd_store ?b' [] = None" by (rule sweep_trapped)
  then have "book_match (Some 200) crowd_store ?b' [] = None"
    by (simp add: book_match_def buy) (simp add: demo_order_def is_buy_def)
  moreover have "(128 :: nat) = Suc 127" by simp
  then have "[0..<128] = [0..<127] @ [127::nat]" by (metis le0 upt_Suc_append)
  then have "run_ops book_step (map Add [0..<128]) (crowd_store, new_book ''ABC'') = Some (crowd_store, ?b')"
    using add by (simp only: map_append run_ops_append b(1)) simp
  moreover have "ob_best_ask ?b' = 100" "ob_ask_depth ?b' = 128"
    using full(4,6) b(2) by (simp_all add: first_price_def crowded_def)
  ultimately show ?thesis by blast
qed

end
