(* ===== verification/Book_Snapshot.thy ===== *)
theory Book_Snapshot
  imports Order_Book_Props Complex_Main
begin

text \<open>
  Snapshots of a book and their manager (\<open>include/velox/book/book_snapshot.hpp\<close>,
  \<open>src/book/book_snapshot.cpp\<close>).  A \<open>double\<close> is a real number: the mid price, half of a 64 bit
  sum, is exact in a \<open>double\<close> as long as the sum stays below \<open>2 ^ 53\<close>.
\<close>

record book_level =
  bl_price :: i64
  bl_quantity :: u32
  bl_order_count :: u64

record book_snapshot =
  bs_symbol :: string
  bs_sequence :: u64
  bs_timestamp :: u64
  bs_best_bid :: i64
  bs_best_ask :: i64
  bs_bid_depth :: u32
  bs_ask_depth :: u32
  bs_spread :: i64
  bs_mid_price :: real
  bs_bids :: "book_level list"
  bs_asks :: "book_level list"

definition default_book_level :: book_level where
  "default_book_level = \<lparr>bl_price = 0, bl_quantity = 0, bl_order_count = 0\<rparr>"

definition default_snapshot :: book_snapshot where
  "default_snapshot = \<lparr>bs_symbol = zero_symbol, bs_sequence = 0, bs_timestamp = 0, bs_best_bid = 0,
     bs_best_ask = 0, bs_bid_depth = 0, bs_ask_depth = 0, bs_spread = 0, bs_mid_price = 0,
     bs_bids = [], bs_asks = []\<rparr>"

definition snapshot_valid :: "book_snapshot \<Rightarrow> bool" where
  "snapshot_valid s \<longleftrightarrow> bs_sequence s > 0"

subsection \<open>Capturing a book\<close>

text \<open>The walk over the levels of a side, and the zeroing of the unused slots.\<close>

fun capture_levels ::
  "order_book \<Rightarrow> nat \<Rightarrow> laddr list \<Rightarrow> nat \<Rightarrow> book_level list \<Rightarrow> (nat \<times> book_level list) res" where
  "capture_levels b depth [] count v = Inr (count, v)"
| "capture_levels b depth (l # ls) count v =
     (if count < depth
      then res_bind (deref b l) (\<lambda>pl.
        capture_levels b depth ls (Suc count)
          (v[count := \<lparr>bl_price = pl_price pl, bl_quantity = pl_total pl, bl_order_count = 0\<rparr>]))
      else Inr (count, v))"

definition zero_unused :: "nat \<Rightarrow> nat \<Rightarrow> book_level list \<Rightarrow> book_level list" where
  "zero_unused count depth v = foldl (\<lambda>v i. v[i := default_book_level]) v [count..<depth]"

definition capture_side ::
  "order_book \<Rightarrow> nat \<Rightarrow> laddr list \<Rightarrow> book_level list \<Rightarrow> book_level list res" where
  "capture_side b depth ls v =
     res_bind (capture_levels b depth ls 0 v) (\<lambda>(count, v1). Inr (zero_unused count depth v1))"

definition one_sided :: "book_snapshot \<Rightarrow> bool" where
  "one_sided s \<longleftrightarrow> bs_best_ask s = int64_max \<or> bs_best_bid s = 0"

definition capture_top :: "order_book \<Rightarrow> book_snapshot \<Rightarrow> book_snapshot" where
  "capture_top b s =
     (let s1 = s\<lparr>bs_symbol := (strncpy (bs_symbol s) (ob_symbol b) 7)[7 := NUL],
            bs_sequence := ob_sequence b, bs_timestamp := 0,
            bs_best_bid := ob_best_bid b, bs_best_ask := ob_best_ask b,
            bs_bid_depth := ob_bid_depth b, bs_ask_depth := ob_ask_depth b\<rparr>
      in s1\<lparr>bs_spread := (if one_sided s1 then 0 else s64 (bs_best_ask s1 - bs_best_bid s1)),
            bs_mid_price := (if one_sided s1 then 0
                             else real_of_int (s64 (bs_best_bid s1 + bs_best_ask s1)) / 2)\<rparr>)"

definition capture_snapshot :: "nat \<Rightarrow> order_book \<Rightarrow> book_snapshot \<Rightarrow> book_snapshot res" where
  "capture_snapshot depth b s =
     (let s1 = capture_top b s
      in res_bind (capture_side b depth (ob_bids b) (bs_bids s1)) (\<lambda>bids.
           let s2 = s1\<lparr>bs_bids := bids\<rparr>
           in res_bind (capture_side b depth (ob_asks b) (bs_asks s2)) (\<lambda>asks.
                Inr (s2\<lparr>bs_asks := asks\<rparr>))))"

subsection \<open>The manager, one call at a time\<close>

record snapshot_node =
  sn_snapshot :: book_snapshot
  sn_ref_count :: u64

record snapshot_manager =
  sm_nodes :: "snapshot_node list"
  sm_current :: "nat option"
  sm_update_count :: u64
  sm_depth :: nat

definition NUM_NODES :: nat where
  "NUM_NODES = 3"

definition new_snapshot_manager :: "nat \<Rightarrow> snapshot_manager" where
  "new_snapshot_manager depth = \<lparr>sm_nodes = replicate NUM_NODES
       \<lparr>sn_snapshot = default_snapshot\<lparr>bs_bids := replicate depth default_book_level,
            bs_asks := replicate depth default_book_level\<rparr>, sn_ref_count = 0\<rparr>,
     sm_current = Some 0, sm_update_count = 0, sm_depth = depth\<rparr>"

fun find_free :: "snapshot_node list \<Rightarrow> nat option \<Rightarrow> nat \<Rightarrow> nat option" where
  "find_free [] current i = None"
| "find_free (node # nodes) current i =
     (if current = Some i then find_free nodes current (Suc i)
      else if sn_ref_count node = 0 then Some i else find_free nodes current (Suc i))"

definition find_free_node :: "snapshot_manager \<Rightarrow> nat option" where
  "find_free_node m = find_free (sm_nodes m) (sm_current m) 0"

definition update_snapshot :: "order_book \<Rightarrow> snapshot_manager \<Rightarrow> snapshot_manager res" where
  "update_snapshot b m =
     (case find_free_node m of None \<Rightarrow> Inr m
      | Some k \<Rightarrow>
          res_bind (capture_snapshot (sm_depth m) b (sn_snapshot (sm_nodes m ! k))) (\<lambda>s.
            Inr (m\<lparr>sm_nodes := (sm_nodes m)[k := (sm_nodes m ! k)\<lparr>sn_snapshot := s\<rparr>],
                   sm_current := Some k, sm_update_count := sm_update_count m + 1\<rparr>)))"

text \<open>Without a writer in between, the first attempt of the loop succeeds.\<close>

definition get_snapshot :: "snapshot_manager \<Rightarrow> nat option \<times> snapshot_manager" where
  "get_snapshot m =
     (case sm_current m of None \<Rightarrow> (None, m)
      | Some k \<Rightarrow> (Some k, m\<lparr>sm_nodes := (sm_nodes m)[k :=
          (sm_nodes m ! k)\<lparr>sn_ref_count := sn_ref_count (sm_nodes m ! k) + 1\<rparr>]\<rparr>))"

definition release_snapshot :: "nat option \<Rightarrow> snapshot_manager \<Rightarrow> snapshot_manager" where
  "release_snapshot p m =
     (case p of None \<Rightarrow> m
      | Some k \<Rightarrow> m\<lparr>sm_nodes := (sm_nodes m)[k :=
          (sm_nodes m ! k)\<lparr>sn_ref_count := sn_ref_count (sm_nodes m ! k) - 1\<rparr>]\<rparr>)"

definition active_readers :: "snapshot_manager \<Rightarrow> u64" where
  "active_readers m = foldl (\<lambda>total node. total + sn_ref_count node) 0 (sm_nodes m)"

subsection \<open>A capture is the top of the book\<close>

definition level_entry :: "order_book \<Rightarrow> laddr \<Rightarrow> book_level" where
  "level_entry b l = \<lparr>bl_price = lprice b l, bl_quantity = pl_total (lv b l), bl_order_count = 0\<rparr>"

lemma capture_levels_ok:
  assumes "\<And>l. l \<in> set ls \<Longrightarrow> deref b l = Inr (lv b l)" "count \<le> depth" "depth \<le> length v"
  shows "capture_levels b depth ls count v = Inr (min depth (count + length ls),
    take count v @ map (level_entry b) (take (depth - count) ls) @ drop (min depth (count + length ls)) v)"
  using assms
proof (induction ls arbitrary: count v)
  case (Cons l ls)
  show ?case
  proof (cases "count < depth")
    case True
    then have c: "count < length v" using Cons.prems(3) by simp
    let ?e = "level_entry b l"
    have "capture_levels b depth (l # ls) count v = capture_levels b depth ls (Suc count) (v[count := ?e])"
      using True Cons.prems(1) by (simp add: level_entry_def lprice_def)
    also have "\<dots> = Inr (min depth (Suc count + length ls), take (Suc count) (v[count := ?e]) @
        map (level_entry b) (take (depth - Suc count) ls) @ drop (min depth (Suc count + length ls)) (v[count := ?e]))"
      using Cons.prems True by (intro Cons.IH) auto
    also have "take (Suc count) (v[count := ?e]) = take count v @ [?e]"
      using c by (simp add: take_Suc_conv_app_nth)
    also have "drop (min depth (Suc count + length ls)) (v[count := ?e]) = drop (min depth (Suc count + length ls)) v"
      using True by simp
    finally show ?thesis
      using True by (simp add: take_Cons' Suc_diff_Suc [symmetric])
  next
    case False
    then have "count = depth" using Cons.prems(2) by simp
    then show ?thesis by simp
  qed
qed simp

lemma zero_unused_eq: "count \<le> depth \<Longrightarrow> length v = depth \<Longrightarrow>
    zero_unused count depth v = take count v @ replicate (depth - count) default_book_level"
proof (induction "depth - count" arbitrary: count v)
  case 0
  then show ?case by (simp add: zero_unused_def)
next
  case (Suc n)
  then have c: "count < depth" by simp
  have "zero_unused count depth v = zero_unused (Suc count) depth (v[count := default_book_level])"
    using c by (simp add: zero_unused_def upt_conv_Cons)
  also have "\<dots> = take (Suc count) (v[count := default_book_level]) @ replicate (depth - Suc count) default_book_level"
    using Suc c by (intro Suc(1)) auto
  also have "take (Suc count) (v[count := default_book_level]) = take count v @ [default_book_level]"
    using c Suc.prems by (simp add: take_Suc_conv_app_nth)
  finally show ?case using c by (simp add: Suc_diff_Suc [symmetric])
qed

definition top_levels :: "order_book \<Rightarrow> nat \<Rightarrow> laddr list \<Rightarrow> book_level list" where
  "top_levels b depth ls = map (level_entry b) (take depth ls) @
     replicate (depth - length ls) default_book_level"

lemma capture_side_ok:
  assumes "\<And>l. l \<in> set ls \<Longrightarrow> deref b l = Inr (lv b l)" "length v = depth"
  shows "capture_side b depth ls v = Inr (top_levels b depth ls)"
proof -
  let ?n = "min depth (length ls)"
  have "capture_levels b depth ls 0 v = Inr (?n, map (level_entry b) (take depth ls) @ drop ?n v)"
    using capture_levels_ok [of ls b 0 depth v] assms by simp
  moreover have "zero_unused ?n depth (map (level_entry b) (take depth ls) @ drop ?n v) = top_levels b depth ls"
    using assms(2) by (subst zero_unused_eq) (auto simp: top_levels_def)
  ultimately show ?thesis by (simp add: capture_side_def)
qed

lemma capture_top_simps [simp]:
  "bs_bids (capture_top b s) = bs_bids s" "bs_asks (capture_top b s) = bs_asks s"
  "bs_sequence (capture_top b s) = ob_sequence b" "bs_best_bid (capture_top b s) = ob_best_bid b"
  "bs_best_ask (capture_top b s) = ob_best_ask b" "bs_bid_depth (capture_top b s) = ob_bid_depth b"
  "bs_ask_depth (capture_top b s) = ob_ask_depth b"
  by (simp_all add: capture_top_def Let_def)

lemma capture_snapshot_ok:
  assumes "book_shape b" "length (bs_bids s) = depth" "length (bs_asks s) = depth"
  shows "capture_snapshot depth b s = Inr ((capture_top b s)\<lparr>bs_bids := top_levels b depth (ob_bids b),
     bs_asks := top_levels b depth (ob_asks b)\<rparr>)"
proof -
  have d: "deref b l = Inr (lv b l)" if "l \<in> set (ob_bids b) \<or> l \<in> set (ob_asks b)" for l
    using deref_level [OF assms(1), of l] that by (auto simp: all_levels_def)
  have "capture_side b depth (ob_bids b) (bs_bids s) = Inr (top_levels b depth (ob_bids b))"
    "capture_side b depth (ob_asks b) (bs_asks s) = Inr (top_levels b depth (ob_asks b))"
    using d assms(2,3) by (intro capture_side_ok; simp)+
  then show ?thesis by (simp add: capture_snapshot_def Let_def)
qed

lemma top_levels_nth:
  "i < depth \<Longrightarrow> top_levels b depth ls ! i = (if i < length ls then level_entry b (ls ! i) else default_book_level)"
  by (auto simp: top_levels_def nth_append)

lemma length_top_levels [simp]: "length (top_levels b depth ls) = depth"
  by (simp add: top_levels_def)

lemma level_entry_block:
  assumes "book_ok st b" "l \<in> set (levels_of t b)"
  shows "bl_quantity (level_entry b l) = sum_list (map snd (block st b l))"
  using level_total_abs [of st "lv b l"] assms
  by (simp add: level_entry_def book_ok_def book_orders_def block_def comp_def case_prod_beta)

text \<open>
  C26: a capture of a book that satisfies its invariant reads no deleted level and shows the top
  of the book: slot \<open>i\<close> of a side holds the price of its \<open>i\<close>-th best level and the sum of what
  the orders of that level have left, unused slots are zero, prices get strictly worse from
  slot to slot, and the best prices, the depths and the sequence number are those of the book.
  (The order count of a slot is always zero.)
\<close>

theorem snapshot_shows_top_of_book:
  assumes "book_inv st b" "length (bs_bids s) = depth" "length (bs_asks s) = depth"
  shows "\<exists>s'. capture_snapshot depth b s = Inr s' \<and>
    (\<forall>t i. i < depth \<longrightarrow> (if t then bs_bids s' else bs_asks s') ! i
       = (if i < length (levels_of t b)
          then \<lparr>bl_price = lprice b (levels_of t b ! i),
                bl_quantity = sum_list (map snd (block st b (levels_of t b ! i))), bl_order_count = 0\<rparr>
          else default_book_level)) \<and>
    (\<forall>t i j. i < j \<and> j < depth \<and> j < length (levels_of t b) \<longrightarrow>
       before t (bl_price ((if t then bs_bids s' else bs_asks s') ! i))
         (bl_price ((if t then bs_bids s' else bs_asks s') ! j))) \<and>
    bs_best_bid s' = (if ob_bids b = [] then 0 else lprice b (hd (ob_bids b))) \<and>
    bs_best_ask s' = (if ob_asks b = [] then int64_max else lprice b (hd (ob_asks b))) \<and>
    bs_bid_depth s' = sum_list (map snd (side_book st b True)) \<and>
    bs_ask_depth s' = sum_list (map snd (side_book st b False)) \<and>
    bs_sequence s' = ob_sequence b"
proof -
  let ?s = "(capture_top b s)\<lparr>bs_bids := top_levels b depth (ob_bids b),
     bs_asks := top_levels b depth (ob_asks b)\<rparr>"
  have ok: "book_ok st b" and best: "best_ok b" using assms(1) by (simp_all add: book_inv_def)
  have shape: "book_shape b" using ok by (simp add: book_ok_def)
  have side: "(if t then bs_bids ?s else bs_asks ?s) = top_levels b depth (levels_of t b)" for t
    by (simp add: levels_of_def)
  have e: "level_entry b l = \<lparr>bl_price = lprice b l, bl_quantity = sum_list (map snd (block st b l)),
      bl_order_count = 0\<rparr>" if "l \<in> set (levels_of t b)" for l t
    using level_entry_block [OF ok that] by (simp add: level_entry_def)
  have slots: "\<forall>t i. i < depth \<longrightarrow> top_levels b depth (levels_of t b) ! i
      = (if i < length (levels_of t b)
         then \<lparr>bl_price = lprice b (levels_of t b ! i),
               bl_quantity = sum_list (map snd (block st b (levels_of t b ! i))), bl_order_count = 0\<rparr>
         else default_book_level)"
    using e nth_mem by (fastforce simp: top_levels_nth)
  have srt: "sorted_wrt (before t) (map (lprice b) (levels_of t b))" for t
    using shape by (rule book_shapeD)
  have sorted: "before t (bl_price (top_levels b depth (levels_of t b) ! i))
      (bl_price (top_levels b depth (levels_of t b) ! j))"
    if "i < j" "j < depth" "j < length (levels_of t b)" for t i j
    using sorted_wrt_nth_less [OF srt that(1)] that by (simp add: top_levels_nth level_entry_def)
  have "bs_best_bid ?s = (if ob_bids b = [] then 0 else lprice b (hd (ob_bids b)))"
    "bs_best_ask ?s = (if ob_asks b = [] then int64_max else lprice b (hd (ob_asks b)))"
    using best by (auto simp: best_ok_def first_price_def split: list.split)
  moreover have "bs_bid_depth ?s = sum_list (map snd (side_book st b True))"
    "bs_ask_depth ?s = sum_list (map snd (side_book st b False))"
    using depth_side_book [OF ok, of True] depth_side_book [OF ok, of False] by (simp_all add: depth_of_def)
  ultimately show ?thesis
    using capture_snapshot_ok [OF shape assms(2,3)] slots sorted
    by (intro exI [of _ ?s]) (simp only: side, simp)
qed

theorem snapshot_shows_top_of_book_witness:
  "\<exists>s. capture_snapshot 2 demo_book (default_snapshot\<lparr>bs_bids := [default_book_level, default_book_level],
       bs_asks := [default_book_level, default_book_level]\<rparr>) = Inr s \<and>
     bs_asks s ! 1 = \<lparr>bl_price = 101, bl_quantity = 7, bl_order_count = 0\<rparr> \<and> bs_ask_depth s = 12"
proof -
  have b: "block demo_store demo_book (Suc 0) = [((101, 20), 7)]"
    by (simp add: block_def level_abs_def live_queue_def demo_entries demo_levels)
      (simp add: run_defs live_def is_active_def)
  let ?s = "default_snapshot\<lparr>bs_bids := [default_book_level, default_book_level],
      bs_asks := [default_book_level, default_book_level]\<rparr>"
  have len: "length (bs_bids ?s) = 2" "length (bs_asks ?s) = 2" by simp_all
  obtain s where c: "capture_snapshot 2 demo_book ?s = Inr s"
    and slots: "\<forall>t i. i < 2 \<longrightarrow> (if t then bs_bids s else bs_asks s) ! i
       = (if i < length (levels_of t demo_book)
          then \<lparr>bl_price = lprice demo_book (levels_of t demo_book ! i),
                bl_quantity = sum_list (map snd (block demo_store demo_book (levels_of t demo_book ! i))),
                bl_order_count = 0\<rparr>
          else default_book_level)"
    and d: "bs_ask_depth s = sum_list (map snd (side_book demo_store demo_book False))"
    using snapshot_shows_top_of_book [OF demo_inv len] by (elim exE conjE) (rule that)
  show ?thesis
    using c d slots [rule_format, of 1 False]
    by (intro exI [of _ s]) (simp add: levels_of_def demo_levels demo_sides b)
qed

subsection \<open>Polling snapshots\<close>

text \<open>
  The part of a snapshot thread of \<open>main.cpp\<close> that uses the manager: update, get, and hand a
  valid snapshot to the bots and release it.  An invalid snapshot is not released.
\<close>

definition poll_snapshot ::
  "order_book \<Rightarrow> snapshot_manager \<Rightarrow> (book_snapshot option \<times> snapshot_manager) res" where
  "poll_snapshot b m =
     res_bind (update_snapshot b m) (\<lambda>m1.
       case get_snapshot m1 of
         (None, m2) \<Rightarrow> Inr (None, m2)
       | (Some k, m2) \<Rightarrow>
           let snap = sn_snapshot (sm_nodes m2 ! k)
           in if snapshot_valid snap then Inr (Some snap, release_snapshot (Some k) m2)
              else Inr (None, m2))"

fun poll_all ::
  "order_book list \<Rightarrow> snapshot_manager \<Rightarrow> (book_snapshot option list \<times> snapshot_manager) res" where
  "poll_all [] m = Inr ([], m)"
| "poll_all (b # bs) m = res_bind (poll_snapshot b m) (\<lambda>(r, m1).
     res_bind (poll_all bs m1) (\<lambda>(rs, m2). Inr (r # rs, m2)))"

definition sized :: "nat \<Rightarrow> snapshot_node \<Rightarrow> bool" where
  "sized depth node \<longleftrightarrow> length (bs_bids (sn_snapshot node)) = depth \<and>
     length (bs_asks (sn_snapshot node)) = depth"

definition captured :: "nat \<Rightarrow> order_book \<Rightarrow> book_snapshot \<Rightarrow> book_snapshot" where
  "captured depth b s = (capture_top b s)\<lparr>bs_bids := top_levels b depth (ob_bids b),
     bs_asks := top_levels b depth (ob_asks b)\<rparr>"

lemma captured_simps [simp]:
  "bs_sequence (captured depth b s) = ob_sequence b" "length (bs_bids (captured depth b s)) = depth"
  "length (bs_asks (captured depth b s)) = depth"
  by (simp_all add: captured_def)

text \<open>A manager none of whose nodes can be taken, and whose current snapshot is invalid.\<close>

definition stuck :: "nat \<Rightarrow> snapshot_manager \<Rightarrow> bool" where
  "stuck n m \<longleftrightarrow> (\<forall>node \<in> set (sm_nodes m). 0 < unat (sn_ref_count node) \<and> unat (sn_ref_count node) + n < 2 ^ 64) \<and>
     (\<exists>k. sm_current m = Some k \<and> k < length (sm_nodes m) \<and> \<not> snapshot_valid (sn_snapshot (sm_nodes m ! k)))"

lemma find_free_bound: "find_free nodes c i = Some k \<Longrightarrow> i \<le> k \<and> k < i + length nodes"
  by (induction nodes arbitrary: i) (fastforce split: if_splits)+

lemma find_free_none: "(\<forall>node \<in> set nodes. sn_ref_count node \<noteq> 0) \<Longrightarrow> find_free nodes c i = None"
  by (induction nodes arbitrary: i) auto

lemma poll_stuck:
  assumes "stuck (Suc n) m"
  obtains m' where "poll_snapshot b m = Inr (None, m')" "stuck n m'"
proof -
  obtain k where k: "sm_current m = Some k" "k < length (sm_nodes m)"
      "\<not> snapshot_valid (sn_snapshot (sm_nodes m ! k))"
    using assms by (auto simp: stuck_def)
  let ?node = "sm_nodes m ! k"
  let ?m = "m\<lparr>sm_nodes := (sm_nodes m)[k := ?node\<lparr>sn_ref_count := sn_ref_count ?node + 1\<rparr>]\<rparr>"
  have r: "0 < unat (sn_ref_count ?node)" "unat (sn_ref_count ?node) + Suc n < 2 ^ 64"
    using assms k(2) nth_mem by (auto simp: stuck_def)
  then have u: "unat (sn_ref_count ?node + 1) = unat (sn_ref_count ?node) + 1"
    by (subst unat_add_bounded) simp_all
  have "\<forall>node \<in> set (sm_nodes m). sn_ref_count node \<noteq> 0" using assms by (auto simp: stuck_def)
  then have "update_snapshot b m = Inr m"
    by (simp add: update_snapshot_def find_free_node_def find_free_none)
  then have "poll_snapshot b m = Inr (None, ?m)"
    using k by (simp add: poll_snapshot_def get_snapshot_def Let_def)
  moreover have "stuck n ?m"
    using assms k u r unfolding stuck_def
    by (auto dest!: set_update_subset_insert [THEN subsetD] intro!: exI [of _ k])
  ultimately show thesis by (rule that)
qed

lemma poll_all_stuck: "stuck (length bs) m \<Longrightarrow> \<exists>m'. poll_all bs m = Inr (replicate (length bs) None, m')"
proof (induction bs arbitrary: m)
  case (Cons b bs)
  then obtain m1 where "poll_snapshot b m = Inr (None, m1)" "stuck (length bs) m1"
    using poll_stuck [of "length bs" m b] by auto
  then show ?case using Cons.IH by force
qed simp

lemma poll_free:
  assumes "book_shape b" "find_free_node m = Some k" "k < length (sm_nodes m)" "sized (sm_depth m) (sm_nodes m ! k)"
  shows "poll_snapshot b m =
    (let s = captured (sm_depth m) b (sn_snapshot (sm_nodes m ! k));
         m1 = m\<lparr>sm_current := Some k, sm_update_count := sm_update_count m + 1\<rparr>
     in if ob_sequence b = 0
        then Inr (None, m1\<lparr>sm_nodes := (sm_nodes m)[k := \<lparr>sn_snapshot = s,
               sn_ref_count = sn_ref_count (sm_nodes m ! k) + 1\<rparr>]\<rparr>)
        else Inr (Some s, m1\<lparr>sm_nodes := (sm_nodes m)[k := (sm_nodes m ! k)\<lparr>sn_snapshot := s\<rparr>]\<rparr>))"
proof -
  have "capture_snapshot (sm_depth m) b (sn_snapshot (sm_nodes m ! k))
      = Inr (captured (sm_depth m) b (sn_snapshot (sm_nodes m ! k)))"
    using assms(1,4) by (simp add: capture_snapshot_ok captured_def sized_def)
  then show ?thesis
    using assms(2,3)
    by (cases "sm_nodes m ! k")
      (simp add: poll_snapshot_def update_snapshot_def get_snapshot_def release_snapshot_def Let_def
        snapshot_valid_def)
qed

text \<open>
  Invalid snapshots starve the readers.  A snapshot thread releases only valid snapshots;
  so when a new manager sees a book that has not counted an order yet in its first three
  polls, all three nodes stay pinned, every later update is skipped, and no poll ever hands a
  snapshot to the bots, whatever the books are by then (up to \<open>2 ^ 63\<close> polls).
\<close>

theorem invalid_snapshots_starve:
  assumes "\<forall>b \<in> {b1, b2, b3}. book_shape b \<and> ob_sequence b = 0" "length bs < 2 ^ 63"
  shows "\<exists>m. poll_all (b1 # b2 # b3 # bs) (new_snapshot_manager depth)
    = Inr (replicate (3 + length bs) None, m)"
proof -
  let ?n = "\<lparr>sn_snapshot = default_snapshot\<lparr>bs_bids := replicate depth default_book_level,
      bs_asks := replicate depth default_book_level\<rparr>, sn_ref_count = 0\<rparr>"
  let ?c = "\<lambda>b. \<lparr>sn_snapshot = captured depth b (sn_snapshot ?n), sn_ref_count = 1\<rparr>"
  let ?m = "\<lambda>ns k c. \<lparr>sm_nodes = ns, sm_current = Some k, sm_update_count = c, sm_depth = depth\<rparr>"
  have new: "new_snapshot_manager depth = ?m [?n, ?n, ?n] 0 0"
    by (simp add: new_snapshot_manager_def NUM_NODES_def numeral_3_eq_3)
  have p1: "poll_snapshot b1 (?m [?n, ?n, ?n] 0 0) = Inr (None, ?m [?n, ?c b1, ?n] 1 1)"
    using assms(1) by (subst poll_free [where k = 1]) (simp_all add: find_free_node_def sized_def Let_def)
  have p2: "poll_snapshot b2 (?m [?n, ?c b1, ?n] 1 1) = Inr (None, ?m [?c b2, ?c b1, ?n] 0 2)"
    using assms(1) by (subst poll_free [where k = 0]) (simp_all add: find_free_node_def sized_def Let_def)
  have p3: "poll_snapshot b3 (?m [?c b2, ?c b1, ?n] 0 2) = Inr (None, ?m [?c b2, ?c b1, ?c b3] 2 3)"
    using assms(1)
    by (subst poll_free [where k = 2]) (simp_all add: find_free_node_def sized_def Let_def numeral_2_eq_2)
  have "stuck (length bs) (?m [?c b2, ?c b1, ?c b3] 2 3)"
    using assms by (simp add: stuck_def snapshot_valid_def)
  then obtain m where "poll_all bs (?m [?c b2, ?c b1, ?c b3] 2 3) = Inr (replicate (length bs) None, m)"
    using poll_all_stuck by blast
  then have "poll_all (b1 # b2 # b3 # bs) (new_snapshot_manager depth)
      = Inr (None # None # None # replicate (length bs) None, m)"
    by (simp only: poll_all.simps new p1 p2 p3 res_bind_simps prod.case)
  then show ?thesis by (auto simp: numeral_3_eq_3)
qed

theorem invalid_snapshots_starve_witness:
  "\<exists>m. poll_all [new_book ''ABC'', new_book ''ABC'', new_book ''ABC'', demo_book] (new_snapshot_manager 5)
     = Inr ([None, None, None, None], m)"
proof -
  have "book_shape (new_book ''ABC'')"
    using book_inv_new [of "\<lambda>_. default_order" "''ABC''"] by (simp add: book_inv_def book_ok_def)
  moreover have "ob_sequence (new_book ''ABC'') = 0" by (simp add: new_book_def)
  moreover have "replicate (3 + length [demo_book]) None = [None, None, None, None :: book_snapshot option]"
    by (simp add: numeral_3_eq_3)
  ultimately show ?thesis
    using invalid_snapshots_starve [of "new_book ''ABC''" "new_book ''ABC''" "new_book ''ABC''" "[demo_book]" 5]
    by simp
qed

text \<open>Valid snapshots are released, so every poll delivers the book it polled.\<close>

definition idle :: "snapshot_manager \<Rightarrow> bool" where
  "idle m \<longleftrightarrow> length (sm_nodes m) = 3 \<and> sm_current m \<noteq> None \<and>
     (\<forall>node \<in> set (sm_nodes m). sn_ref_count node = 0 \<and> sized (sm_depth m) node)"

lemma idle_new: "idle (new_snapshot_manager depth)"
  by (simp add: idle_def new_snapshot_manager_def NUM_NODES_def sized_def)

lemma idle_free:
  assumes "idle m"
  obtains k where "find_free_node m = Some k" "k < length (sm_nodes m)" "sized (sm_depth m) (sm_nodes m ! k)"
proof -
  obtain x y z where n: "sm_nodes m = [x, y, z]"
    using assms by (auto simp: idle_def length_Suc_conv numeral_3_eq_3)
  then have z: "sn_ref_count x = 0" "sn_ref_count y = 0" "sized (sm_depth m) x" "sized (sm_depth m) y"
    using assms by (simp_all add: idle_def)
  show thesis
  proof (cases "sm_current m = Some 0")
    case True
    then show thesis using that [of 1] n z by (simp add: find_free_node_def)
  next
    case False
    then show thesis using that [of 0] n z by (simp add: find_free_node_def)
  qed
qed

lemma poll_idle:
  assumes "idle m" "book_shape b" "ob_sequence b \<noteq> 0"
  obtains s m' where "poll_snapshot b m = Inr (Some (captured (sm_depth m) b s), m')" "idle m'"
    "sm_depth m' = sm_depth m" "sm_update_count m' = sm_update_count m + 1"
proof -
  obtain k where k: "find_free_node m = Some k" "k < length (sm_nodes m)" "sized (sm_depth m) (sm_nodes m ! k)"
    by (rule idle_free [OF assms(1)])
  let ?s = "captured (sm_depth m) b (sn_snapshot (sm_nodes m ! k))"
  let ?m = "m\<lparr>sm_current := Some k, sm_update_count := sm_update_count m + 1,
      sm_nodes := (sm_nodes m)[k := (sm_nodes m ! k)\<lparr>sn_snapshot := ?s\<rparr>]\<rparr>"
  have "poll_snapshot b m = Inr (Some ?s, ?m)"
    using poll_free [OF assms(2) k] assms(3) by (simp add: Let_def)
  moreover have "idle ?m"
    using assms(1) k unfolding idle_def
    by (auto dest!: set_update_subset_insert [THEN subsetD] simp: sized_def)
  ultimately show thesis by (intro that [of _ ?m]) simp_all
qed

end
