(* ===== verification/Snapshot_Rcu.thy ===== *)
theory Snapshot_Rcu
  imports Book_Snapshot
begin

text \<open>
  The snapshot manager under concurrency: any number of readers and one updating thread,
  interleaved at their atomic accesses (\<open>src/book/book_snapshot.cpp\<close>, \<open>update\<close>,
  \<open>find_free_node\<close>, \<open>get_snapshot\<close> and \<open>release_snapshot\<close>).  Every rule of the step relation is
  one load, store or read-modify-write of the code, in the order of the code; the writer fills
  its node in any number of steps with any intermediate contents.  Here every access sees the
  newest value, as sequentially consistent accesses do; the acquire and release orders of the code
  promise less, and \<open>Snapshot_Order\<close> models them.
\<close>

subsection \<open>States and steps\<close>

text \<open>
  A reader is outside, has loaded a node, has pinned it, has lost the race and must undo its
  pin, or holds the node.  The updater is quiet, scans for a free node from an index on with
  the current node that it has loaded, writes a node, or has published it and not counted yet.
\<close>

datatype reader = Outside | Loaded nat | Pinned nat | Lost nat | Holding nat

datatype updater = Quiet | Scanning "nat option" nat | Writing nat | Published

text \<open>
  The last field is a history variable of the specification: the contents that have been
  current so far.
\<close>

record rcu =
  rc_manager :: snapshot_manager
  rc_readers :: "reader list"
  rc_updater :: updater
  rc_history :: "book_snapshot list"

definition add_ref :: "nat \<Rightarrow> u64 \<Rightarrow> snapshot_manager \<Rightarrow> snapshot_manager" where
  "add_ref k d m = m\<lparr>sm_nodes := (sm_nodes m)[k :=
     (sm_nodes m ! k)\<lparr>sn_ref_count := sn_ref_count (sm_nodes m ! k) + d\<rparr>]\<rparr>"

definition write_node :: "nat \<Rightarrow> book_snapshot \<Rightarrow> snapshot_manager \<Rightarrow> snapshot_manager" where
  "write_node k x m = m\<lparr>sm_nodes := (sm_nodes m)[k := (sm_nodes m ! k)\<lparr>sn_snapshot := x\<rparr>]\<rparr>"

definition node_ref :: "snapshot_manager \<Rightarrow> nat \<Rightarrow> u64" where
  "node_ref m k = sn_ref_count (sm_nodes m ! k)"

definition node_data :: "snapshot_manager \<Rightarrow> nat \<Rightarrow> book_snapshot" where
  "node_data m k = sn_snapshot (sm_nodes m ! k)"

abbreviation set_reader :: "nat \<Rightarrow> reader \<Rightarrow> rcu \<Rightarrow> rcu" where
  "set_reader i r s \<equiv> s\<lparr>rc_readers := (rc_readers s)[i := r]\<rparr>"

inductive rcu_step :: "rcu \<Rightarrow> rcu \<Rightarrow> bool" where
  load: "\<lbrakk>i < length (rc_readers s); rc_readers s ! i = Outside; sm_current (rc_manager s) = Some k\<rbrakk>
    \<Longrightarrow> rcu_step s (set_reader i (Loaded k) s)"
| pin: "\<lbrakk>i < length (rc_readers s); rc_readers s ! i = Loaded k\<rbrakk>
    \<Longrightarrow> rcu_step s (set_reader i (Pinned k) (s\<lparr>rc_manager := add_ref k 1 (rc_manager s)\<rparr>))"
| recheck: "\<lbrakk>i < length (rc_readers s); rc_readers s ! i = Pinned k\<rbrakk>
    \<Longrightarrow> rcu_step s (set_reader i
          (if sm_current (rc_manager s) = Some k then Holding k else Lost k) s)"
| undo: "\<lbrakk>i < length (rc_readers s); rc_readers s ! i = Lost k\<rbrakk>
    \<Longrightarrow> rcu_step s (set_reader i Outside (s\<lparr>rc_manager := add_ref k (- 1) (rc_manager s)\<rparr>))"
| release: "\<lbrakk>i < length (rc_readers s); rc_readers s ! i = Holding k\<rbrakk>
    \<Longrightarrow> rcu_step s (set_reader i Outside (s\<lparr>rc_manager := add_ref k (- 1) (rc_manager s)\<rparr>))"
| start: "rc_updater s = Quiet
    \<Longrightarrow> rcu_step s (s\<lparr>rc_updater := Scanning (sm_current (rc_manager s)) 0\<rparr>)"
| skip: "\<lbrakk>rc_updater s = Scanning c j; j < length (sm_nodes (rc_manager s));
      c = Some j \<or> node_ref (rc_manager s) j \<noteq> 0\<rbrakk>
    \<Longrightarrow> rcu_step s (s\<lparr>rc_updater := Scanning c (Suc j)\<rparr>)"
| choose: "\<lbrakk>rc_updater s = Scanning c j; j < length (sm_nodes (rc_manager s));
      c \<noteq> Some j; node_ref (rc_manager s) j = 0\<rbrakk>
    \<Longrightarrow> rcu_step s (s\<lparr>rc_updater := Writing j\<rparr>)"
| give_up: "\<lbrakk>rc_updater s = Scanning c j; \<not> j < length (sm_nodes (rc_manager s))\<rbrakk>
    \<Longrightarrow> rcu_step s (s\<lparr>rc_updater := Quiet\<rparr>)"
| store: "rc_updater s = Writing j
    \<Longrightarrow> rcu_step s (s\<lparr>rc_manager := write_node j x (rc_manager s)\<rparr>)"
| publish: "rc_updater s = Writing j
    \<Longrightarrow> rcu_step s (s\<lparr>rc_manager := (rc_manager s)\<lparr>sm_current := Some j\<rparr>, rc_updater := Published,
          rc_history := node_data (rc_manager s) j # rc_history s\<rparr>)"
| finish: "rc_updater s = Published
    \<Longrightarrow> rcu_step s (s\<lparr>rc_manager := (rc_manager s)\<lparr>sm_update_count := sm_update_count (rc_manager s) + 1\<rparr>,
          rc_updater := Quiet\<rparr>)"

definition rcu_start :: "nat \<Rightarrow> nat \<Rightarrow> rcu" where
  "rcu_start depth n = \<lparr>rc_manager = new_snapshot_manager depth, rc_readers = replicate n Outside,
     rc_updater = Quiet, rc_history = [node_data (new_snapshot_manager depth) 0]\<rparr>"

subsection \<open>Counting pins\<close>

fun pins :: "nat \<Rightarrow> reader \<Rightarrow> bool" where
  "pins k Outside = False"
| "pins k (Loaded j) = False"
| "pins k (Pinned j) = (j = k)"
| "pins k (Lost j) = (j = k)"
| "pins k (Holding j) = (j = k)"

fun reader_node :: "reader \<Rightarrow> nat option" where
  "reader_node Outside = None"
| "reader_node (Loaded j) = Some j"
| "reader_node (Pinned j) = Some j"
| "reader_node (Lost j) = Some j"
| "reader_node (Holding j) = Some j"

definition pin_count :: "nat \<Rightarrow> reader list \<Rightarrow> nat" where
  "pin_count k rs = length (filter (pins k) rs)"

lemma pin_count_update:
  "i < length rs \<Longrightarrow>
     pin_count k (rs[i := r]) + (if pins k (rs ! i) then 1 else 0)
     = pin_count k rs + (if pins k r then 1 else 0)"
proof (induction rs arbitrary: i)
  case (Cons x xs)
  then show ?case
  proof (cases i)
    case (Suc j)
    then show ?thesis using Cons.IH [of j] Cons.prems by (auto simp: pin_count_def)
  qed (simp add: pin_count_def)
qed simp

lemma pin_count_le: "pin_count k rs \<le> length rs"
  by (simp add: pin_count_def)

lemma pin_count_pos: "i < length rs \<Longrightarrow> pins k (rs ! i) \<Longrightarrow> 0 < pin_count k rs"
  by (auto simp: pin_count_def filter_empty_conv)

lemma pin_count_zero: "pin_count k rs = 0 \<Longrightarrow> Holding k \<notin> set rs"
  by (auto simp: pin_count_def filter_empty_conv)

lemma pin_count_outside [simp]: "pin_count k (replicate n Outside) = 0"
  by (simp add: pin_count_def)

lemma node_simps [simp]:
  "k < length (sm_nodes m) \<Longrightarrow> node_ref (add_ref k d m) j = (if j = k then node_ref m k + d else node_ref m j)"
  "k < length (sm_nodes m) \<Longrightarrow> node_data (add_ref k d m) j = node_data m j"
  "k < length (sm_nodes m) \<Longrightarrow> node_ref (write_node k x m) j = node_ref m j"
  "k < length (sm_nodes m) \<Longrightarrow> node_data (write_node k x m) j = (if j = k then x else node_data m j)"
  "length (sm_nodes (add_ref k d m)) = length (sm_nodes m)"
  "length (sm_nodes (write_node k x m)) = length (sm_nodes m)"
  "sm_current (add_ref k d m) = sm_current m"
  "sm_current (write_node k x m) = sm_current m"
  "node_ref (m\<lparr>sm_current := c\<rparr>) j = node_ref m j"
  "node_data (m\<lparr>sm_current := c\<rparr>) j = node_data m j"
  "node_ref (m\<lparr>sm_update_count := w\<rparr>) j = node_ref m j"
  "node_data (m\<lparr>sm_update_count := w\<rparr>) j = node_data m j"
  by (auto simp: node_ref_def node_data_def add_ref_def write_node_def nth_list_update)

subsection \<open>The invariant\<close>

text \<open>
  The reference count of a node is the number of readers that pin it; the node being written
  is neither current nor held; what is current or held was published as a whole.
\<close>

fun updater_ok :: "snapshot_manager \<Rightarrow> reader list \<Rightarrow> updater \<Rightarrow> bool" where
  "updater_ok m rs (Scanning c j) = (c = sm_current m)"
| "updater_ok m rs (Writing j) =
     (j < length (sm_nodes m) \<and> sm_current m \<noteq> Some j \<and> Holding j \<notin> set rs)"
| "updater_ok m rs u = True"

definition current_ok :: "rcu \<Rightarrow> bool" where
  "current_ok s \<longleftrightarrow> (case sm_current (rc_manager s) of None \<Rightarrow> False
     | Some k \<Rightarrow> k < length (sm_nodes (rc_manager s)) \<and> node_data (rc_manager s) k \<in> set (rc_history s))"

definition readers_ok :: "rcu \<Rightarrow> bool" where
  "readers_ok s \<longleftrightarrow> (\<forall>r \<in> set (rc_readers s). \<forall>k. reader_node r = Some k \<longrightarrow> k < length (sm_nodes (rc_manager s)))
     \<and> (\<forall>k. Holding k \<in> set (rc_readers s) \<longrightarrow> node_data (rc_manager s) k \<in> set (rc_history s))"

definition counts_ok :: "rcu \<Rightarrow> bool" where
  "counts_ok s \<longleftrightarrow> length (rc_readers s) < 2 ^ 64 \<and>
     (\<forall>k < length (sm_nodes (rc_manager s)). node_ref (rc_manager s) k = of_nat (pin_count k (rc_readers s)))"

definition rcu_inv :: "rcu \<Rightarrow> bool" where
  "rcu_inv s \<longleftrightarrow> counts_ok s \<and> current_ok s \<and> readers_ok s \<and>
     updater_ok (rc_manager s) (rc_readers s) (rc_updater s)"


lemma readers_ok_node:
  "\<lbrakk>readers_ok s; i < length (rc_readers s); reader_node (rc_readers s ! i) = Some k\<rbrakk>
    \<Longrightarrow> k < length (sm_nodes (rc_manager s))"
  by (auto simp: readers_ok_def)

lemma holding_update: "Holding k \<in> set (rs[i := r]) \<Longrightarrow> Holding k \<in> set rs \<or> r = Holding k"
  by (auto dest!: set_update_subset_insert [THEN subsetD])

text \<open>A reader only ever comes to hold the current node.\<close>

lemma reader_move:
  assumes inv: "rcu_inv s" and i: "i < length (rc_readers s)"
    and r: "\<And>k. reader_node r = Some k \<Longrightarrow> k < length (sm_nodes (rc_manager s))"
      "\<And>k. r = Holding k \<Longrightarrow> sm_current (rc_manager s) = Some k"
    and m: "length (sm_nodes m) = length (sm_nodes (rc_manager s))"
      "sm_current m = sm_current (rc_manager s)"
      "\<And>k. k < length (sm_nodes m) \<Longrightarrow> node_data m k = node_data (rc_manager s) k"
      "\<And>k. k < length (sm_nodes m) \<Longrightarrow>
         node_ref m k + (if pins k (rc_readers s ! i) then 1 else 0)
         = node_ref (rc_manager s) k + (if pins k r then 1 else 0)"
  shows "rcu_inv (set_reader i r (s\<lparr>rc_manager := m\<rparr>))"
  unfolding rcu_inv_def
proof (intro conjI)
  show "counts_ok (set_reader i r (s\<lparr>rc_manager := m\<rparr>))"
    unfolding counts_ok_def
  proof (simp add: m(1), intro conjI allI impI)
    show "length (rc_readers s) < 18446744073709551616" using inv by (simp add: rcu_inv_def counts_ok_def)
    fix k assume k: "k < length (sm_nodes (rc_manager s))"
    have "of_nat (pin_count k ((rc_readers s)[i := r]) + (if pins k (rc_readers s ! i) then 1 else 0))
        = (of_nat (pin_count k (rc_readers s) + (if pins k r then 1 else 0)) :: u64)"
      by (simp only: pin_count_update [OF i])
    also have "\<dots> = node_ref (rc_manager s) k + (if pins k r then 1 else 0)"
      using inv k by (simp add: rcu_inv_def counts_ok_def)
    also have "\<dots> = node_ref m k + (if pins k (rc_readers s ! i) then 1 else 0)"
      using m(1,4) k by simp
    finally show "node_ref m k = of_nat (pin_count k ((rc_readers s)[i := r]))"
      by (simp split: if_splits)
  qed
  show "current_ok (set_reader i r (s\<lparr>rc_manager := m\<rparr>))"
    using inv m(1-3) by (auto simp: rcu_inv_def current_ok_def split: option.splits)
  have "Holding k \<in> set ((rc_readers s)[i := r]) \<Longrightarrow>
      k < length (sm_nodes (rc_manager s)) \<and> node_data (rc_manager s) k \<in> set (rc_history s)" for k
    using inv r(2) [of k]
    by (auto dest!: holding_update simp: rcu_inv_def readers_ok_def current_ok_def)
  then show "readers_ok (set_reader i r (s\<lparr>rc_manager := m\<rparr>))"
    using inv r(1) m(1,3)
    by (auto simp: rcu_inv_def readers_ok_def dest!: set_update_subset_insert [THEN subsetD])
  show "updater_ok (rc_manager (set_reader i r (s\<lparr>rc_manager := m\<rparr>)))
      (rc_readers (set_reader i r (s\<lparr>rc_manager := m\<rparr>))) (rc_updater (set_reader i r (s\<lparr>rc_manager := m\<rparr>)))"
    using inv r(2) m(1,2)
    by (cases "rc_updater s") (auto simp: rcu_inv_def dest!: holding_update)
qed

lemma updater_ok_quiet [simp]: "updater_ok m rs Quiet" "updater_ok m rs Published"
  by simp_all

lemma unpinned: "\<lbrakk>counts_ok s; j < length (sm_nodes (rc_manager s)); node_ref (rc_manager s) j = 0\<rbrakk>
    \<Longrightarrow> Holding j \<notin> set (rc_readers s)"
proof -
  assume a: "counts_ok s" "j < length (sm_nodes (rc_manager s))" "node_ref (rc_manager s) j = 0"
  have "unat (of_nat (pin_count j (rc_readers s)) :: u64) = pin_count j (rc_readers s)"
    using a(1) pin_count_le [of j "rc_readers s"] by (simp add: counts_ok_def unsigned_of_nat take_bit_nat_eq_self)
  then show ?thesis using a by (auto simp: counts_ok_def intro!: pin_count_zero)
qed

lemma rcu_inv_step: "\<lbrakk>rcu_step s t; rcu_inv s\<rbrakk> \<Longrightarrow> rcu_inv t"
proof (induction rule: rcu_step.induct)
  case (load i s k)
  then show ?case
    using reader_move [of s i "Loaded k" "rc_manager s"] by (auto simp: rcu_inv_def current_ok_def)
next
  case (pin i s k)
  then have "k < length (sm_nodes (rc_manager s))"
    by (intro readers_ok_node [of s i]) (simp_all add: rcu_inv_def)
  then show ?case using pin by (intro reader_move) auto
next
  case (recheck i s k)
  then have "k < length (sm_nodes (rc_manager s))"
    by (intro readers_ok_node [of s i]) (simp_all add: rcu_inv_def)
  then show ?case
    using recheck reader_move [of s i "Holding k" "rc_manager s"] reader_move [of s i "Lost k" "rc_manager s"]
    by (cases "sm_current (rc_manager s) = Some k") simp_all
next
  case (undo i s k)
  then have "k < length (sm_nodes (rc_manager s))"
    by (intro readers_ok_node [of s i]) (simp_all add: rcu_inv_def)
  then show ?case using undo by (intro reader_move) auto
next
  case (release i s k)
  then have "k < length (sm_nodes (rc_manager s))"
    by (intro readers_ok_node [of s i]) (simp_all add: rcu_inv_def)
  then show ?case using release by (intro reader_move) auto
next
  case (choose s c j)
  then show ?case using unpinned [of s j]
    by (auto simp: rcu_inv_def counts_ok_def current_ok_def readers_ok_def split: option.splits)
next
  case (store s j x)
  then have j: "j < length (sm_nodes (rc_manager s))" "Holding j \<notin> set (rc_readers s)"
    "sm_current (rc_manager s) \<noteq> Some j" by (simp_all add: rcu_inv_def)
  then show ?case using store
    by (auto simp: rcu_inv_def counts_ok_def current_ok_def readers_ok_def split: option.splits)
next
  case (publish s j)
  then show ?case by (auto simp: rcu_inv_def counts_ok_def current_ok_def readers_ok_def)
qed (auto simp: rcu_inv_def counts_ok_def current_ok_def readers_ok_def split: option.splits)

lemma rcu_inv_start: "n < 2 ^ 64 \<Longrightarrow> rcu_inv (rcu_start depth n)"
  by (auto simp: rcu_inv_def rcu_start_def counts_ok_def current_ok_def readers_ok_def
      new_snapshot_manager_def NUM_NODES_def node_ref_def)

subsection \<open>Held snapshots\<close>

inductive_cases rcu_stepE: "rcu_step s t"

lemma held_unchanged:
  assumes "rcu_step s t" "rcu_inv s" "i < length (rc_readers s)" "rc_readers s ! i = Holding k"
  shows "node_data (rc_manager t) k = node_data (rc_manager s) k"
proof -
  have k: "k < length (sm_nodes (rc_manager s))" "Holding k \<in> set (rc_readers s)"
    using assms(2-4) by (auto simp: rcu_inv_def intro!: readers_ok_node [of s i] nth_mem)
      (metis nth_mem)
  have b: "k' < length (sm_nodes (rc_manager s))" if "j < length (rc_readers s)"
    "reader_node (rc_readers s ! j) = Some k'" for j k'
    using readers_ok_node [of s j k'] that assms(2) by (simp add: rcu_inv_def)
  show ?thesis
    using assms(1,2) k
    by (cases rule: rcu_stepE) (auto simp: rcu_inv_def dest: b)
qed

lemma readers_length: "rcu_step s t \<Longrightarrow> length (rc_readers t) = length (rc_readers s)"
  by (induction rule: rcu_step.induct) auto

subsection \<open>The sequential calls are runs\<close>

lemma add_ref_get: "snd (get_snapshot m) = (case sm_current m of None \<Rightarrow> m | Some k \<Rightarrow> add_ref k 1 m)"
  by (simp add: get_snapshot_def add_ref_def split: option.splits)

lemma add_ref_release: "release_snapshot (Some k) m = add_ref k (- 1) m"
  by (simp add: release_snapshot_def add_ref_def)

lemma scan_run:
  assumes "rc_updater s = Scanning (sm_current (rc_manager s)) j" "j \<le> length (sm_nodes (rc_manager s))"
  shows "rcu_step\<^sup>*\<^sup>* s (s\<lparr>rc_updater :=
    (case find_free (drop j (sm_nodes (rc_manager s))) (sm_current (rc_manager s)) j of
       None \<Rightarrow> Quiet | Some k \<Rightarrow> Writing k)\<rparr>)"
  using assms
proof (induction "length (sm_nodes (rc_manager s)) - j" arbitrary: j s)
  case 0
  then show ?case using rcu_step.give_up [of s "sm_current (rc_manager s)" j] by auto
next
  case (Suc n)
  let ?t = "s\<lparr>rc_updater := Scanning (sm_current (rc_manager s)) (Suc j)\<rparr>"
  have j: "j < length (sm_nodes (rc_manager s))" using Suc.hyps(2) by simp
  note d = Cons_nth_drop_Suc [OF j, symmetric]
  show ?case
  proof (cases "sm_current (rc_manager s) = Some j \<or> node_ref (rc_manager s) j \<noteq> 0")
    case True
    have "rcu_step s ?t" using Suc.prems j True by (intro rcu_step.skip) auto
    moreover have "rcu_step\<^sup>*\<^sup>* ?t (?t\<lparr>rc_updater :=
      (case find_free (drop (Suc j) (sm_nodes (rc_manager ?t))) (sm_current (rc_manager ?t)) (Suc j) of
         None \<Rightarrow> Quiet | Some k \<Rightarrow> Writing k)\<rparr>)"
      using Suc.hyps(2) j by (intro Suc.hyps(1)) auto
    ultimately show ?thesis
      using True by (auto simp: d node_ref_def intro: converse_rtranclp_into_rtranclp)
  next
    case False
    then have "rcu_step s (s\<lparr>rc_updater := Writing j\<rparr>)"
      using Suc.prems j by (intro rcu_step.choose) auto
    then show ?thesis using False by (auto simp: d node_ref_def)
  qed
qed

lemma update_run:
  assumes "rc_updater s = Quiet" "update_snapshot b (rc_manager s) = Inr m"
  shows "\<exists>h. rcu_step\<^sup>*\<^sup>* s (s\<lparr>rc_manager := m, rc_history := h\<rparr>)"
proof -
  let ?m = "rc_manager s"
  let ?s1 = "s\<lparr>rc_updater := Scanning (sm_current ?m) 0\<rparr>"
  have start: "rcu_step s ?s1" using assms(1) by (rule rcu_step.start)
  have scan: "rcu_step\<^sup>*\<^sup>* ?s1 (s\<lparr>rc_updater := (case find_free_node ?m of None \<Rightarrow> Quiet | Some k \<Rightarrow> Writing k)\<rparr>)"
    using scan_run [of ?s1 0] by (simp add: find_free_node_def)
  show ?thesis
  proof (cases "find_free_node ?m")
    case None
    then have "m = ?m" using assms(2) by (simp add: update_snapshot_def)
    moreover have "s\<lparr>rc_updater := Quiet\<rparr> = s" using assms(1) by simp
    ultimately show ?thesis
      using start scan None by (intro exI [of _ "rc_history s"])
        (auto intro: converse_rtranclp_into_rtranclp)
  next
    case (Some k)
    then obtain x where x: "capture_snapshot (sm_depth ?m) b (sn_snapshot (sm_nodes ?m ! k)) = Inr x"
      "m = (write_node k x ?m)\<lparr>sm_current := Some k, sm_update_count := sm_update_count ?m + 1\<rparr>"
      using assms(2) by (auto simp: update_snapshot_def write_node_def res_bind_Inr_iff)
    let ?s2 = "s\<lparr>rc_updater := Writing k\<rparr>"
    let ?s3 = "?s2\<lparr>rc_manager := write_node k x ?m\<rparr>"
    let ?h = "node_data (write_node k x ?m) k # rc_history s"
    let ?s4 = "?s3\<lparr>rc_manager := (write_node k x ?m)\<lparr>sm_current := Some k\<rparr>, rc_updater := Published,
        rc_history := ?h\<rparr>"
    have "rcu_step\<^sup>*\<^sup>* s ?s2" using start scan Some by (auto intro: converse_rtranclp_into_rtranclp)
    also have "rcu_step\<^sup>*\<^sup>* ?s2 ?s3" using rcu_step.store [of ?s2 k x] by auto
    also have "rcu_step\<^sup>*\<^sup>* ?s3 ?s4" using rcu_step.publish [of ?s3 k] by auto
    also have "rcu_step\<^sup>*\<^sup>* ?s4 (s\<lparr>rc_manager := m, rc_history := ?h\<rparr>)"
      using rcu_step.finish [of ?s4] assms(1) x(2) by (cases s) (auto simp: write_node_def)
    finally show ?thesis by blast
  qed
qed

text \<open>
  C33: the sequential calls are runs of the protocol.  Undisturbed, \<open>get_snapshot\<close> takes a
  reader from outside to holding the current node, \<open>release_snapshot\<close> takes it back, and
  \<open>update\<close> takes the quiet updater through scan, writes, publication and count, each with
  exactly the effect that the function has on the manager; so what holds of all interleavings
  holds of the calls.
\<close>

theorem sequential_calls_are_runs:
  assumes "i < length (rc_readers s)"
  shows "(rc_readers s ! i = Outside \<and> sm_current (rc_manager s) = Some k \<longrightarrow>
      fst (get_snapshot (rc_manager s)) = Some k \<and>
      rcu_step\<^sup>*\<^sup>* s (set_reader i (Holding k) (s\<lparr>rc_manager := snd (get_snapshot (rc_manager s))\<rparr>))) \<and>
    (rc_readers s ! i = Holding k \<longrightarrow>
      rcu_step\<^sup>*\<^sup>* s (set_reader i Outside (s\<lparr>rc_manager := release_snapshot (Some k) (rc_manager s)\<rparr>))) \<and>
    (rc_updater s = Quiet \<and> update_snapshot b (rc_manager s) = Inr m \<longrightarrow>
      (\<exists>h. rcu_step\<^sup>*\<^sup>* s (s\<lparr>rc_manager := m, rc_history := h\<rparr>)))"
proof (intro conjI impI)
  assume a: "rc_readers s ! i = Outside \<and> sm_current (rc_manager s) = Some k"
  then show "fst (get_snapshot (rc_manager s)) = Some k" by (simp add: get_snapshot_def)
  let ?s1 = "set_reader i (Loaded k) s"
  let ?s2 = "set_reader i (Pinned k) (s\<lparr>rc_manager := add_ref k 1 (rc_manager s)\<rparr>)"
  have "rcu_step\<^sup>*\<^sup>* s ?s1" using a assms rcu_step.load [of i s k] by auto
  also have "rcu_step\<^sup>*\<^sup>* ?s1 ?s2" using assms rcu_step.pin [of i ?s1 k] by auto
  also have "rcu_step\<^sup>*\<^sup>* ?s2 (set_reader i (Holding k) (s\<lparr>rc_manager := add_ref k 1 (rc_manager s)\<rparr>))"
    using a assms rcu_step.recheck [of i ?s2 k] by auto
  finally show "rcu_step\<^sup>*\<^sup>* s
      (set_reader i (Holding k) (s\<lparr>rc_manager := snd (get_snapshot (rc_manager s))\<rparr>))"
    using a by (simp add: add_ref_get)
next
  assume "rc_readers s ! i = Holding k"
  then show "rcu_step\<^sup>*\<^sup>* s (set_reader i Outside (s\<lparr>rc_manager := release_snapshot (Some k) (rc_manager s)\<rparr>))"
    using assms rcu_step.release [of i s k] by (auto simp: add_ref_release)
qed (auto intro: update_run)

theorem sequential_calls_are_runs_witness:
  "fst (get_snapshot (new_snapshot_manager 5)) = Some 0 \<and>
   rcu_step\<^sup>*\<^sup>* (rcu_start 5 1) (set_reader 0 (Holding 0)
     (rcu_start 5 1\<lparr>rc_manager := snd (get_snapshot (new_snapshot_manager 5))\<rparr>))"
  using sequential_calls_are_runs [of 0 "rcu_start 5 1" 0]
  by (simp add: rcu_start_def new_snapshot_manager_def)

end
