(* ===== verification/Snapshot_Order.thy ===== *)
theory Snapshot_Order
  imports Snapshot_Rcu
begin

text \<open>
  The snapshot manager under the memory orders that the code asks for.  An atomic variable is the
  list of the values stored to it, in their order, each with the view of the thread that stored it:
  how much of every variable that thread had seen.  A load may return any value that its thread's
  view does not rule out, and an acquiring load takes over the view of the store that it reads; a
  releasing store leaves the view of its thread; a read-modify-write reads the newest value.
  \<open>SnapshotNode::ref_count\<close> and \<open>m_current\<close> are such variables; the contents of the nodes are plain
  memory.
\<close>

subsection \<open>Views and messages\<close>

record view =
  vw_current :: nat
  vw_ref :: "nat \<Rightarrow> nat"

definition no_view :: view where
  "no_view = \<lparr>vw_current = 0, vw_ref = (\<lambda>_. 0)\<rparr>"

definition join :: "view \<Rightarrow> view \<Rightarrow> view" where
  "join v w = \<lparr>vw_current = max (vw_current v) (vw_current w),
     vw_ref = (\<lambda>k. max (vw_ref v k) (vw_ref w k))\<rparr>"

lemma join_no_view [simp]: "join v no_view = v"
  by (simp add: join_def no_view_def)

lemma join_current [simp]: "vw_current (join v w) = max (vw_current v) (vw_current w)"
  by (simp add: join_def)

text \<open>
  The protocol state of \<open>Snapshot_Rcu\<close>, whose manager holds the newest values, with the messages of
  \<open>m_current\<close> and of the reference counts, and the views of the threads.
\<close>

record ra =
  ra_rcu :: rcu
  ra_current :: "(nat \<times> view) list"
  ra_refs :: "nat \<Rightarrow> (u64 \<times> view) list"
  ra_views :: "view list"
  ra_updater_view :: view

abbreviation ra_readers :: "ra \<Rightarrow> reader list" where
  "ra_readers s \<equiv> rc_readers (ra_rcu s)"

abbreviation ra_manager :: "ra \<Rightarrow> snapshot_manager" where
  "ra_manager s \<equiv> rc_manager (ra_rcu s)"

subsection \<open>Accesses\<close>

text \<open>The messages that a thread with the index \<open>seen\<close> may still read; \<open>fresh\<close> asks for the newest.\<close>

definition may_read :: "bool \<Rightarrow> nat \<Rightarrow> 'm list \<Rightarrow> nat \<Rightarrow> bool" where
  "may_read fresh seen ms j \<longleftrightarrow> seen \<le> j \<and> j < length ms \<and> (fresh \<longrightarrow> Suc j = length ms)"

text \<open>The view after an acquiring load of message \<open>j\<close> of \<open>m_current\<close> or of the count of node \<open>k\<close>.\<close>

definition after_current :: "nat \<Rightarrow> view \<Rightarrow> view \<Rightarrow> view" where
  "after_current j w v = join (v\<lparr>vw_current := j\<rparr>) w"

definition after_ref :: "nat \<Rightarrow> nat \<Rightarrow> view \<Rightarrow> view \<Rightarrow> view" where
  "after_ref k j w v = join (v\<lparr>vw_ref := (vw_ref v)(k := j)\<rparr>) w"

text \<open>
  \<open>fetch_add\<close> with \<open>memory_order_acq_rel\<close>, and \<open>fetch_sub\<close> with \<open>memory_order_release\<close>, which does not
  take over the view that it reads but hands it on (a release sequence).
\<close>

definition fetch_add_acq_rel :: "nat \<Rightarrow> nat \<Rightarrow> ra \<Rightarrow> ra" where
  "fetch_add_acq_rel i k s =
     (case last (ra_refs s k) of (x, w) \<Rightarrow>
        let v = after_ref k (length (ra_refs s k)) w (ra_views s ! i)
        in s\<lparr>ra_refs := (ra_refs s)(k := ra_refs s k @ [(x + 1, v)]), ra_views := (ra_views s)[i := v]\<rparr>)"

definition fetch_sub_release :: "nat \<Rightarrow> nat \<Rightarrow> ra \<Rightarrow> ra" where
  "fetch_sub_release i k s =
     (case last (ra_refs s k) of (x, w) \<Rightarrow>
        let v = after_ref k (length (ra_refs s k)) no_view (ra_views s ! i)
        in s\<lparr>ra_refs := (ra_refs s)(k := ra_refs s k @ [(x - 1, join v w)]), ra_views := (ra_views s)[i := v]\<rparr>)"

text \<open>
  The steps are those of \<open>rcu_step\<close>, access by access.  \<open>fresh\<close> makes two loads read the newest value,
  the second load of \<open>m_current\<close> in \<open>get_snapshot\<close> (line 47 of the file) and the loads of the counts
  in \<open>find_free_node\<close> (line 81); \<open>ra_step False\<close> is the code.
\<close>

inductive ra_step :: "bool \<Rightarrow> ra \<Rightarrow> ra \<Rightarrow> bool" for fresh where
  load: "\<lbrakk>i < length (ra_readers s); ra_readers s ! i = Outside;
      may_read False (vw_current (ra_views s ! i)) (ra_current s) j; ra_current s ! j = (k, w)\<rbrakk>
    \<Longrightarrow> ra_step fresh s (s\<lparr>ra_rcu := set_reader i (Loaded k) (ra_rcu s),
          ra_views := (ra_views s)[i := after_current j w (ra_views s ! i)]\<rparr>)"
| pin: "\<lbrakk>i < length (ra_readers s); ra_readers s ! i = Loaded k\<rbrakk>
    \<Longrightarrow> ra_step fresh s ((fetch_add_acq_rel i k s)\<lparr>ra_rcu :=
          set_reader i (Pinned k) ((ra_rcu s)\<lparr>rc_manager := add_ref k 1 (ra_manager s)\<rparr>)\<rparr>)"
| recheck: "\<lbrakk>i < length (ra_readers s); ra_readers s ! i = Pinned k;
      may_read fresh (vw_current (ra_views s ! i)) (ra_current s) j; ra_current s ! j = (c, w)\<rbrakk>
    \<Longrightarrow> ra_step fresh s (s\<lparr>ra_rcu := set_reader i (if c = k then Holding k else Lost k) (ra_rcu s),
          ra_views := (ra_views s)[i := after_current j w (ra_views s ! i)]\<rparr>)"
| undo: "\<lbrakk>i < length (ra_readers s); ra_readers s ! i = Lost k\<rbrakk>
    \<Longrightarrow> ra_step fresh s ((fetch_sub_release i k s)\<lparr>ra_rcu :=
          set_reader i Outside ((ra_rcu s)\<lparr>rc_manager := add_ref k (- 1) (ra_manager s)\<rparr>)\<rparr>)"
| release: "\<lbrakk>i < length (ra_readers s); ra_readers s ! i = Holding k\<rbrakk>
    \<Longrightarrow> ra_step fresh s ((fetch_sub_release i k s)\<lparr>ra_rcu :=
          set_reader i Outside ((ra_rcu s)\<lparr>rc_manager := add_ref k (- 1) (ra_manager s)\<rparr>)\<rparr>)"
| start: "\<lbrakk>rc_updater (ra_rcu s) = Quiet;
      may_read False (vw_current (ra_updater_view s)) (ra_current s) j; ra_current s ! j = (c, w)\<rbrakk>
    \<Longrightarrow> ra_step fresh s (s\<lparr>ra_rcu := (ra_rcu s)\<lparr>rc_updater := Scanning (Some c) 0\<rparr>,
          ra_updater_view := after_current j w (ra_updater_view s)\<rparr>)"
| skip: "\<lbrakk>rc_updater (ra_rcu s) = Scanning (Some k) k; k < length (sm_nodes (ra_manager s))\<rbrakk>
    \<Longrightarrow> ra_step fresh s (s\<lparr>ra_rcu := (ra_rcu s)\<lparr>rc_updater := Scanning (Some k) (Suc k)\<rparr>\<rparr>)"
| busy: "\<lbrakk>rc_updater (ra_rcu s) = Scanning c k; k < length (sm_nodes (ra_manager s)); c \<noteq> Some k;
      may_read fresh (vw_ref (ra_updater_view s) k) (ra_refs s k) j; ra_refs s k ! j = (x, w); x \<noteq> 0\<rbrakk>
    \<Longrightarrow> ra_step fresh s (s\<lparr>ra_rcu := (ra_rcu s)\<lparr>rc_updater := Scanning c (Suc k)\<rparr>,
          ra_updater_view := after_ref k j w (ra_updater_view s)\<rparr>)"
| choose: "\<lbrakk>rc_updater (ra_rcu s) = Scanning c k; k < length (sm_nodes (ra_manager s)); c \<noteq> Some k;
      may_read fresh (vw_ref (ra_updater_view s) k) (ra_refs s k) j; ra_refs s k ! j = (0, w)\<rbrakk>
    \<Longrightarrow> ra_step fresh s (s\<lparr>ra_rcu := (ra_rcu s)\<lparr>rc_updater := Writing k\<rparr>,
          ra_updater_view := after_ref k j w (ra_updater_view s)\<rparr>)"
| give_up: "\<lbrakk>rc_updater (ra_rcu s) = Scanning c k; \<not> k < length (sm_nodes (ra_manager s))\<rbrakk>
    \<Longrightarrow> ra_step fresh s (s\<lparr>ra_rcu := (ra_rcu s)\<lparr>rc_updater := Quiet\<rparr>\<rparr>)"
| store: "rc_updater (ra_rcu s) = Writing k
    \<Longrightarrow> ra_step fresh s (s\<lparr>ra_rcu := (ra_rcu s)\<lparr>rc_manager := write_node k x (ra_manager s)\<rparr>\<rparr>)"
| publish: "\<lbrakk>rc_updater (ra_rcu s) = Writing k; v = (ra_updater_view s)\<lparr>vw_current := length (ra_current s)\<rparr>\<rbrakk>
    \<Longrightarrow> ra_step fresh s (s\<lparr>ra_rcu := (ra_rcu s)\<lparr>rc_manager := (ra_manager s)\<lparr>sm_current := Some k\<rparr>,
            rc_updater := Published, rc_history := node_data (ra_manager s) k # rc_history (ra_rcu s)\<rparr>,
          ra_current := ra_current s @ [(k, v)], ra_updater_view := v\<rparr>)"
| finish: "rc_updater (ra_rcu s) = Published
    \<Longrightarrow> ra_step fresh s (s\<lparr>ra_rcu := (ra_rcu s)\<lparr>rc_manager :=
            (ra_manager s)\<lparr>sm_update_count := sm_update_count (ra_manager s) + 1\<rparr>, rc_updater := Quiet\<rparr>\<rparr>)"

definition ra_start :: "nat \<Rightarrow> nat \<Rightarrow> ra" where
  "ra_start depth n = \<lparr>ra_rcu = rcu_start depth n, ra_current = [(0, no_view)],
     ra_refs = (\<lambda>_. [(0, no_view)]), ra_views = replicate n no_view, ra_updater_view = no_view\<rparr>"

subsection \<open>Coherence\<close>

text \<open>
  The newest messages are the values of the manager; every store to \<open>m_current\<close> named a node; the
  updater, which alone stores to \<open>m_current\<close>, has seen all of these stores.
\<close>

definition view_below :: "nat \<Rightarrow> view \<Rightarrow> bool" where
  "view_below n v \<longleftrightarrow> vw_current v < n"

definition coherent :: "ra \<Rightarrow> bool" where
  "coherent s \<longleftrightarrow> ra_current s \<noteq> [] \<and> sm_current (ra_manager s) = Some (fst (last (ra_current s))) \<and>
     (\<forall>m \<in> set (ra_current s). fst m < length (sm_nodes (ra_manager s)) \<and> view_below (length (ra_current s)) (snd m)) \<and>
     (\<forall>k < length (sm_nodes (ra_manager s)). ra_refs s k \<noteq> [] \<and> fst (last (ra_refs s k)) = node_ref (ra_manager s) k) \<and>
     (\<forall>k. \<forall>m \<in> set (ra_refs s k). view_below (length (ra_current s)) (snd m)) \<and>
     (\<forall>v \<in> set (ra_views s). view_below (length (ra_current s)) v) \<and>
     length (ra_views s) = length (ra_readers s) \<and>
     Suc (vw_current (ra_updater_view s)) = length (ra_current s)"

definition ra_inv :: "ra \<Rightarrow> bool" where
  "ra_inv s \<longleftrightarrow> rcu_inv (ra_rcu s) \<and> coherent s"

lemma below_after [simp]:
  "view_below n (after_current j w v) \<longleftrightarrow> j < n \<and> view_below n w" "view_below n (after_ref k j w v) \<longleftrightarrow> view_below n v \<and> view_below n w"
  "view_below n (join v w) \<longleftrightarrow> view_below n v \<and> view_below n w"
  by (auto simp: view_below_def after_current_def after_ref_def)

lemma below_Suc: "view_below n v \<Longrightarrow> view_below (Suc n) v"
  by (simp add: view_below_def)

lemma after_updater [simp]: "vw_current (after_ref k j w v) = max (vw_current v) (vw_current w)"
  by (simp add: after_ref_def)

lemma in_views: "coherent s \<Longrightarrow> i < length (ra_readers s) \<Longrightarrow> view_below (length (ra_current s)) (ra_views s ! i)"
  by (simp add: coherent_def)

lemma in_current: "\<lbrakk>coherent s; j < length (ra_current s); ra_current s ! j = (k, w)\<rbrakk>
    \<Longrightarrow> k < length (sm_nodes (ra_manager s)) \<and> view_below (length (ra_current s)) w"
  by (fastforce simp: coherent_def dest: nth_mem)

lemma in_refs: "\<lbrakk>coherent s; j < length (ra_refs s k); ra_refs s k ! j = (x, w)\<rbrakk>
    \<Longrightarrow> view_below (length (ra_current s)) w"
  by (fastforce simp: coherent_def dest: nth_mem)

lemma newest_last: "Suc j = length ms \<Longrightarrow> ms ! j = m \<Longrightarrow> last ms = m"
  by (cases ms rule: rev_cases) auto

lemma newest_current: "\<lbrakk>coherent s; Suc j = length (ra_current s); ra_current s ! j = (k, w)\<rbrakk>
    \<Longrightarrow> sm_current (ra_manager s) = Some k"
  by (auto simp: coherent_def dest: newest_last)

lemma newest_ref:
  assumes "coherent s" "k < length (sm_nodes (ra_manager s))" "Suc j = length (ra_refs s k)" "ra_refs s k ! j = (x, w)"
  shows "x = node_ref (ra_manager s) k"
  using newest_last [OF assms(3,4)] assms(1,2) by (force simp: coherent_def)

text \<open>
  If the two loads see the newest value, a step is one of the protocol, or the first load of a
  reader that returns an older node.
\<close>

lemma ra_projects:
  assumes "ra_step True s t" "coherent s"
  shows "rcu_step (ra_rcu s) (ra_rcu t) \<or> (\<exists>i k. i < length (ra_readers s) \<and> ra_readers s ! i = Outside \<and>
    k < length (sm_nodes (ra_manager s)) \<and> ra_rcu t = set_reader i (Loaded k) (ra_rcu s))"
  using assms
proof (induction rule: ra_step.induct)
  case (load i s j k w)
  then show ?case using in_current [of s j k w] by (auto simp: may_read_def)
next
  case (recheck i s k j c w)
  then have "sm_current (ra_manager s) = Some c" by (intro newest_current) (simp_all add: may_read_def)
  then show ?case using rcu_step.recheck [of i "ra_rcu s" k] recheck by simp
next
  case (start s j c w)
  then have "Suc j = length (ra_current s)" by (simp add: may_read_def coherent_def)
  then have "sm_current (ra_manager s) = Some c" using start newest_current by blast
  then show ?case using rcu_step.start [of "ra_rcu s"] start by simp
next
  case (busy s c k j x w)
  then have "x = node_ref (ra_manager s) k" by (intro newest_ref) (simp_all add: may_read_def)
  then show ?case using rcu_step.skip [of "ra_rcu s" c k] busy by simp
next
  case (choose s c k j w)
  then have "0 = node_ref (ra_manager s) k" by (intro newest_ref) (simp_all add: may_read_def)
  then show ?case using rcu_step.choose [of "ra_rcu s" c k] choose by simp
next
  case (pin i s k)
  then show ?case using rcu_step.pin [of i "ra_rcu s" k] by simp
next
  case (undo i s k)
  then show ?case using rcu_step.undo [of i "ra_rcu s" k] by simp
next
  case (release i s k)
  then show ?case using rcu_step.release [of i "ra_rcu s" k] by simp
qed (auto intro: rcu_step.intros)

lemma projection_inv:
  assumes "ra_step True s t" "ra_inv s"
  shows "rcu_inv (ra_rcu t)"
proof -
  have c: "coherent s" "rcu_inv (ra_rcu s)" using assms(2) by (simp_all add: ra_inv_def)
  from ra_projects [OF assms(1) c(1)] show ?thesis
  proof
    assume "rcu_step (ra_rcu s) (ra_rcu t)"
    then show ?thesis using rcu_inv_step c(2) by blast
  next
    assume "\<exists>i k. i < length (ra_readers s) \<and> ra_readers s ! i = Outside \<and>
      k < length (sm_nodes (ra_manager s)) \<and> ra_rcu t = set_reader i (Loaded k) (ra_rcu s)"
    then obtain i k where "i < length (ra_readers s)" "ra_readers s ! i = Outside"
      "k < length (sm_nodes (ra_manager s))" "ra_rcu t = set_reader i (Loaded k) (ra_rcu s)" by blast
    then show ?thesis using reader_move [OF c(2), of i "Loaded k" "ra_manager s"] by simp
  qed
qed

lemma coherent_push:
  assumes c: "coherent s" and k: "k < length (sm_nodes (ra_manager s))" and i: "i < length (ra_readers s)"
    and msg: "x = node_ref (ra_manager s) k + d" "view_below (length (ra_current s)) v" "view_below (length (ra_current s)) u"
  shows "coherent (s\<lparr>ra_refs := (ra_refs s)(k := ra_refs s k @ [(x, u)]), ra_views := (ra_views s)[i := v],
    ra_rcu := set_reader i r ((ra_rcu s)\<lparr>rc_manager := add_ref k d (ra_manager s)\<rparr>)\<rparr>)"
  using assms unfolding coherent_def
  by (auto dest!: set_update_subset_insert [THEN subsetD])

lemma last_ref:
  assumes "coherent s" "k < length (sm_nodes (ra_manager s))" "last (ra_refs s k) = (x, w)"
  shows "x = node_ref (ra_manager s) k" "view_below (length (ra_current s)) w"
proof -
  have "ra_refs s k \<noteq> []" "fst (last (ra_refs s k)) = node_ref (ra_manager s) k"
    and v: "\<forall>m \<in> set (ra_refs s k). view_below (length (ra_current s)) (snd m)"
    using assms(1,2) by (simp_all add: coherent_def)
  then show "x = node_ref (ra_manager s) k" "view_below (length (ra_current s)) w"
    using v [rule_format, OF last_in_set] assms(3) by simp_all
qed

lemma coherent_add:
  assumes c: "coherent s" and k: "k < length (sm_nodes (ra_manager s))" and i: "i < length (ra_readers s)"
  shows "coherent ((fetch_add_acq_rel i k s)\<lparr>ra_rcu :=
    set_reader i r ((ra_rcu s)\<lparr>rc_manager := add_ref k 1 (ra_manager s)\<rparr>)\<rparr>)"
proof -
  obtain x w where m: "last (ra_refs s k) = (x, w)" by fastforce
  have "x = node_ref (ra_manager s) k" "view_below (length (ra_current s)) w" by (rule last_ref [OF c k m])+
  then show ?thesis
    using coherent_push [OF c k i, of "x + 1" 1] in_views [OF c i] m by (simp add: fetch_add_acq_rel_def Let_def)
qed

lemma coherent_sub:
  assumes c: "coherent s" and k: "k < length (sm_nodes (ra_manager s))" and i: "i < length (ra_readers s)"
  shows "coherent ((fetch_sub_release i k s)\<lparr>ra_rcu :=
    set_reader i r ((ra_rcu s)\<lparr>rc_manager := add_ref k (- 1) (ra_manager s)\<rparr>)\<rparr>)"
proof -
  obtain x w where m: "last (ra_refs s k) = (x, w)" by fastforce
  have "x = node_ref (ra_manager s) k" "view_below (length (ra_current s)) w" by (rule last_ref [OF c k m])+
  moreover have "view_below (length (ra_current s)) no_view"
    using c by (simp add: view_below_def no_view_def coherent_def)
  ultimately show ?thesis
    using coherent_push [OF c k i, of "x - 1" "- 1"] in_views [OF c i] m by (simp add: fetch_sub_release_def Let_def)
qed

lemma coherent_step:
  assumes "ra_step fresh s t" "coherent s" "rcu_inv (ra_rcu s)"
  shows "coherent t"
proof -
  have k: "k < length (sm_nodes (ra_manager s))" if "i < length (ra_readers s)" "reader_node (ra_readers s ! i) = Some k" for i k
    using readers_ok_node [of "ra_rcu s" i k] that assms(3) by (simp add: rcu_inv_def)
  show ?thesis
    using assms
  proof cases
    case (load i j k w)
    then show ?thesis
      using in_current [OF assms(2), of j k w] assms(2)
      by (auto simp: coherent_def may_read_def dest!: set_update_subset_insert [THEN subsetD])
  next
    case (pin i k)
    then show ?thesis using coherent_add [OF assms(2)] k [of i k] by simp
  next
    case (recheck i k j c w)
    then show ?thesis
      using in_current [OF assms(2), of j c w] assms(2)
      by (auto simp: coherent_def may_read_def dest!: set_update_subset_insert [THEN subsetD])
  next
    case (undo i k)
    then show ?thesis using coherent_sub [OF assms(2)] k [of i k] by simp
  next
    case (release i k)
    then show ?thesis using coherent_sub [OF assms(2)] k [of i k] by simp
  next
    case (start j c w)
    then show ?thesis
      using in_current [OF assms(2), of j c w] assms(2)
      by (auto simp: coherent_def may_read_def view_below_def after_current_def)
  next
    case (busy c k j x w)
    then show ?thesis
      using in_refs [OF assms(2), of j k x w] assms(2) by (auto simp: coherent_def may_read_def view_below_def)
  next
    case (choose c k j w)
    then show ?thesis
      using in_refs [OF assms(2), of j k 0 w] assms(2) by (auto simp: coherent_def may_read_def view_below_def)
  next
    case (store k x)
    moreover have "k < length (sm_nodes (ra_manager s))" using assms(3) store by (simp add: rcu_inv_def)
    ultimately show ?thesis using assms(2) by (simp add: coherent_def)
  next
    case (publish k v)
    moreover have "k < length (sm_nodes (ra_manager s))" using assms(3) publish by (simp add: rcu_inv_def)
    ultimately show ?thesis
      using assms(2) by (auto simp: coherent_def below_Suc) (simp add: view_below_def)
  qed (use assms(2) in \<open>auto simp: coherent_def\<close>)
qed

lemma ra_inv_start: "n < 2 ^ 64 \<Longrightarrow> ra_inv (ra_start depth n)"
  using rcu_inv_start [of n depth]
  by (auto simp: ra_inv_def ra_start_def coherent_def view_below_def no_view_def rcu_start_def new_snapshot_manager_def
      NUM_NODES_def node_ref_def nth_append numeral_3_eq_3 less_Suc_eq)

lemma ra_readers_length: "ra_step fresh s t \<Longrightarrow> length (ra_readers t) = length (ra_readers s)"
  by (induction rule: ra_step.induct) (auto simp: fetch_add_acq_rel_def fetch_sub_release_def Let_def)

lemma ra_reachable:
  assumes "(ra_step True)\<^sup>*\<^sup>* (ra_start depth n) s" "n < 2 ^ 64"
  shows "ra_inv s \<and> length (ra_readers s) = n"
  using assms(1)
proof (induction rule: rtranclp_induct)
  case base
  then show ?case using ra_inv_start [OF assms(2)] by (simp add: ra_start_def rcu_start_def)
next
  case (step s t)
  then show ?case
    using projection_inv coherent_step ra_readers_length by (auto simp: ra_inv_def)
qed

text \<open>No step changes the contents of a held node.\<close>

lemma held_stays:
  assumes "ra_step True s t" "ra_inv s" "i < length (ra_readers s)" "ra_readers s ! i = Holding k"
  shows "node_data (ra_manager t) k = node_data (ra_manager s) k"
  using ra_projects [OF assms(1)] assms(2-4) held_unchanged [of "ra_rcu s" "ra_rcu t" i k]
  by (auto simp: ra_inv_def)

subsection \<open>Properties\<close>

text \<open>
  C8: what the protocol needs of its memory orders.  Suppose that two kinds of loads see the newest
  value, the second load of \<open>m_current\<close> in \<open>get_snapshot\<close> and the loads of the reference counts in
  \<open>find_free_node\<close>, as with \<open>memory_order_seq_cst\<close> throughout; the acquire and release orders of the
  code do not promise this (see \<open>acquire_release_overwrites\<close>), and in the main program every manager
  is used by one thread only, which always sees its own stores.  Then, however the steps of any
  number of readers (below \<open>2 ^ 64\<close>) and of the updating thread interleave, and whichever older node
  a reader's first load returns: a snapshot that \<open>get_snapshot\<close> has returned and that is not
  released yet was published as a whole, its node is counted as in use and is not being written,
  and no step of any thread changes its contents.
\<close>

theorem held_snapshots_are_stable:
  assumes "(ra_step True)\<^sup>*\<^sup>* (ra_start depth n) s" "n < 2 ^ 64" "i < n" "ra_readers s ! i = Holding k"
  shows "node_data (ra_manager s) k \<in> set (rc_history (ra_rcu s)) \<and> node_ref (ra_manager s) k \<noteq> 0 \<and>
    rc_updater (ra_rcu s) \<noteq> Writing k \<and>
    (\<forall>t. ra_step True s t \<longrightarrow> node_data (ra_manager t) k = node_data (ra_manager s) k)"
proof -
  have ra: "ra_inv s" and i: "i < length (ra_readers s)" using ra_reachable [OF assms(1,2)] assms(3) by simp_all
  have inv: "rcu_inv (ra_rcu s)" using ra by (simp add: ra_inv_def)
  have h: "Holding k \<in> set (ra_readers s)" using assms(4) i nth_mem by metis
  have k: "k < length (sm_nodes (ra_manager s))"
    using readers_ok_node [of "ra_rcu s" i k] inv i assms(4) by (simp add: rcu_inv_def)
  have "node_data (ra_manager s) k \<in> set (rc_history (ra_rcu s))"
    using inv h by (simp add: rcu_inv_def readers_ok_def)
  moreover have "node_ref (ra_manager s) k \<noteq> 0"
    using unpinned [of "ra_rcu s" k] inv h k by (auto simp: rcu_inv_def)
  moreover have "rc_updater (ra_rcu s) \<noteq> Writing k" using inv h by (auto simp: rcu_inv_def)
  ultimately show ?thesis using held_stays [OF _ ra i assms(4)] by blast
qed

text \<open>
  The states of the two runs below: one reader moves, of which \<open>r\<close> is the state and \<open>v\<close> the view.
\<close>

definition one_reader ::
  "nat \<Rightarrow> nat \<Rightarrow> snapshot_manager \<Rightarrow> book_snapshot list \<Rightarrow> (nat \<times> view) list \<Rightarrow> (nat \<Rightarrow> (u64 \<times> view) list)
    \<Rightarrow> view \<Rightarrow> updater \<Rightarrow> view \<Rightarrow> reader \<Rightarrow> ra" where
  "one_reader n i m h cur refs w u v r = \<lparr>ra_rcu = \<lparr>rc_manager = m, rc_readers = (replicate n Outside)[i := r],
     rc_updater = u, rc_history = h\<rparr>, ra_current = cur, ra_refs = refs,
     ra_views = (replicate n no_view)[i := v], ra_updater_view = w\<rparr>"

abbreviation no_refs :: "nat \<Rightarrow> (u64 \<times> view) list" where
  "no_refs \<equiv> \<lambda>_. [(0, no_view)]"

abbreviation pinned_view :: view where
  "pinned_view \<equiv> no_view\<lparr>vw_ref := (\<lambda>_. 0)(0 := Suc 0)\<rparr>"

abbreviation published_view :: view where
  "published_view \<equiv> no_view\<lparr>vw_current := Suc 0\<rparr>"

lemma run_views:
  "after_current 0 no_view no_view = no_view" "after_current 0 no_view pinned_view = pinned_view"
  "after_current (Suc 0) published_view published_view = published_view"
  "after_ref k 0 no_view no_view = no_view" "after_ref k 0 no_view published_view = published_view"
  "after_ref 0 (Suc 0) no_view no_view = pinned_view"
  by (auto simp: after_current_def after_ref_def no_view_def join_def)

lemma new_manager_simps:
  "sm_current (new_snapshot_manager depth) = Some 0" "length (sm_nodes (new_snapshot_manager depth)) = 3"
  "node_ref (new_snapshot_manager depth) 0 = 0"
  by (simp_all add: new_snapshot_manager_def NUM_NODES_def node_ref_def)

lemma ra_start_one: "ra_start depth n = one_reader n i (new_snapshot_manager depth)
    [node_data (new_snapshot_manager depth) 0] [(0, no_view)] no_refs no_view Quiet no_view Outside"
  by (simp add: ra_start_def one_reader_def rcu_start_def list_update_same_conv)
    (metis list_update_id list_update_same_conv length_replicate not_less list_update_beyond nth_replicate)

lemmas run_simps = one_reader_def run_views new_manager_simps may_read_def

text \<open>The scan of an updater that has seen the initial snapshot only ends at the second node.\<close>

lemma first_scan:
  assumes m: "sm_current m = Some 0" "length (sm_nodes m) = 3" and refs: "refs 1 = [(0, no_view)]"
  shows "(ra_step fresh)\<^sup>*\<^sup>* (one_reader n i m h [(0, no_view)] refs no_view Quiet v r)
    (one_reader n i m h [(0, no_view)] refs no_view (Writing 1) v r)"
proof -
  let ?S = "\<lambda>u. one_reader n i m h [(0, no_view)] refs no_view u v r"
  have "ra_step fresh (?S Quiet) (?S (Scanning (Some 0) 0))"
    using ra_step.start [of "?S Quiet" 0 0 no_view fresh] by (simp add: run_simps) (simp add: no_view_def)
  moreover have "ra_step fresh (?S (Scanning (Some 0) 0)) (?S (Scanning (Some 0) 1))"
    using ra_step.skip [of "?S (Scanning (Some 0) 0)" 0 fresh] m by (simp add: run_simps)
  moreover have "ra_step fresh (?S (Scanning (Some 0) 1)) (?S (Writing 1))"
    using ra_step.choose [of "?S (Scanning (Some 0) 1)" "Some 0" 1 fresh 0 no_view] m refs
    by (simp add: run_simps) (simp add: no_view_def)
  ultimately show ?thesis by (meson converse_rtranclp_into_rtranclp rtranclp.rtrancl_refl)
qed

text \<open>It publishes that node, and its next scan ends at the first.\<close>

lemma second_scan:
  assumes m: "sm_current m = Some 0" "length (sm_nodes m) = 3"
  shows "\<exists>m' h'. (ra_step fresh)\<^sup>*\<^sup>* (one_reader n i m h [(0, no_view)] no_refs no_view Quiet v r)
    (one_reader n i m' h' [(0, no_view), (1, published_view)] no_refs published_view (Writing 0) v r) \<and>
    length (sm_nodes m') = 3 \<and> node_ref m' 0 = node_ref m 0"
proof -
  let ?S = "\<lambda>m h. one_reader n i m h [(0, no_view), (1, published_view)] no_refs published_view"
  let ?m1 = "m\<lparr>sm_current := Some 1\<rparr>" and ?h = "node_data m 1 # h"
  let ?m2 = "?m1\<lparr>sm_update_count := sm_update_count m + 1\<rparr>"
  have "(ra_step fresh)\<^sup>*\<^sup>* (one_reader n i m h [(0, no_view)] no_refs no_view Quiet v r)
    (one_reader n i m h [(0, no_view)] no_refs no_view (Writing 1) v r)"
    by (rule first_scan [OF m]) simp
  moreover have "ra_step fresh (one_reader n i m h [(0, no_view)] no_refs no_view (Writing 1) v r) (?S ?m1 ?h Published v r)"
    using ra_step.publish [of "one_reader n i m h [(0, no_view)] no_refs no_view (Writing 1) v r" 1 _ fresh]
    by (simp add: run_simps)
  moreover have "ra_step fresh (?S ?m1 ?h Published v r) (?S ?m2 ?h Quiet v r)"
    using ra_step.finish [of "?S ?m1 ?h Published v r" fresh] by (simp add: run_simps)
  moreover have "ra_step fresh (?S ?m2 ?h Quiet v r) (?S ?m2 ?h (Scanning (Some 1) 0) v r)"
    using ra_step.start [of "?S ?m2 ?h Quiet v r" 1 1 published_view fresh] by (simp add: run_simps)
  moreover have "ra_step fresh (?S ?m2 ?h (Scanning (Some 1) 0) v r) (?S ?m2 ?h (Writing 0) v r)"
    using ra_step.choose [of "?S ?m2 ?h (Scanning (Some 1) 0) v r" "Some 1" 0 fresh 0 no_view] m
    by (simp add: run_simps) (simp add: no_view_def)
  ultimately have "(ra_step fresh)\<^sup>*\<^sup>* (one_reader n i m h [(0, no_view)] no_refs no_view Quiet v r) (?S ?m2 ?h (Writing 0) v r)"
    by (meson rtranclp.rtrancl_into_rtrancl)
  then show ?thesis using m(2) by (intro exI [of _ ?m2] exI [of _ ?h]) simp
qed

text \<open>A reader that has seen nothing yet may take the first node whatever has been published since.\<close>

lemma reader_takes:
  assumes i: "i < n" and cur: "fresh \<longrightarrow> cur = []"
  shows "(ra_step fresh)\<^sup>*\<^sup>* (one_reader n i m h ((0, no_view) # cur) no_refs w u no_view Outside)
    (one_reader n i (add_ref 0 1 m) h ((0, no_view) # cur) (no_refs(0 := [(0, no_view), (1, pinned_view)]))
      w u pinned_view (Holding 0))"
proof -
  let ?S = "\<lambda>m refs. one_reader n i m h ((0, no_view) # cur) refs w u"
  let ?m = "add_ref 0 1 m" and ?refs = "no_refs(0 := [(0, no_view), (1, pinned_view)])"
  have "ra_step fresh (?S m no_refs no_view Outside) (?S m no_refs no_view (Loaded 0))"
    using ra_step.load [of i "?S m no_refs no_view Outside" 0 0 no_view fresh] i
    by (simp add: run_simps) (simp add: no_view_def)
  moreover have "ra_step fresh (?S m no_refs no_view (Loaded 0)) (?S ?m ?refs pinned_view (Pinned 0))"
    using ra_step.pin [of i "?S m no_refs no_view (Loaded 0)" 0 fresh] i
    by (simp add: run_simps fetch_add_acq_rel_def Let_def)
  moreover have "ra_step fresh (?S ?m ?refs pinned_view (Pinned 0)) (?S ?m ?refs pinned_view (Holding 0))"
    using ra_step.recheck [of i "?S ?m ?refs pinned_view (Pinned 0)" 0 fresh 0 0 no_view] i cur
    by (simp add: run_simps) (simp add: no_view_def)
  ultimately show ?thesis by (meson converse_rtranclp_into_rtranclp rtranclp.rtrancl_refl)
qed

text \<open>A reader that takes the initial snapshot while the updater fills the next node.\<close>

theorem held_snapshots_are_stable_witness:
  "\<exists>s. (ra_step True)\<^sup>*\<^sup>* (ra_start 5 1) s \<and> ra_readers s = [Holding 0] \<and> rc_updater (ra_rcu s) = Writing 1 \<and>
     node_ref (ra_manager s) 0 \<noteq> 0 \<and>
     (\<forall>t. ra_step True s t \<longrightarrow> node_data (ra_manager t) 0 = node_data (ra_manager s) 0)"
proof -
  let ?m = "new_snapshot_manager 5"
  let ?S = "one_reader 1 0 (add_ref 0 1 ?m) [node_data ?m 0] [(0, no_view)]
    (no_refs(0 := [(0, no_view), (1, pinned_view)])) no_view"
  have "(ra_step True)\<^sup>*\<^sup>* (ra_start 5 1) (?S Quiet pinned_view (Holding 0))"
    unfolding ra_start_one [of 5 1 0] by (rule reader_takes) simp_all
  moreover have "(ra_step True)\<^sup>*\<^sup>* (?S Quiet pinned_view (Holding 0)) (?S (Writing 1) pinned_view (Holding 0))"
    by (rule first_scan) (simp_all add: new_manager_simps)
  ultimately have r: "(ra_step True)\<^sup>*\<^sup>* (ra_start 5 1) (?S (Writing 1) pinned_view (Holding 0))"
    by (rule rtranclp_trans)
  have "ra_readers (?S (Writing 1) pinned_view (Holding 0)) = [Holding 0]"
    "rc_updater (ra_rcu (?S (Writing 1) pinned_view (Holding 0))) = Writing 1" by (simp_all add: one_reader_def)
  then show ?thesis
    using held_snapshots_are_stable [OF r, of 0 0] r
    by (intro exI [of _ "?S (Writing 1) pinned_view (Holding 0)"]) simp
qed

text \<open>
  C37: acquire and release are not enough.  With the memory orders of the code, the reader's second
  load of \<open>m_current\<close> may return the old node although the updater has published another one, and
  the updater's load of the count may miss the reader's pin (each has stored before it loads, but
  neither order makes the store visible first).  So for any number of readers and any one of them
  there is a run in which this reader has got node 0 from \<open>get_snapshot\<close>, has not released it, and the
  updater has chosen the same node to write; its next step may overwrite the snapshot that the
  reader holds with any contents.
\<close>

theorem acquire_release_overwrites:
  assumes "i < n"
  shows "\<exists>s. (ra_step False)\<^sup>*\<^sup>* (ra_start depth n) s \<and> ra_readers s ! i = Holding 0 \<and>
    rc_updater (ra_rcu s) = Writing 0 \<and> node_ref (ra_manager s) 0 \<noteq> 0 \<and>
    (\<forall>x. \<exists>t. ra_step False s t \<and> ra_readers t ! i = Holding 0 \<and> node_data (ra_manager t) 0 = x)"
proof -
  let ?m = "new_snapshot_manager depth"
  let ?cur = "[(0, no_view), (1, published_view)]"
  obtain m h where u: "(ra_step False)\<^sup>*\<^sup>* (ra_start depth n)
      (one_reader n i m h ?cur no_refs published_view (Writing 0) no_view Outside)" "length (sm_nodes m) = 3"
      "node_ref m 0 = 0"
    unfolding ra_start_one [of depth n i] using second_scan [OF new_manager_simps(1,2)] new_manager_simps(3) by metis
  let ?s = "one_reader n i (add_ref 0 1 m) h ?cur (no_refs(0 := [(0, no_view), (1, pinned_view)])) published_view
    (Writing 0) pinned_view (Holding 0)"
  have "(ra_step False)\<^sup>*\<^sup>* (ra_start depth n) ?s"
    by (rule rtranclp_trans [OF u(1)]) (rule reader_takes [OF assms], simp)
  moreover have "ra_readers ?s ! i = Holding 0" "rc_updater (ra_rcu ?s) = Writing 0" "node_ref (ra_manager ?s) 0 \<noteq> 0"
    using assms u(2,3) by (simp_all add: one_reader_def)
  moreover have "\<exists>t. ra_step False ?s t \<and> ra_readers t ! i = Holding 0 \<and> node_data (ra_manager t) 0 = x" for x
    using ra_step.store [of ?s 0 False x] assms u(2)
    by (intro exI [of _ "?s\<lparr>ra_rcu := (ra_rcu ?s)\<lparr>rc_manager := write_node 0 x (ra_manager ?s)\<rparr>\<rparr>"])
      (simp add: one_reader_def)
  ultimately show ?thesis by blast
qed

theorem acquire_release_overwrites_witness:
  "\<exists>s. (ra_step False)\<^sup>*\<^sup>* (ra_start 5 2) s \<and> ra_readers s ! 1 = Holding 0 \<and> rc_updater (ra_rcu s) = Writing 0 \<and>
    (\<exists>t. ra_step False s t \<and> node_data (ra_manager t) 0 \<noteq> node_data (ra_manager s) 0)"
proof -
  obtain s where s: "(ra_step False)\<^sup>*\<^sup>* (ra_start 5 2) s" "ra_readers s ! 1 = Holding 0" "rc_updater (ra_rcu s) = Writing 0"
    "\<forall>x. \<exists>t. ra_step False s t \<and> ra_readers t ! 1 = Holding 0 \<and> node_data (ra_manager t) 0 = x"
    using acquire_release_overwrites [of 1 2 5] by auto
  let ?d = "node_data (ra_manager s) 0"
  obtain t where "ra_step False s t" "node_data (ra_manager t) 0 = ?d\<lparr>bs_sequence := bs_sequence ?d + 1\<rparr>"
    using s(4) by blast
  moreover have "?d\<lparr>bs_sequence := bs_sequence ?d + 1\<rparr> \<noteq> ?d"
    by (metis add_cancel_right_right book_snapshot.select_convs(2) book_snapshot.surjective book_snapshot.update_convs(2) zero_neq_one)
  ultimately show ?thesis using s(1-3) by metis
qed

end
