(* ===== verification/Feed_Handler.thy ===== *)
theory Feed_Handler
  imports Order_Model
begin

text \<open>
  The feed handler (\<open>include/velox/feed/feed_handler.hpp\<close>, \<open>src/feed/feed_handler.cpp\<close>):
  a buffer of length-prefixed ITCH messages is parsed and the registered callbacks are
  called in their order.  A callback acts on the state \<open>'s\<close> of its owner; an empty
  \<open>std::function\<close> is \<open>None\<close>.  Reading past the buffer is the fault \<open>Out_Of_Bounds\<close>.
\<close>

subsection \<open>Message types\<close>

datatype itch_message_type = SYSTEM_EVENT | STOCK_DIRECTORY | TRADING_ACTION | REG_SHO
  | MARKET_PARTICIPANT_POS | MWCB_DECLINE_LEVEL | MWCB_STATUS | IPO_QUOTING_UPDATE
  | LULD_AUCTION_COLLAR | OPERATIONAL_HALT | ADD_ORDER | ADD_ORDER_MPID | ORDER_EXECUTED
  | ORDER_EXECUTED_WITH_PRICE | ORDER_CANCEL | ORDER_DELETE | ORDER_REPLACE | TRADE
  | CROSS_TRADE | BROKEN_TRADE | NOII | RPII

fun message_code :: "itch_message_type \<Rightarrow> char" where
  "message_code SYSTEM_EVENT = CHR ''S''"
| "message_code STOCK_DIRECTORY = CHR ''R''"
| "message_code TRADING_ACTION = CHR ''H''"
| "message_code REG_SHO = CHR ''Y''"
| "message_code MARKET_PARTICIPANT_POS = CHR ''L''"
| "message_code MWCB_DECLINE_LEVEL = CHR ''V''"
| "message_code MWCB_STATUS = CHR ''W''"
| "message_code IPO_QUOTING_UPDATE = CHR ''K''"
| "message_code LULD_AUCTION_COLLAR = CHR ''J''"
| "message_code OPERATIONAL_HALT = CHR ''h''"
| "message_code ADD_ORDER = CHR ''A''"
| "message_code ADD_ORDER_MPID = CHR ''F''"
| "message_code ORDER_EXECUTED = CHR ''E''"
| "message_code ORDER_EXECUTED_WITH_PRICE = CHR ''C''"
| "message_code ORDER_CANCEL = CHR ''X''"
| "message_code ORDER_DELETE = CHR ''D''"
| "message_code ORDER_REPLACE = CHR ''U''"
| "message_code TRADE = CHR ''P''"
| "message_code CROSS_TRADE = CHR ''Q''"
| "message_code BROKEN_TRADE = CHR ''B''"
| "message_code NOII = CHR ''I''"
| "message_code RPII = CHR ''N''"

subsection \<open>The handler and its callbacks\<close>

record 's feed =
  fh_message_count :: u64
  fh_error_count :: u64
  fh_on_add_order :: "(order \<Rightarrow> 's \<Rightarrow> 's) option list"
  fh_on_cancel_order :: "(u64 \<Rightarrow> 's \<Rightarrow> 's) option list"
  fh_on_modify_order :: "(u64 \<Rightarrow> u32 \<Rightarrow> i64 \<Rightarrow> 's \<Rightarrow> 's) option list"
  fh_on_trade :: "(u64 \<Rightarrow> u32 \<Rightarrow> i64 \<Rightarrow> 's \<Rightarrow> 's) option list"

definition new_feed :: "'s feed" where
  "new_feed = \<lparr>fh_message_count = 0, fh_error_count = 0, fh_on_add_order = [],
     fh_on_cancel_order = [], fh_on_modify_order = [], fh_on_trade = []\<rparr>"

definition on_add_order :: "(order \<Rightarrow> 's \<Rightarrow> 's) option \<Rightarrow> 's feed \<Rightarrow> 's feed" where
  "on_add_order cb f = f\<lparr>fh_on_add_order := fh_on_add_order f @ [cb]\<rparr>"

definition on_cancel_order :: "(u64 \<Rightarrow> 's \<Rightarrow> 's) option \<Rightarrow> 's feed \<Rightarrow> 's feed" where
  "on_cancel_order cb f = f\<lparr>fh_on_cancel_order := fh_on_cancel_order f @ [cb]\<rparr>"

definition on_modify_order :: "(u64 \<Rightarrow> u32 \<Rightarrow> i64 \<Rightarrow> 's \<Rightarrow> 's) option \<Rightarrow> 's feed \<Rightarrow> 's feed" where
  "on_modify_order cb f = f\<lparr>fh_on_modify_order := fh_on_modify_order f @ [cb]\<rparr>"

definition on_trade :: "(u64 \<Rightarrow> u32 \<Rightarrow> i64 \<Rightarrow> 's \<Rightarrow> 's) option \<Rightarrow> 's feed \<Rightarrow> 's feed" where
  "on_trade cb f = f\<lparr>fh_on_trade := fh_on_trade f @ [cb]\<rparr>"

definition clear_callbacks :: "'s feed \<Rightarrow> 's feed" where
  "clear_callbacks f = f\<lparr>fh_on_add_order := [], fh_on_cancel_order := [],
     fh_on_modify_order := [], fh_on_trade := []\<rparr>"

text \<open>Call every callback that is not empty, in the order of registration.\<close>

definition call_all :: "('f \<Rightarrow> 's \<Rightarrow> 's) \<Rightarrow> 'f option list \<Rightarrow> 's \<Rightarrow> 's" where
  "call_all invoke cbs s = foldl (\<lambda>s cb. case cb of None \<Rightarrow> s | Some f \<Rightarrow> invoke f s) s cbs"

definition count_error :: "'s feed \<times> 's \<Rightarrow> 's feed \<times> 's" where
  "count_error fs = ((fst fs)\<lparr>fh_error_count := fh_error_count (fst fs) + 1\<rparr>, snd fs)"

definition count_message :: "'s feed \<Rightarrow> 's \<Rightarrow> 's feed \<times> 's" where
  "count_message f s = (f\<lparr>fh_message_count := fh_message_count f + 1\<rparr>, s)"

subsection \<open>Reading fields\<close>

text \<open>
  A byte is read at an index of the buffer; an index past its end is the fault.  A field is
  \<open>n\<close> bytes from offset \<open>off\<close>, read one after the other, and spells a big-endian number.
\<close>

definition byte_at :: "u8 list \<Rightarrow> nat \<Rightarrow> u8 res" where
  "byte_at data i = (if i < length data then Inr (data ! i) else Inl Out_Of_Bounds)"

fun field :: "u8 list \<Rightarrow> nat \<Rightarrow> nat \<Rightarrow> u8 list res" where
  "field data off 0 = Inr []"
| "field data off (Suc n) =
     res_bind (byte_at data off) (\<lambda>b.
     res_bind (field data (Suc off) n) (\<lambda>bs. Inr (b # bs)))"

definition big_endian :: "u8 list \<Rightarrow> 'a::len word" where
  "big_endian bs = foldl (\<lambda>v b. push_bit 8 v OR ucast b) 0 bs"

definition number :: "u8 list \<Rightarrow> nat \<Rightarrow> nat \<Rightarrow> 'a::len word res" where
  "number data off n = res_bind (field data off n) (\<lambda>bs. Inr (big_endian bs))"

definition byte_char :: "u8 \<Rightarrow> char" where
  "byte_char b = char_of (unat b)"

definition parse_timestamp :: "u8 list \<Rightarrow> nat \<Rightarrow> u64 res" where
  "parse_timestamp data off = number data off 8"

definition parse_price :: "u8 list \<Rightarrow> nat \<Rightarrow> u64 res" where
  "parse_price data off = res_bind (number data off 4) (\<lambda>raw :: u32. Inr (ucast raw))"

text \<open>The characters that \<open>strncpy\<close> reads: at most \<open>n\<close>, and none after a NUL.\<close>

fun read_chars :: "u8 list \<Rightarrow> nat \<Rightarrow> nat \<Rightarrow> string res" where
  "read_chars data off 0 = Inr []"
| "read_chars data off (Suc n) =
     res_bind (byte_at data off) (\<lambda>b.
       if byte_char b = NUL then Inr []
       else res_bind (read_chars data (Suc off) n) (\<lambda>cs. Inr (byte_char b # cs)))"

text \<open>Trailing spaces among the first \<open>i\<close> characters become NULs.\<close>

fun trim_spaces :: "nat \<Rightarrow> string \<Rightarrow> string" where
  "trim_spaces 0 s = s"
| "trim_spaces (Suc i) s = (if s ! i = CHR '' '' then trim_spaces i (s[i := NUL]) else s)"

definition parse_symbol :: "u8 list \<Rightarrow> string res" where
  "parse_symbol data =
     res_bind (read_chars data 19 6) (\<lambda>cs.
       Inr (trim_spaces 6 ((strncpy zero_symbol cs 6)[6 := NUL])))"

definition parsed_order :: "u8 list \<Rightarrow> order res" where
  "parsed_order data =
     res_bind (number data 11 8) (\<lambda>order_id.
     res_bind (parse_symbol data) (\<lambda>symbol.
     res_bind (byte_at data 25) (\<lambda>side.
     res_bind (parse_price data 26) (\<lambda>price.
     res_bind (number data 30 4) (\<lambda>quantity.
     res_bind (parse_timestamp data 3) (\<lambda>timestamp.
       Inr (default_order\<lparr>o_order_id := order_id, o_symbol := symbol,
         o_side := (if byte_char side = CHR ''B'' then BUY else SELL),
         o_price := i64_of_u64 price, o_quantity := quantity, o_remaining := quantity,
         o_received_ts := timestamp, o_type := LIMIT, o_status := NEW\<rparr>)))))))"

subsection \<open>The messages\<close>

definition parse_add_order :: "u8 list \<Rightarrow> nat \<Rightarrow> 's feed \<times> 's \<Rightarrow> ('s feed \<times> 's) res" where
  "parse_add_order data len fs =
     (if len < 35 then Inr (count_error fs)
      else case fs of (f, s) \<Rightarrow>
        res_bind (parsed_order data) (\<lambda>order.
        Inr (count_message f (call_all (\<lambda>cb. cb order) (fh_on_add_order f) s))))"

definition parse_order_cancel :: "u8 list \<Rightarrow> nat \<Rightarrow> 's feed \<times> 's \<Rightarrow> ('s feed \<times> 's) res" where
  "parse_order_cancel data len fs =
     (if len < 23 then Inr (count_error fs)
      else case fs of (f, s) \<Rightarrow>
        res_bind (number data 11 8) (\<lambda>order_id.
        Inr (count_message f (call_all (\<lambda>cb. cb order_id) (fh_on_cancel_order f) s))))"

definition parse_order_replace :: "u8 list \<Rightarrow> nat \<Rightarrow> 's feed \<times> 's \<Rightarrow> ('s feed \<times> 's) res" where
  "parse_order_replace data len fs =
     (if len < 35 then Inr (count_error fs)
      else case fs of (f, s) \<Rightarrow>
        res_bind (number data 11 8) (\<lambda>order_id.
        res_bind (number data 27 4) (\<lambda>new_quantity.
        res_bind (parse_price data 31) (\<lambda>new_price.
        Inr (count_message f (call_all (\<lambda>cb. cb order_id new_quantity (i64_of_u64 new_price))
          (fh_on_modify_order f) s))))))"

definition parse_order_executed :: "u8 list \<Rightarrow> nat \<Rightarrow> 's feed \<times> 's \<Rightarrow> ('s feed \<times> 's) res" where
  "parse_order_executed data len fs =
     (if len < 27 then Inr (count_error fs)
      else case fs of (f, s) \<Rightarrow>
        res_bind (number data 11 8) (\<lambda>order_id.
        res_bind (number data 19 4) (\<lambda>executed_quantity.
        Inr (count_message f (call_all (\<lambda>cb. cb order_id executed_quantity 0) (fh_on_trade f) s)))))"

text \<open>
  The type byte \<open>ptr[2]\<close> is read before any length check but that of the message length.  A
  message of length two has no type byte: \<open>ptr[2]\<close> is then the next byte of the buffer, and
  past its end at the end of the buffer.
\<close>

definition dispatch :: "u8 list \<Rightarrow> nat \<Rightarrow> 's feed \<times> 's \<Rightarrow> ('s feed \<times> 's) res" where
  "dispatch data len fs =
     res_bind (byte_at data 2) (\<lambda>b.
       let msg_type = byte_char b
       in if msg_type = CHR ''A'' \<or> msg_type = CHR ''F'' then parse_add_order data len fs
          else if msg_type = CHR ''X'' then parse_order_cancel data len fs
          else if msg_type = CHR ''U'' then parse_order_replace data len fs
          else if msg_type = CHR ''E'' \<or> msg_type = CHR ''C'' then parse_order_executed data len fs
          else Inr fs)"

definition message_length :: "u8 list \<Rightarrow> u16 res" where
  "message_length data =
     res_bind (byte_at data 0) (\<lambda>b0. res_bind (byte_at data 1) (\<lambda>b1.
       Inr ((push_bit 8 (ucast b0)) OR ucast b1)))"

function process_loop :: "u8 list \<Rightarrow> 's feed \<times> 's \<Rightarrow> ('s feed \<times> 's) res" where
  "process_loop data fs =
     (if length data < 2 then Inr fs
      else case message_length data of
        Inl e \<Rightarrow> Inl e
      | Inr len \<Rightarrow>
          let msg_len = unat len
          in if msg_len < 2 \<or> length data < msg_len then Inr (count_error fs)
             else case dispatch data msg_len fs of
               Inl e \<Rightarrow> Inl e
             | Inr fs1 \<Rightarrow> process_loop (drop msg_len data) fs1)"
  by pat_completeness auto

termination
  by (relation "measure (\<lambda>(data, fs). length data)") (auto simp: Let_def)

declare process_loop.simps [simp del]

definition process :: "u8 list option \<Rightarrow> 's feed \<times> 's \<Rightarrow> ('s feed \<times> 's) res" where
  "process data fs =
     (case data of None \<Rightarrow> Inr fs | Some bs \<Rightarrow> if bs = [] then Inr fs else process_loop bs fs)"

text \<open>A file is the list of its bytes; opening it may fail.\<close>

definition process_file :: "u8 list option \<Rightarrow> 's feed \<times> 's \<Rightarrow> ('s feed \<times> 's) res" where
  "process_file file fs =
     (case file of None \<Rightarrow> Inr fs | Some bs \<Rightarrow> process (Some bs) fs)"

lemma process_some: "process (Some bs) fs = process_loop bs fs"
  by (simp add: process_def) (simp add: process_loop.simps)

subsection \<open>Reads that stay in the buffer\<close>

text \<open>A field that ends in the buffer is read without a fault.\<close>

lemma byte_at_in [simp]: "i < length data \<Longrightarrow> byte_at data i = Inr (data ! i)"
  by (simp add: byte_at_def)

lemma field_in: "off + n \<le> length data \<Longrightarrow> field data off n = Inr (take n (drop off data))"
proof (induction n arbitrary: off)
  case (Suc n)
  then have "take (Suc n) (drop off data) = data ! off # take n (drop (Suc off) data)"
    by (simp add: Cons_nth_drop_Suc [symmetric])
  with Suc show ?case by simp
qed simp

lemma number_in: "off + n \<le> length data \<Longrightarrow> number data off n = Inr (big_endian (take n (drop off data)))"
  by (simp add: number_def field_in)

lemma read_chars_in:
  "off + n \<le> length data \<Longrightarrow> read_chars data off n = Inr (take n (cstr (map byte_char (drop off data))))"
proof (induction n arbitrary: off)
  case (Suc n)
  then have "drop off data = data ! off # drop (Suc off) data"
    by (simp add: Cons_nth_drop_Suc)
  with Suc show ?case by (simp add: cstr_def)
qed simp

lemma parsed_order_in: "34 \<le> length data \<Longrightarrow> \<exists>order. parsed_order data = Inr order"
  by (simp add: parsed_order_def parse_symbol_def parse_price_def parse_timestamp_def number_in read_chars_in)

text \<open>So a message that is as long as its length field says is handled without a fault.\<close>

lemma dispatch_in:
  assumes "len \<le> length data" "2 < length data"
  shows "\<exists>fs'. dispatch data len fs = Inr fs'"
proof -
  obtain f s where fs: "fs = (f, s)" by (cases fs)
  have "\<exists>fs'. parse_add_order data len fs = Inr fs'"
    using assms(1) parsed_order_in [of data] by (auto simp: parse_add_order_def fs)
  moreover have "\<exists>fs'. parse_order_cancel data len fs = Inr fs'"
    using assms(1) by (simp add: parse_order_cancel_def fs number_in)
  moreover have "\<exists>fs'. parse_order_replace data len fs = Inr fs'"
    using assms(1) by (simp add: parse_order_replace_def fs number_in parse_price_def)
  moreover have "\<exists>fs'. parse_order_executed data len fs = Inr fs'"
    using assms(1) by (simp add: parse_order_executed_def fs number_in)
  ultimately show ?thesis
    using assms(2) by (simp add: dispatch_def Let_def)
qed

lemma message_length_in: "2 \<le> length data \<Longrightarrow>
    message_length data = Inr (push_bit 8 (ucast (data ! 0)) OR ucast (data ! 1))"
  by (auto simp: message_length_def byte_at_def)

end
