(* ===== verification/Itch_Writer.thy ===== *)
theory Itch_Writer
  imports Feed_Handler "HOL-Library.State_Monad"
begin

text \<open>
  The generator of the sample feed (\<open>tools/create_itch.cpp\<close>): it writes add and cancel
  messages with explicit or running order ids.  Its state is the id counter and the bytes of
  the file.  What it writes is what the feed handler reads.
\<close>

subsection \<open>Messages\<close>

definition put :: "nat \<Rightarrow> u8 list \<Rightarrow> u8 list \<Rightarrow> u8 list" where
  "put off bs msg = take off msg @ bs @ drop (off + length bs) msg"

definition char_byte :: "char \<Rightarrow> u8" where
  "char_byte c = of_char c"

text \<open>The bytes of an id from the highest to the lowest, and of a 32 bit number.\<close>

definition id_bytes :: "u64 \<Rightarrow> u8 list" where
  "id_bytes x = map (\<lambda>i. ucast (drop_bit (56 - i * 8) x)) [0..<8]"

definition word_bytes :: "u32 \<Rightarrow> u8 list" where
  "word_bytes x = [ucast (drop_bit 24 x), ucast (drop_bit 16 x), ucast (drop_bit 8 x), ucast x]"

definition stamp :: "u8 list" where
  "stamp = [0x00, 0x00, 0x00, 0x00, 0x0B, 0x8B, 0x8B, 0x00]"

definition add_message :: "u64 \<Rightarrow> string \<Rightarrow> char \<Rightarrow> i64 \<Rightarrow> u32 \<Rightarrow> u8 list" where
  "add_message order_id symbol side price quantity =
     put 30 (word_bytes quantity)
       (put 26 (word_bytes (word_of_int price))
         (put 25 [char_byte side]
           (put 19 (map char_byte (take 6 (cstr symbol)))
             (put 11 (id_bytes order_id)
               (put 3 stamp
                 (put 0 [0x00, 0x23, char_byte CHR ''A''] (replicate 35 0)))))))"

definition cancel_message :: "u64 \<Rightarrow> u8 list" where
  "cancel_message order_id =
     put 19 [0x00, 0x00, 0x00, 0x64]
       (put 11 (id_bytes order_id)
         (put 3 stamp
           (put 0 [0x00, 0x17, char_byte CHR ''X''] (replicate 23 0))))"

subsection \<open>The writer\<close>

record writer =
  w_order_id :: u64
  w_file :: "u8 list"

definition next_id :: "(writer, u64) state" where
  "next_id = State (\<lambda>w. (w_order_id w + 1, w\<lparr>w_order_id := w_order_id w + 1\<rparr>))"

definition write_add_order ::
  "u64 \<Rightarrow> string \<Rightarrow> char \<Rightarrow> i64 \<Rightarrow> u32 \<Rightarrow> (writer, unit) state" where
  "write_add_order order_id symbol side price quantity =
     State (\<lambda>w. ((), w\<lparr>w_file := w_file w @ add_message order_id symbol side price quantity\<rparr>))"

definition write_cancel_order :: "u64 \<Rightarrow> (writer, unit) state" where
  "write_cancel_order order_id =
     State (\<lambda>w. ((), w\<lparr>w_file := w_file w @ cancel_message order_id\<rparr>))"

text \<open>\<open>write_add_order(file, next_id(), ...)\<close>.\<close>

abbreviation add_next :: "string \<Rightarrow> char \<Rightarrow> i64 \<Rightarrow> u32 \<Rightarrow> (writer, unit) state" where
  "add_next symbol side price quantity \<equiv>
     State_Monad.bind next_id (\<lambda>i. write_add_order i symbol side price quantity)"

subsection \<open>Reading back what was written\<close>

lemma bit_big_endian:
  "bit (big_endian bs :: 'a::len word) n \<longleftrightarrow>
     n < LENGTH('a) \<and> n div 8 < length bs \<and> bit (rev bs ! (n div 8)) (n mod 8)"
proof (induction bs arbitrary: n rule: rev_induct)
  case (snoc b bs)
  have e: "big_endian (bs @ [b]) = (push_bit 8 (big_endian bs) OR ucast b :: 'a word)"
    by (simp add: big_endian_def)
  show ?case
  proof (cases "n < 8")
    case True
    then show ?thesis
      by (auto simp: e bit_simps)
  next
    case False
    then have n: "n div 8 = Suc ((n - 8) div 8)" "n mod 8 = (n - 8) mod 8"
      by (simp_all add: le_div_geq le_mod_geq)
    have "\<not> bit (ucast b :: 'a word) n"
      using False bit_imp_le_length [of b n] by (auto simp: bit_simps)
    then have "bit (big_endian (bs @ [b]) :: 'a word) n
        \<longleftrightarrow> n < LENGTH('a) \<and> bit (big_endian bs :: 'a word) (n - 8)"
      using False by (auto simp: e bit_or_iff bit_push_bit_iff)
    moreover have "rev (bs @ [b]) ! (n div 8) = rev bs ! ((n - 8) div 8)"
      "n div 8 < length (bs @ [b]) \<longleftrightarrow> (n - 8) div 8 < length bs"
      unfolding n(1) by simp_all
    ultimately show ?thesis
      using snoc [of "n - 8"] n(2) by auto
  qed
qed (simp add: big_endian_def)

lemma big_endian_id_bytes: "big_endian (id_bytes x) = (x :: u64)"
proof (rule bit_word_eqI)
  fix n assume n: "n < LENGTH(64)"
  then have d: "n div 8 < 8" by simp
  have "rev (id_bytes x) ! (n div 8) = ucast (drop_bit (56 - (7 - n div 8) * 8) x)"
    using d nth_upt [of 0 "7 - n div 8" 8] by (simp add: id_bytes_def rev_nth)
  moreover have "56 - (7 - n div 8) * 8 + n mod 8 = n"
    using d mult_div_mod_eq [of 8 n] by (simp add: diff_mult_distrib)
  ultimately show "bit (big_endian (id_bytes x) :: u64) n = bit x n"
    using n d by (simp add: bit_big_endian bit_simps) (simp add: id_bytes_def)
qed

lemma word_bytes_alt: "word_bytes x = map (\<lambda>i. ucast (drop_bit (24 - i * 8) x)) [0..<4]"
  by (simp add: word_bytes_def upt_rec numeral_eq_Suc)

lemma big_endian_word_bytes: "big_endian (word_bytes x) = (x :: u32)"
proof (rule bit_word_eqI)
  fix n assume n: "n < LENGTH(32)"
  then have d: "n div 8 < 4" by simp
  have "rev (word_bytes x) ! (n div 8) = ucast (drop_bit (24 - (3 - n div 8) * 8) x)"
    using d nth_upt [of 0 "3 - n div 8" 4] by (simp add: word_bytes_alt rev_nth)
  moreover have "24 - (3 - n div 8) * 8 + n mod 8 = n"
    using d mult_div_mod_eq [of 8 n] by (simp add: diff_mult_distrib)
  ultimately show "bit (big_endian (word_bytes x) :: u32) n = bit x n"
    using n d by (simp add: bit_big_endian bit_simps) (simp add: word_bytes_def)
qed

lemma byte_char_byte [simp]: "byte_char (char_byte c) = c"
proof -
  have "unat (of_char c :: u8) = of_char c mod 256"
    by (simp add: of_nat_of_char [symmetric, where 'a = "8 word"] unat_of_nat)
  then show ?thesis by (simp add: byte_char_def char_byte_def)
qed

lemma byte_char_zero [simp]: "byte_char 0 = NUL"
  by (simp add: byte_char_def NUL_def char_of_def)

lemma put_at: "length xs = off \<Longrightarrow> length ys = length bs \<Longrightarrow> put off bs (xs @ ys @ zs) = xs @ bs @ zs"
  by (simp add: put_def)

lemma number_at: "length xs = off \<Longrightarrow> length ys = n \<Longrightarrow> number (xs @ ys @ zs) off n = Inr (big_endian ys)"
  by (simp add: number_in)

lemma length_bytes [simp]: "length (id_bytes x) = 8" "length (word_bytes y) = 4" "length stamp = 8"
  by (simp_all add: id_bytes_def word_bytes_def stamp_def)

text \<open>The messages as the sequence of their fields.\<close>

definition symbol_bytes :: "string \<Rightarrow> u8 list" where
  "symbol_bytes symbol = map char_byte (take 6 (cstr symbol)) @ replicate (6 - length (cstr symbol)) 0"

lemma length_symbol_bytes [simp]: "length (symbol_bytes symbol) = 6"
  by (simp add: symbol_bytes_def)

lemma add_message_fields:
  "add_message order_id symbol side price quantity =
     [0x00, 0x23, char_byte CHR ''A''] @ stamp @ id_bytes order_id @ symbol_bytes symbol @
     [char_byte side] @ word_bytes (word_of_int price) @ word_bytes quantity @ [0]"
proof -
  let ?s = "map char_byte (take 6 (cstr symbol))" and ?k = "min 6 (length (cstr symbol))"
  have r: "replicate (m + n) (0 :: u8) = replicate m 0 @ replicate n 0" for m n
    by (simp add: replicate_add)
  have z: "replicate 35 (0 :: u8) = [] @ replicate 3 0 @ replicate 8 0 @ replicate 8 0 @ replicate ?k 0 @
      replicate (6 - length (cstr symbol)) 0 @ replicate 1 0 @ replicate 4 0 @ replicate 4 0 @ [0]"
  proof -
    have "replicate 1 (0 :: u8) @ replicate 4 0 @ replicate 4 0 @ [0] = replicate 10 0"
      by (simp add: numeral_eq_Suc)
    moreover have "replicate ?k (0 :: u8) @ replicate (6 - length (cstr symbol)) 0 @ replicate 10 0 = replicate 16 0"
      unfolding append_assoc [symmetric] r [symmetric] by (rule arg_cong [where f = "\<lambda>n. replicate n 0"]) simp
    moreover have "replicate 3 (0 :: u8) @ replicate 8 0 @ replicate 8 0 @ replicate 16 0 = replicate 35 0"
      by (simp add: numeral_eq_Suc)
    ultimately show ?thesis by simp
  qed
  have "put 0 [0x00, 0x23, char_byte CHR ''A''] (replicate 35 0) = [0x00, 0x23, char_byte CHR ''A''] @
      replicate 8 0 @ replicate 8 0 @ replicate ?k 0 @ replicate (6 - length (cstr symbol)) 0 @
      replicate 1 0 @ replicate 4 0 @ replicate 4 0 @ [0]"
    unfolding z by (subst put_at) simp_all
  moreover have "put 3 stamp ([0x00, 0x23, char_byte CHR ''A''] @ replicate 8 0 @ ys)
      = [0x00, 0x23, char_byte CHR ''A''] @ stamp @ ys" for ys
    by (rule put_at) simp_all
  moreover have "put 11 (id_bytes order_id) (([0x00, 0x23, char_byte CHR ''A''] @ stamp) @ replicate 8 0 @ ys)
      = ([0x00, 0x23, char_byte CHR ''A''] @ stamp) @ id_bytes order_id @ ys" for ys
    by (rule put_at) simp_all
  moreover have "put 19 ?s (([0x00, 0x23, char_byte CHR ''A''] @ stamp @ id_bytes order_id) @ replicate ?k 0 @ ys)
      = ([0x00, 0x23, char_byte CHR ''A''] @ stamp @ id_bytes order_id) @ ?s @ ys" for ys
    by (rule put_at) simp_all
  moreover have "put 25 [char_byte side] (([0x00, 0x23, char_byte CHR ''A''] @ stamp @ id_bytes order_id @
        ?s @ replicate (6 - length (cstr symbol)) 0) @ replicate 1 0 @ ys)
      = ([0x00, 0x23, char_byte CHR ''A''] @ stamp @ id_bytes order_id @
        ?s @ replicate (6 - length (cstr symbol)) 0) @ [char_byte side] @ ys" for ys
    by (rule put_at) simp_all
  moreover have "put 26 (word_bytes p) (([0x00, 0x23, char_byte CHR ''A''] @ stamp @ id_bytes order_id @
        ?s @ replicate (6 - length (cstr symbol)) 0 @ [char_byte side]) @ replicate 4 0 @ ys)
      = ([0x00, 0x23, char_byte CHR ''A''] @ stamp @ id_bytes order_id @
        ?s @ replicate (6 - length (cstr symbol)) 0 @ [char_byte side]) @ word_bytes p @ ys" for p ys
    by (rule put_at) simp_all
  moreover have "put 30 (word_bytes q) (([0x00, 0x23, char_byte CHR ''A''] @ stamp @ id_bytes order_id @
        ?s @ replicate (6 - length (cstr symbol)) 0 @ [char_byte side] @ word_bytes p) @ replicate 4 0 @ ys)
      = ([0x00, 0x23, char_byte CHR ''A''] @ stamp @ id_bytes order_id @
        ?s @ replicate (6 - length (cstr symbol)) 0 @ [char_byte side] @ word_bytes p) @ word_bytes q @ ys" for p q ys
    by (rule put_at) simp_all
  ultimately show ?thesis
    unfolding add_message_def symbol_bytes_def by (simp only: append_assoc)
qed

lemma cancel_message_fields:
  "cancel_message order_id =
     [0x00, 0x17, char_byte CHR ''X''] @ stamp @ id_bytes order_id @ [0x00, 0x00, 0x00, 0x64]"
proof -
  have z: "replicate 23 (0 :: u8) = [] @ replicate 3 0 @ replicate 8 0 @ replicate 8 0 @ replicate 4 0 @ []"
    by (simp add: numeral_eq_Suc)
  have "put 0 [0x00, 0x17, char_byte CHR ''X''] (replicate 23 0)
      = [0x00, 0x17, char_byte CHR ''X''] @ replicate 8 0 @ replicate 8 0 @ replicate 4 0 @ []"
    unfolding z by (subst put_at) simp_all
  moreover have "put 3 stamp ([0x00, 0x17, char_byte CHR ''X''] @ replicate 8 0 @ ys)
      = [0x00, 0x17, char_byte CHR ''X''] @ stamp @ ys" for ys
    by (rule put_at) simp_all
  moreover have "put 11 (id_bytes order_id) (([0x00, 0x17, char_byte CHR ''X''] @ stamp) @ replicate 8 0 @ ys)
      = ([0x00, 0x17, char_byte CHR ''X''] @ stamp) @ id_bytes order_id @ ys" for ys
    by (rule put_at) simp_all
  moreover have "put 19 [0x00, 0x00, 0x00, 0x64]
        (([0x00, 0x17, char_byte CHR ''X''] @ stamp @ id_bytes order_id) @ replicate 4 0 @ [])
      = ([0x00, 0x17, char_byte CHR ''X''] @ stamp @ id_bytes order_id) @ [0x00, 0x00, 0x00, 0x64] @ []"
    by (rule put_at) simp_all
  ultimately show ?thesis
    unfolding cancel_message_def by (simp only: append_assoc append_Nil2)
qed

lemma length_message [simp]:
  "length (add_message i symbol side price q) = 35" "length (cancel_message i) = 23"
  by (simp_all add: add_message_fields cancel_message_fields)

text \<open>The symbol as it comes out: a C string in eight characters.\<close>

definition feed_symbol :: "string \<Rightarrow> bool" where
  "feed_symbol symbol \<longleftrightarrow> length (cstr symbol) \<le> 6 \<and>
     (cstr symbol \<noteq> [] \<longrightarrow> last (cstr symbol) \<noteq> CHR '' '')"

lemma parse_written_symbol:
  assumes s: "feed_symbol symbol" and pre: "length pre = 19"
  shows "parse_symbol (pre @ symbol_bytes symbol @ post) = Inr (strncpy zero_symbol symbol 7)"
proof -
  let ?c = "cstr symbol"
  have len: "length ?c \<le> 6" using s by (simp add: feed_symbol_def)
  have nn: "NUL \<notin> set ?c" by (rule cstr_no_NUL)
  have b: "map byte_char (symbol_bytes symbol) = ?c @ replicate (6 - length ?c) NUL"
    using len by (simp add: symbol_bytes_def comp_def)
  have c: "take 6 (cstr (map byte_char (symbol_bytes symbol @ post))) = ?c"
  proof (cases "length ?c = 6")
    case True
    then have "cstr (map byte_char (symbol_bytes symbol @ post)) = ?c @ cstr (map byte_char post)"
      using nn by (simp add: b cstr_append)
    then show ?thesis using True by simp
  next
    case False
    then obtain k where "6 - length ?c = Suc k" using len by (metis Suc_diff_le diff_Suc_Suc le_neq_implies_less Suc_diff_Suc)
    then have "cstr (map byte_char (symbol_bytes symbol @ post)) = ?c"
      using nn by (simp add: b cstr_append_NUL)
    then show ?thesis using len by simp
  qed
  have t: "strncpy zero_symbol ?c 6
      = ?c @ replicate (8 - length ?c) NUL"
  proof -
    have "replicate (6 - length ?c) NUL @ drop 6 zero_symbol = replicate (8 - length ?c) NUL"
    proof -
      have "drop 6 zero_symbol = replicate 2 NUL" by (simp add: zero_symbol_def)
      moreover have "6 - length ?c + 2 = 8 - length ?c" using len by simp
      ultimately show ?thesis by (metis replicate_add)
    qed
    then show ?thesis using len nn by (simp add: strncpy_def Let_def cstr_id)
  qed
  have "strncpy zero_symbol symbol 7 = ?c @ replicate (8 - length ?c) NUL"
  proof -
    have "drop 7 zero_symbol = replicate 1 NUL" by (simp add: zero_symbol_def)
    moreover have "7 - length ?c + 1 = 8 - length ?c" using len by simp
    ultimately have "replicate (7 - length ?c) NUL @ drop 7 zero_symbol = replicate (8 - length ?c) NUL"
      by (metis replicate_add)
    then show ?thesis using len by (simp add: strncpy_def Let_def)
  qed
  moreover have "(?c @ replicate (8 - length ?c) NUL)[6 := NUL] = ?c @ replicate (8 - length ?c) NUL"
    using len by (simp add: list_update_append list_update_same_conv)
  moreover have "(?c @ replicate (8 - length ?c) NUL) ! 5 \<noteq> CHR '' ''"
  proof (cases "length ?c = 6")
    case True
    then have "?c \<noteq> []" by auto
    moreover have "(?c @ replicate (8 - length ?c) NUL) ! 5 = last ?c"
      using True last_conv_nth [OF calculation] by (simp add: nth_append)
    ultimately have "?c \<noteq> []" "(?c @ replicate (8 - length ?c) NUL) ! 5 = last ?c" .
    then show ?thesis using s by (simp add: feed_symbol_def)
  next
    case False
    then show ?thesis using len by (simp add: nth_append NUL_def)
  qed
  ultimately show ?thesis
    using t pre c
    by (simp add: parse_symbol_def read_chars_in trim_spaces.simps(2) [of 5, simplified])
qed

text \<open>What the handler reports for a written order.\<close>

definition written_order :: "u64 \<Rightarrow> string \<Rightarrow> char \<Rightarrow> i64 \<Rightarrow> u32 \<Rightarrow> order" where
  "written_order order_id symbol side price quantity = default_order\<lparr>o_order_id := order_id,
     o_symbol := strncpy zero_symbol symbol 7,
     o_side := (if side = CHR ''B'' then BUY else SELL), o_price := price,
     o_quantity := quantity, o_remaining := quantity, o_received_ts := 0x0B8B8B00\<rparr>"

lemma parsed_written_order:
  assumes s: "feed_symbol symbol" and p: "0 \<le> price" "price < 2 ^ 32"
  shows "parsed_order (add_message order_id symbol side price q @ rest)
    = Inr (written_order order_id symbol side price q)"
proof -
  let ?h = "[0x00, 0x23, char_byte CHR ''A'']"
  let ?m = "?h @ stamp @ id_bytes order_id @ symbol_bytes symbol @ [char_byte side] @
      word_bytes (word_of_int price) @ word_bytes q @ [0] @ rest"
  have m: "add_message order_id symbol side price q @ rest = ?m"
    by (simp add: add_message_fields)
  have f: "number ?m 11 8 = Inr order_id" "number ?m 3 8 = Inr (big_endian stamp :: u64)"
    "number ?m 26 4 = Inr (word_of_int price :: u32)" "number ?m 30 4 = Inr q"
    "byte_at ?m 25 = Inr (char_byte side)"
    using number_at [of "?h @ stamp" 11 "id_bytes order_id" 8, where 'a = 64] number_at [of ?h 3 stamp 8, where 'a = 64]
      number_at [of "?h @ stamp @ id_bytes order_id @ symbol_bytes symbol @ [char_byte side]" 26
        "word_bytes (word_of_int price)" 4, where 'a = 32]
      number_at [of "?h @ stamp @ id_bytes order_id @ symbol_bytes symbol @ [char_byte side] @
        word_bytes (word_of_int price)" 30 "word_bytes q" 4, where 'a = 32]
    by (simp_all add: nth_append big_endian_id_bytes big_endian_word_bytes)
  have "parse_symbol ?m = Inr (strncpy zero_symbol symbol 7)"
    using parse_written_symbol [OF s, of "?h @ stamp @ id_bytes order_id"] by simp
  moreover have "i64_of_u64 (ucast (word_of_int price :: u32)) = price"
  proof -
    have "take_bit 32 price = price" "take_bit 64 price = price" "signed_take_bit 63 price = price"
      using p by (simp_all add: take_bit_int_eq_self signed_take_bit_int_eq_self)
    moreover have "uint (word_of_int price :: u32) = take_bit 32 price"
      by (simp add: uint_word_of_int_eq)
    moreover have "sint (ucast w :: u64) = signed_take_bit 63 (take_bit 64 (uint w))" for w :: u32
      by (simp add: sint_uint unsigned_ucast_eq)
    ultimately have "sint (ucast (word_of_int price :: u32) :: u64) = price" by metis
    then show ?thesis by (simp only: i64_of_u64_def)
  qed
  moreover have "big_endian stamp = (0x0B8B8B00 :: u64)"
    by (simp add: stamp_def big_endian_def)
  ultimately show ?thesis
    unfolding m parsed_order_def written_order_def parse_price_def parse_timestamp_def
    by (simp only: f res_bind_simps byte_char_byte) (simp add: default_order_def)
qed

subsection \<open>A message at a time\<close>

datatype itch_message = Add_Msg u64 string char i64 u32 | Cancel_Msg u64

fun encode :: "itch_message \<Rightarrow> u8 list" where
  "encode (Add_Msg i symbol side price q) = add_message i symbol side price q"
| "encode (Cancel_Msg i) = cancel_message i"

fun valid_message :: "itch_message \<Rightarrow> bool" where
  "valid_message (Add_Msg i symbol side price q) \<longleftrightarrow> feed_symbol symbol \<and> 0 \<le> price \<and> price < 2 ^ 32"
| "valid_message (Cancel_Msg i) \<longleftrightarrow> True"

text \<open>What the handler does on a message, without any parsing.\<close>

fun deliver :: "itch_message \<Rightarrow> 's feed \<times> 's \<Rightarrow> 's feed \<times> 's" where
  "deliver (Add_Msg i symbol side price q) (f, s) =
     count_message f (call_all (\<lambda>cb. cb (written_order i symbol side price q)) (fh_on_add_order f) s)"
| "deliver (Cancel_Msg i) (f, s) =
     count_message f (call_all (\<lambda>cb. cb i) (fh_on_cancel_order f) s)"

lemma message_head:
  "message_length (0x00 # b # rest) = Inr (ucast b)"
  by (simp add: message_length_def)

lemma process_message:
  assumes "valid_message m"
  shows "process_loop (encode m @ rest) fs = process_loop rest (deliver m fs)"
proof (cases m)
  case (Add_Msg i symbol side price q)
  obtain f s where fs: "fs = (f, s)" by (cases fs)
  let ?d = "add_message i symbol side price q @ rest"
  have hd: "?d = 0x00 # 0x23 # char_byte CHR ''A'' # drop 3 ?d" by (simp add: add_message_fields)
  have l: "message_length ?d = Inr 35" by (subst hd) (simp add: message_head)
  have t: "byte_at ?d 2 = Inr (char_byte CHR ''A'')" by (subst hd) simp
  have "dispatch ?d 35 fs = Inr (deliver m fs)"
    using assms Add_Msg by (simp add: dispatch_def t parse_add_order_def fs parsed_written_order)
  then show ?thesis
    using l by (subst process_loop.simps) (simp add: Add_Msg)
next
  case (Cancel_Msg i)
  obtain f s where fs: "fs = (f, s)" by (cases fs)
  let ?d = "cancel_message i @ rest"
  have hd: "?d = 0x00 # 0x17 # char_byte CHR ''X'' # drop 3 ?d" by (simp add: cancel_message_fields)
  have l: "message_length ?d = Inr 23" by (subst hd) (simp add: message_head)
  have t: "byte_at ?d 2 = Inr (char_byte CHR ''X'')" by (subst hd) simp
  have "number ?d 11 8 = Inr i"
    using number_at [of "[0x00, 0x17, char_byte CHR ''X''] @ stamp" 11 "id_bytes i" 8
      "[0x00, 0x00, 0x00, 0x64] @ rest", where 'a = 64]
    by (simp add: cancel_message_fields big_endian_id_bytes)
  then have "dispatch ?d 23 fs = Inr (deliver m fs)"
    by (simp add: dispatch_def t parse_order_cancel_def fs Cancel_Msg)
  then show ?thesis
    using l by (subst process_loop.simps) (simp add: Cancel_Msg)
qed

lemma process_messages:
  assumes "\<forall>m \<in> set ms. valid_message m"
  shows "process_loop (concat (map encode ms) @ rest) fs = process_loop rest (fold deliver ms fs)"
  using assms by (induction ms arbitrary: fs) (simp_all add: process_message)

lemma deliver_counts:
  "fh_message_count (fst (deliver m fs)) = fh_message_count (fst fs) + 1"
  "fh_error_count (fst (deliver m fs)) = fh_error_count (fst fs)"
  by (cases fs; cases m; simp add: count_message_def)+

lemma fold_deliver_counts:
  "fh_message_count (fst (fold deliver ms fs)) = fh_message_count (fst fs) + of_nat (length ms)"
  "fh_error_count (fst (fold deliver ms fs)) = fh_error_count (fst fs)"
  by (induction ms arbitrary: fs) (simp_all add: deliver_counts)

end
