(* ===== verification/Itch_Sample.thy ===== *)
theory Itch_Sample
  imports Itch_Writer
begin

text \<open>
  The sample feed that \<open>tools/create_itch.cpp\<close> writes, statement by statement, and what the
  feed handler makes of it, of its fragments and of the buffers of \<open>tools/itch_parser.cpp\<close>.
\<close>

subsection \<open>The scenarios per symbol\<close>

definition aapl_messages :: "(writer, unit) state" where
  "aapl_messages = do {
     write_add_order 1001 ''AAPL'' CHR ''B'' 10000 100;
     write_add_order 1002 ''AAPL'' CHR ''S'' 9900 100;
     write_add_order 1003 ''AAPL'' CHR ''B'' 10100 50;
     write_add_order 1004 ''AAPL'' CHR ''S'' 10000 30;
     write_add_order 1005 ''AAPL'' CHR ''B'' 10200 100;
     write_add_order 1006 ''AAPL'' CHR ''B'' 10100 50;
     write_add_order 1007 ''AAPL'' CHR ''S'' 10000 120;
     aapl_cancel_id \<leftarrow> next_id;
     write_add_order aapl_cancel_id ''AAPL'' CHR ''B'' 10050 200;
     write_cancel_order aapl_cancel_id;
     write_add_order 2001 ''AAPL'' CHR ''S'' 10000 100;
     write_add_order 2002 ''AAPL'' CHR ''B'' 10100 150;
     add_next ''AAPL'' CHR ''S'' 10000 50;
     add_next ''AAPL'' CHR ''S'' 10010 50;
     add_next ''AAPL'' CHR ''S'' 10020 50;
     add_next ''AAPL'' CHR ''S'' 10030 50;
     add_next ''AAPL'' CHR ''S'' 10040 50;
     add_next ''AAPL'' CHR ''B'' 10050 300;
     add_next ''AAPL'' CHR ''B'' 9800 100 }"

definition msft_messages :: "(writer, unit) state" where
  "msft_messages = do {
     write_add_order 1008 ''MSFT'' CHR ''B'' 20000 100;
     write_cancel_order 1008;
     write_add_order 1009 ''MSFT'' CHR ''B'' 20000 50;
     write_add_order 1010 ''MSFT'' CHR ''S'' 19900 50;
     add_next ''MSFT'' CHR ''S'' 20100 60;
     add_next ''MSFT'' CHR ''B'' 20200 80;
     add_next ''MSFT'' CHR ''B'' 20300 100;
     add_next ''MSFT'' CHR ''B'' 20200 75;
     add_next ''MSFT'' CHR ''B'' 20100 50;
     add_next ''MSFT'' CHR ''S'' 20000 200;
     msft_mid \<leftarrow> next_id;
     add_next ''MSFT'' CHR ''B'' 20500 100;
     write_add_order msft_mid ''MSFT'' CHR ''B'' 20400 80;
     add_next ''MSFT'' CHR ''B'' 20300 60;
     write_cancel_order msft_mid;
     add_next ''MSFT'' CHR ''S'' 20200 150;
     add_next ''MSFT'' CHR ''S'' 21000 200 }"

definition googl_messages :: "(writer, unit) state" where
  "googl_messages = do {
     write_add_order 1011 ''GOOGL'' CHR ''B'' 15000 100;
     add_next ''GOOGL'' CHR ''S'' 14900 100;
     add_next ''GOOGL'' CHR ''S'' 15000 80;
     add_next ''GOOGL'' CHR ''S'' 15050 80;
     add_next ''GOOGL'' CHR ''S'' 15100 80;
     add_next ''GOOGL'' CHR ''B'' 15200 300;
     g1 \<leftarrow> next_id;
     g2 \<leftarrow> next_id;
     g3 \<leftarrow> next_id;
     write_add_order g1 ''GOOGL'' CHR ''B'' 15200 100;
     write_add_order g2 ''GOOGL'' CHR ''B'' 15100 80;
     write_add_order g3 ''GOOGL'' CHR ''B'' 15000 60;
     write_cancel_order g1;
     write_cancel_order g3;
     add_next ''GOOGL'' CHR ''S'' 14900 80;
     add_next ''GOOGL'' CHR ''S'' 15000 120;
     add_next ''GOOGL'' CHR ''B'' 15100 200;
     add_next ''GOOGL'' CHR ''B'' 14000 50 }"

definition amzn_messages :: "(writer, unit) state" where
  "amzn_messages = do {
     add_next ''AMZN'' CHR ''B'' 18000 100;
     add_next ''AMZN'' CHR ''S'' 17900 100;
     add_next ''AMZN'' CHR ''S'' 18100 60;
     add_next ''AMZN'' CHR ''S'' 18100 60;
     add_next ''AMZN'' CHR ''B'' 18200 90;
     add_next ''AMZN'' CHR ''B'' 18500 100;
     add_next ''AMZN'' CHR ''B'' 18400 80;
     add_next ''AMZN'' CHR ''B'' 18300 60;
     add_next ''AMZN'' CHR ''B'' 18200 40;
     add_next ''AMZN'' CHR ''S'' 18000 250;
     amzn_c \<leftarrow> next_id;
     write_add_order amzn_c ''AMZN'' CHR ''B'' 18000 200;
     write_cancel_order amzn_c;
     add_next ''AMZN'' CHR ''B'' 18000 150;
     add_next ''AMZN'' CHR ''S'' 17500 150;
     add_next ''AMZN'' CHR ''B'' 17000 50;
     add_next ''AMZN'' CHR ''S'' 19000 50 }"

definition meta_messages :: "(writer, unit) state" where
  "meta_messages = do {
     add_next ''META'' CHR ''B'' 35000 100;
     add_next ''META'' CHR ''S'' 34900 100;
     add_next ''META'' CHR ''B'' 35100 200;
     add_next ''META'' CHR ''S'' 35000 120;
     add_next ''META'' CHR ''B'' 35500 100;
     add_next ''META'' CHR ''B'' 35400 80;
     add_next ''META'' CHR ''B'' 35300 60;
     add_next ''META'' CHR ''B'' 35200 40;
     add_next ''META'' CHR ''B'' 35100 20;
     add_next ''META'' CHR ''S'' 35000 400;
     m1 \<leftarrow> next_id;
     m2 \<leftarrow> next_id;
     m3 \<leftarrow> next_id;
     m4 \<leftarrow> next_id;
     m5 \<leftarrow> next_id;
     write_add_order m1 ''META'' CHR ''B'' 35600 100;
     write_add_order m2 ''META'' CHR ''B'' 35500 80;
     write_add_order m3 ''META'' CHR ''B'' 35400 60;
     write_add_order m4 ''META'' CHR ''B'' 35300 40;
     write_add_order m5 ''META'' CHR ''B'' 35200 20;
     write_cancel_order m1;
     write_cancel_order m3;
     write_cancel_order m5;
     add_next ''META'' CHR ''S'' 35000 120;
     add_next ''META'' CHR ''S'' 36000 300 }"

definition stress_round :: "nat \<Rightarrow> (writer, unit) state" where
  "stress_round i = do {
     add_next ''AAPL'' CHR ''B'' (10000 + int i * 5) 50;
     add_next ''MSFT'' CHR ''B'' (20000 + int i * 5) 50;
     add_next ''GOOGL'' CHR ''S'' (15000 - int i * 5) 50;
     add_next ''AMZN'' CHR ''S'' (18000 - int i * 5) 50;
     add_next ''META'' CHR ''B'' (35000 + int i * 5) 50 }"

definition closing_messages :: "(writer, unit) state" where
  "closing_messages = do {
     add_next ''AAPL'' CHR ''S'' 9900 500;
     add_next ''MSFT'' CHR ''S'' 19900 500;
     add_next ''GOOGL'' CHR ''B'' 15100 500;
     add_next ''AMZN'' CHR ''B'' 18100 500;
     add_next ''META'' CHR ''S'' 34900 500 }"

text \<open>The loop \<open>for (int i = 0; i < 10; ++i)\<close>, and the whole program.\<close>

fun stress_rounds :: "nat list \<Rightarrow> (writer, unit) state" where
  "stress_rounds [] = State_Monad.return ()"
| "stress_rounds (i # is) = do { stress_round i; stress_rounds is }"

definition all_messages :: "(writer, unit) state" where
  "all_messages = do {
     aapl_messages; msft_messages; googl_messages; amzn_messages; meta_messages;
     stress_rounds [0..<10]; closing_messages }"

text \<open>The exit code, and the file if it could be opened.\<close>

definition create_itch :: "bool \<Rightarrow> int \<times> u8 list option" where
  "create_itch opened =
     (if \<not> opened then (1, None)
      else (0, Some (w_file (snd (run_state all_messages \<lparr>w_order_id = 1000, w_file = []\<rparr>)))))"

subsection \<open>The replay of a file in buffers\<close>

text \<open>\<open>BUFFER_SIZE\<close> of \<open>tools/itch_parser.cpp\<close>, and its loop: every buffer is processed on its own.\<close>

definition buffer_size :: nat where
  "buffer_size = 64 * 1024"

function replay :: "nat \<Rightarrow> u8 list \<Rightarrow> 's feed \<times> 's \<Rightarrow> ('s feed \<times> 's) res" where
  "replay n file fs =
     (if file = [] \<or> n = 0 then Inr fs
      else res_bind (process (Some (take n file)) fs) (replay n (drop n file)))"
  by pat_completeness auto

termination
  by (relation "measure (\<lambda>(n, file, fs). length file)") auto

declare replay.simps [simp del]

subsection \<open>Programs that write messages\<close>

text \<open>\<open>emits n p\<close>: whatever the state, \<open>p\<close> appends \<open>n\<close> valid messages to the file.\<close>

definition emits :: "nat \<Rightarrow> (writer, 'a) state \<Rightarrow> bool" where
  "emits n p \<longleftrightarrow> (\<forall>w. \<exists>ms. length ms = n \<and> (\<forall>m \<in> set ms. valid_message m) \<and>
     w_file (snd (run_state p w)) = w_file w @ concat (map encode ms))"

lemma emits_bind: "emits m p \<Longrightarrow> (\<And>x. emits n (f x)) \<Longrightarrow> emits (m + n) (State_Monad.bind p f)"
  unfolding emits_def
proof
  fix w
  assume p: "\<forall>w. \<exists>ms. length ms = m \<and> (\<forall>m \<in> set ms. valid_message m) \<and>
      w_file (snd (run_state p w)) = w_file w @ concat (map encode ms)"
    and f: "\<And>x. \<forall>w. \<exists>ms. length ms = n \<and> (\<forall>m \<in> set ms. valid_message m) \<and>
      w_file (snd (run_state (f x) w)) = w_file w @ concat (map encode ms)"
  obtain x w1 where x: "run_state p w = (x, w1)" by fastforce
  obtain ms where "length ms = m" "\<forall>m \<in> set ms. valid_message m" "w_file w1 = w_file w @ concat (map encode ms)"
    using p x by (metis snd_conv)
  moreover obtain ns where "length ns = n" "\<forall>m \<in> set ns. valid_message m"
      "w_file (snd (run_state (f x) w1)) = w_file w1 @ concat (map encode ns)"
    using f by blast
  ultimately show "\<exists>ms. length ms = m + n \<and> (\<forall>m \<in> set ms. valid_message m) \<and>
      w_file (snd (run_state (State_Monad.bind p f) w)) = w_file w @ concat (map encode ms)"
    using x by (intro exI [of _ "ms @ ns"]) auto
qed

lemma emits_next_id: "emits 0 next_id"
  by (simp add: emits_def next_id_def)

lemma emits_return: "emits 0 (State_Monad.return x)"
  by (simp add: emits_def)

lemma emits_add: "valid_message (Add_Msg i symbol side price q) \<Longrightarrow> emits 1 (write_add_order i symbol side price q)"
  unfolding emits_def write_add_order_def
  by (intro allI exI [of _ "[Add_Msg i symbol side price q]"]) simp

lemma emits_cancel: "emits 1 (write_cancel_order i)"
  unfolding emits_def write_cancel_order_def
  by (intro allI exI [of _ "[Cancel_Msg i]"]) simp

text \<open>The conditions on the literal symbols of the program.\<close>

lemma sample_symbols:
  "feed_symbol ''AAPL''" "feed_symbol ''MSFT''" "feed_symbol ''GOOGL''" "feed_symbol ''AMZN''" "feed_symbol ''META''"
  by (simp_all add: feed_symbol_def cstr_def NUL_def)

lemma emits_eq: "emits m p \<Longrightarrow> m = n \<Longrightarrow> emits n p"
  by simp

lemmas emits_intros = emits_bind emits_next_id emits_return emits_cancel emits_add

lemma emits_msft: "emits 16 msft_messages"
  unfolding msft_messages_def
  by (rule emits_eq, (rule emits_intros | simp add: sample_symbols)+)

lemma emits_googl: "emits 15 googl_messages"
  unfolding googl_messages_def
  by (rule emits_eq, (rule emits_intros | simp add: sample_symbols)+)

lemma emits_amzn: "emits 16 amzn_messages"
  unfolding amzn_messages_def
  by (rule emits_eq, (rule emits_intros | simp add: sample_symbols)+)

lemma emits_meta: "emits 20 meta_messages"
  unfolding meta_messages_def
  by (rule emits_eq, (rule emits_intros | simp add: sample_symbols)+)

lemma emits_closing: "emits 5 closing_messages"
  unfolding closing_messages_def
  by (rule emits_eq, (rule emits_intros | simp add: sample_symbols)+)

lemma emits_round: "i < 10 \<Longrightarrow> emits 5 (stress_round i)"
  unfolding stress_round_def
  by (rule emits_eq, (rule emits_intros | simp add: sample_symbols)+)

lemma emits_rounds: "(\<forall>i \<in> set is. i < 10) \<Longrightarrow> emits (5 * length is) (stress_rounds is)"
proof (induction "is")
  case (Cons i "is")
  then have "emits (5 + 5 * length is) (stress_rounds (i # is))"
    by (simp only: stress_rounds.simps) (intro emits_bind emits_round; simp)
  then show ?case by simp
qed (simp add: emits_return)

text \<open>The messages of the first symbol, with their ids.\<close>

definition aapl_list :: "itch_message list" where
  "aapl_list = [
     Add_Msg 1001 ''AAPL'' CHR ''B'' 10000 100,
     Add_Msg 1002 ''AAPL'' CHR ''S'' 9900 100,
     Add_Msg 1003 ''AAPL'' CHR ''B'' 10100 50,
     Add_Msg 1004 ''AAPL'' CHR ''S'' 10000 30,
     Add_Msg 1005 ''AAPL'' CHR ''B'' 10200 100,
     Add_Msg 1006 ''AAPL'' CHR ''B'' 10100 50,
     Add_Msg 1007 ''AAPL'' CHR ''S'' 10000 120,
     Add_Msg 1001 ''AAPL'' CHR ''B'' 10050 200,
     Cancel_Msg 1001,
     Add_Msg 2001 ''AAPL'' CHR ''S'' 10000 100,
     Add_Msg 2002 ''AAPL'' CHR ''B'' 10100 150,
     Add_Msg 1002 ''AAPL'' CHR ''S'' 10000 50,
     Add_Msg 1003 ''AAPL'' CHR ''S'' 10010 50,
     Add_Msg 1004 ''AAPL'' CHR ''S'' 10020 50,
     Add_Msg 1005 ''AAPL'' CHR ''S'' 10030 50,
     Add_Msg 1006 ''AAPL'' CHR ''S'' 10040 50,
     Add_Msg 1007 ''AAPL'' CHR ''B'' 10050 300,
     Add_Msg 1008 ''AAPL'' CHR ''B'' 9800 100]"

lemma aapl_run:
  "run_state aapl_messages \<lparr>w_order_id = 1000, w_file = []\<rparr>
    = ((), \<lparr>w_order_id = 1008, w_file = concat (map encode aapl_list)\<rparr>)"
  by (simp add: aapl_messages_def aapl_list_def write_add_order_def write_cancel_order_def next_id_def)

definition after_aapl :: "(writer, unit) state" where
  "after_aapl = do {
     msft_messages; googl_messages; amzn_messages; meta_messages;
     stress_rounds [0..<10]; closing_messages }"

lemma emits_after_aapl: "emits 122 after_aapl"
proof -
  have "emits (5 * length [0..<10 :: nat]) (stress_rounds [0..<10])" by (rule emits_rounds) simp
  then have r: "emits 50 (stress_rounds [0..<10])" by simp
  show ?thesis
    unfolding after_aapl_def
    by (rule emits_eq, (rule emits_bind emits_msft emits_googl emits_amzn emits_meta r emits_closing)+, simp)
qed

lemma sample_messages:
  obtains ms where "length ms = 122" "\<forall>m \<in> set (aapl_list @ ms). valid_message m"
    "w_file (snd (run_state all_messages \<lparr>w_order_id = 1000, w_file = []\<rparr>)) = concat (map encode (aapl_list @ ms))"
proof -
  let ?w = "\<lparr>w_order_id = 1008, w_file = concat (map encode aapl_list)\<rparr>"
  obtain ms where ms: "length ms = 122" "\<forall>m \<in> set ms. valid_message m"
    "w_file (snd (run_state after_aapl ?w)) = concat (map encode aapl_list) @ concat (map encode ms)"
    using emits_after_aapl unfolding emits_def by (metis writer.select_convs(2))
  have "run_state all_messages \<lparr>w_order_id = 1000, w_file = []\<rparr> = run_state after_aapl ?w"
    unfolding all_messages_def after_aapl_def by (subst run_state_bind) (simp only: aapl_run prod.case)
  moreover have "\<forall>m \<in> set aapl_list. valid_message m"
    by (simp add: aapl_list_def sample_symbols)
  ultimately show thesis using ms by (intro that [of ms]) auto
qed

subsection \<open>Properties\<close>

text \<open>
  C15: the feed round trip.  Any sequence of add and cancel messages in the generator's format,
  with symbols of at most six characters that do not end in a space and prices below
  \<open>2 ^ 32\<close>, is parsed back without an error: the callbacks are called once per message, in
  order, with exactly the written orders and ids, and every message is counted.
\<close>

theorem feed_round_trip:
  assumes "\<forall>m \<in> set ms. valid_message m"
  shows "process (Some (concat (map encode ms))) fs = Inr (fold deliver ms fs) \<and>
    fh_message_count (fst (fold deliver ms fs)) = fh_message_count (fst fs) + of_nat (length ms) \<and>
    fh_error_count (fst (fold deliver ms fs)) = fh_error_count (fst fs)"
  using process_messages [OF assms, of "[]" fs]
  by (simp add: process_some process_loop.simps [of "[]"] fold_deliver_counts)

definition record_feed :: "(order list \<times> u64 list) feed" where
  "record_feed = on_cancel_order (Some (\<lambda>i (os, cs). (os, cs @ [i])))
     (on_add_order (Some (\<lambda>x (os, cs). (os @ [x], cs))) new_feed)"

theorem feed_round_trip_witness:
  "\<exists>f. process (Some (encode (Add_Msg 7 ''AAPL'' CHR ''B'' 17500 100) @ encode (Cancel_Msg 7)))
     (record_feed, ([], [])) = Inr (f, ([written_order 7 ''AAPL'' CHR ''B'' 17500 100], [7])) \<and>
     fh_message_count f = 2"
  using feed_round_trip [of "[Add_Msg 7 ''AAPL'' CHR ''B'' 17500 100, Cancel_Msg 7]" "(record_feed, ([], []))"]
  by (simp add: sample_symbols record_feed_def new_feed_def on_add_order_def on_cancel_order_def
      call_all_def count_message_def)

text \<open>
  The generated sample file consists of 140 valid messages, so the feed handler reads it
  to its end and counts 140 messages and no error, whatever callbacks are registered.  But
  the running ids start at 1001, which is also the id of the first order: the cancel that is
  meant for the eighth order names both.
\<close>

theorem sample_file_is_clean:
  "\<exists>bs ms. create_itch True = (0, Some bs) \<and> length ms = 140 \<and> list_all valid_message ms \<and>
     process_file (Some bs) (f, s) = Inr (fold deliver ms (f, s)) \<and>
     fh_message_count (fst (fold deliver ms (f, s))) = fh_message_count f + 140 \<and>
     fh_error_count (fst (fold deliver ms (f, s))) = fh_error_count f \<and>
     ms ! 0 = Add_Msg 1001 ''AAPL'' CHR ''B'' 10000 100 \<and>
     ms ! 7 = Add_Msg 1001 ''AAPL'' CHR ''B'' 10050 200 \<and> ms ! 8 = Cancel_Msg 1001"
proof -
  obtain rest where ms: "length rest = 122" "\<forall>m \<in> set (aapl_list @ rest). valid_message m"
    "w_file (snd (run_state all_messages \<lparr>w_order_id = 1000, w_file = []\<rparr>)) = concat (map encode (aapl_list @ rest))"
    by (rule sample_messages)
  let ?ms = "aapl_list @ rest"
  have "process_file (Some (concat (map encode ?ms))) (f, s) = Inr (fold deliver ?ms (f, s))"
    using process_messages [OF ms(2), of "[]" "(f, s)"]
    unfolding process_file_def option.case process_some by (simp add: process_loop.simps [of "[]"])
  moreover have "length ?ms = 140" by (simp add: ms(1) aapl_list_def)
  moreover have "?ms ! 0 = Add_Msg 1001 ''AAPL'' CHR ''B'' 10000 100"
    "?ms ! 7 = Add_Msg 1001 ''AAPL'' CHR ''B'' 10050 200" "?ms ! 8 = Cancel_Msg 1001"
    by (simp_all add: aapl_list_def)
  moreover have "create_itch True = (0, Some (concat (map encode ?ms)))"
    using ms(3) by (simp only: create_itch_def) simp
  moreover have "list_all valid_message ?ms" using ms(2) by (simp only: list_all_iff)
  ultimately show ?thesis
    using fold_deliver_counts [of ?ms "(f, s)"]
    by (intro exI [of _ "concat (map encode ?ms)"] exI [of _ ?ms]) (simp only: fst_conv of_nat_numeral simp_thms)
qed

text \<open>Two bytes that spell the length two.\<close>

lemma length_two:
  assumes "message_length data = Inr 2" "length data = 2"
  shows "data = [0, 2]"
proof -
  obtain a b where d: "data = [a, b]"
    using assms(2) by (metis One_nat_def Suc_1 length_0_conv length_Suc_conv)
  have w: "push_bit 8 (ucast a) OR ucast b = (2 :: u16)"
    using assms(1) by (simp add: d message_length_def)
  have hi: "bit (push_bit 8 (ucast a) OR ucast b :: u16) (n + 8) = bit a n" if "n < 8" for n
    using that bit_imp_le_length [of b "n + 8"] by (auto simp: bit_simps)
  have lo: "bit (push_bit 8 (ucast a) OR ucast b :: u16) n = bit b n" if "n < 8" for n
    using that by (simp add: bit_simps)
  have "a = 0"
    using hi by (intro bit_word_eqI) (simp add: w bit_simps)
  moreover have "b = 2"
    using lo by (intro bit_word_eqI) (simp add: w bit_simps)
  ultimately show ?thesis using d by simp
qed

text \<open>
  C27: reading is in bounds but for one case.  Every read of the buffer is checked: the two
  length bytes, the type byte, and each byte of the ids, symbol, side, prices, quantities and
  time stamp.  Parsing always ends, and whatever bytes it is given it faults only when the
  buffer ends in the two bytes 0 and 2, a message whose length field says two, whose type byte
  would be read past the end of the buffer.
\<close>

theorem process_stays_in_bounds:
  assumes "process (Some data) fs = Inl e"
  shows "e = Out_Of_Bounds \<and> (\<exists>pre. data = pre @ [0, 2])"
proof -
  have "process_loop data fs = Inl e \<Longrightarrow> e = Out_Of_Bounds \<and> (\<exists>pre. data = pre @ [0, 2])" for data fs
  proof (induction data fs rule: process_loop.induct)
    case (1 data fs)
    have two: "2 \<le> length data"
      using "1.prems" by (subst (asm) process_loop.simps) (simp split: if_splits)
    obtain len where len: "message_length data = Inr len" using message_length_in [OF two] by blast
    have n: "2 \<le> unat len" "unat len \<le> length data"
      using "1.prems" two len by (subst (asm) process_loop.simps, auto simp: Let_def split: if_splits)+
    show ?case
    proof (cases "dispatch data (unat len) fs")
      case (Inl e')
      have "length data = 2"
        using dispatch_in [OF n(2), of fs] two Inl by (cases "2 < length data") auto
      moreover have "len = 2" using n calculation by (simp add: word_unat_eq_iff)
      ultimately have "data = [0, 2]" using len length_two by auto
      moreover have "e = Out_Of_Bounds"
        using "1.prems" two len n Inl \<open>length data = 2\<close>
        by (subst (asm) process_loop.simps) (simp add: dispatch_def byte_at_def)
      ultimately show ?thesis by (intro conjI exI [of _ "[]"]) simp_all
    next
      case (Inr fs1)
      then have "process_loop (drop (unat len) data) fs1 = Inl e"
        using "1.prems" two len n by (subst (asm) process_loop.simps) (simp add: Let_def)
      then have "e = Out_Of_Bounds \<and> (\<exists>pre. drop (unat len) data = pre @ [0, 2])"
        using "1.IH" [OF _ len refl _ Inr] two n by auto
      then show ?thesis by (metis append_assoc append_take_drop_id)
    qed
  qed
  then show ?thesis using assms by (simp add: process_some)
qed

theorem process_stays_in_bounds_witness:
  "process (Some [0, 3, 83, 0, 2]) (new_feed, ()) = Inl Out_Of_Bounds \<and>
   (\<exists>pre. [0, 3, 83, 0, 2] = pre @ [0 :: u8, 2])"
proof -
  have "process (Some [0, 3, 83, 0, 2]) (new_feed, ()) = Inl Out_Of_Bounds"
    by (simp add: process_def process_loop.simps message_length_def dispatch_def byte_at_def byte_char_def
      Let_def char_of_def)
  then show ?thesis using process_stays_in_bounds [of "[0, 3, 83, 0, 2]"] by blast
qed

lemma message_prefix:
  assumes "valid_message m" "2 \<le> k" "k < length (encode m)"
  shows "process_loop (take k (encode m)) fs = Inr (count_error fs)"
proof -
  obtain b t where b: "encode m = 0x00 # b # t" "unat (ucast b :: u16) = length (encode m)"
    by (cases m) (auto simp: add_message_fields cancel_message_fields)
  obtain k' where k: "k = Suc (Suc k')" using assms(2) by (metis Suc_le_D numeral_2_eq_2 Suc_le_mono)
  have "message_length (take k (encode m)) = Inr (ucast b)" by (simp add: b(1) k message_head)
  then show ?thesis
    using assms b(2) by (subst process_loop.simps) (simp add: Let_def)
qed

text \<open>
  C39: the replay tool cuts messages.  It parses every buffer of the file on its own, so when
  a buffer ends within a message, two bytes or more into it, that message is reported to no
  callback but counted as an error, and parsing goes on in the middle of it with the next
  buffer; given to the handler in one piece, the same bytes are read without a loss.
\<close>

theorem replay_cuts_messages:
  assumes "\<forall>x \<in> set (ms @ m # ms'). valid_message x"
    and "n = length (concat (map encode ms)) + k" "2 \<le> k" "k < length (encode m)"
  shows "replay n (concat (map encode (ms @ m # ms'))) fs
      = replay n (drop k (encode m) @ concat (map encode ms')) (count_error (fold deliver ms fs)) \<and>
    process (Some (concat (map encode (ms @ m # ms')))) fs = Inr (fold deliver (ms @ m # ms') fs)"
proof -
  let ?A = "concat (map encode ms)" and ?R = "concat (map encode ms')"
  let ?f = "concat (map encode (ms @ m # ms'))"
  have f: "?f = ?A @ encode m @ ?R" by simp
  have t: "take n ?f = ?A @ take k (encode m)" "drop n ?f = drop k (encode m) @ ?R"
    using assms(2,4) unfolding f by simp_all
  have "\<forall>x \<in> set ms. valid_message x" "valid_message m" using assms(1) by simp_all
  then have "process (Some (take n ?f)) fs = Inr (count_error (fold deliver ms fs))"
    unfolding process_some t using assms(3,4) by (simp add: process_messages message_prefix)
  moreover have "?f \<noteq> []" "n \<noteq> 0" using assms(2-4) by auto
  ultimately have "replay n ?f fs = replay n (drop n ?f) (count_error (fold deliver ms fs))"
    by (subst replay.simps) (simp only: if_False res_bind_simps simp_thms)
  moreover have "process (Some ?f) fs = Inr (fold deliver (ms @ m # ms') fs)"
    using process_messages [OF assms(1), of "[]" fs]
    unfolding process_some by (simp add: process_loop.simps [of "[]"])
  ultimately show ?thesis using t(2) by simp
qed

theorem replay_cuts_messages_witness:
  "replay buffer_size (concat (map encode (replicate 1872 (Add_Msg 7 ''AAPL'' CHR ''B'' 17500 100) @ [Add_Msg 8 ''AAPL'' CHR ''B'' 17500 100])))
     (new_feed, ()) =
   replay buffer_size (drop 16 (encode (Add_Msg 8 ''AAPL'' CHR ''B'' 17500 100)))
     (count_error (fold deliver (replicate 1872 (Add_Msg 7 ''AAPL'' CHR ''B'' 17500 100)) (new_feed, ())))"
proof -
  let ?a = "Add_Msg 7 ''AAPL'' CHR ''B'' 17500 100" and ?b = "Add_Msg 8 ''AAPL'' CHR ''B'' 17500 100"
  have v: "\<forall>x \<in> set (replicate 1872 ?a @ ?b # []). valid_message x"
    by (simp add: sample_symbols)
  have n: "buffer_size = length (concat (map encode (replicate 1872 ?a))) + 16"
    by (simp add: buffer_size_def length_concat sum_list_replicate)
  show ?thesis
    using replay_cuts_messages [OF v n, of "(new_feed, ())"] by simp
qed

end
