(* ===== verification/Risk_Manager.thy ===== *)
theory Risk_Manager
  imports Order_Model
begin

text \<open>
  The pre-trade checks (\<open>include/velox/risk/risk_manager.hpp\<close>,
  \<open>src/risk/risk_manager.cpp\<close>): a circuit breaker, basic validation and one position slot
  per hash of the symbol.  The arithmetic of the limit checks is on 32 bits, as in the code.
\<close>

record risk_position =
  rp_long :: u32
  rp_short :: u32
  rp_limit :: u32

record risk_manager =
  rm_positions :: "risk_position list"
  rm_circuit_breaker :: bool

definition new_risk_position :: risk_position where
  "new_risk_position = \<lparr>rp_long = 0, rp_short = 0, rp_limit = 100000\<rparr>"

definition new_risk_manager :: risk_manager where
  "new_risk_manager = \<lparr>rm_positions = replicate 256 new_risk_position, rm_circuit_breaker = False\<rparr>"

text \<open>\<open>static_cast<uint32_t>\<close> of a (signed) \<open>char\<close>, and the polynomial hash modulo 256.\<close>

definition char_u32 :: "char \<Rightarrow> u32" where
  "char_u32 c = scast (of_char c :: u8)"

definition hash_symbol :: "string \<Rightarrow> u32" where
  "hash_symbol symbol = foldl (\<lambda>h c. h * 31 + char_u32 c) 0 (cstr symbol) mod 256"

definition risk_slot :: "risk_manager \<Rightarrow> string \<Rightarrow> risk_position" where
  "risk_slot rm symbol = rm_positions rm ! unat (hash_symbol symbol)"

definition is_circuit_breaker_active :: "risk_manager \<Rightarrow> bool" where
  "is_circuit_breaker_active rm = rm_circuit_breaker rm"

definition activate_circuit_breaker :: "risk_manager \<Rightarrow> risk_manager" where
  "activate_circuit_breaker rm = rm\<lparr>rm_circuit_breaker := True\<rparr>"

definition reset_circuit_breaker :: "risk_manager \<Rightarrow> risk_manager" where
  "reset_circuit_breaker rm = rm\<lparr>rm_circuit_breaker := False\<rparr>"

text \<open>
  The buy side compares 32 bit words; the sell side compares the 32 bit difference, widened
  to 64 bits, with the negated limit.
\<close>

definition check_position :: "risk_manager \<Rightarrow> order option \<Rightarrow> u32 \<Rightarrow> bool" where
  "check_position rm p fill_qty =
     (case p of None \<Rightarrow> False
      | Some x \<Rightarrow>
          let pos = risk_slot rm (o_symbol x) in
          if is_buy x then
            let new_long = rp_long pos + fill_qty; new_short = rp_short pos
            in new_long - new_short \<le> rp_limit pos
          else
            let new_short = rp_short pos + fill_qty; new_long = rp_long pos
            in uint (new_long - new_short) \<ge> - uint (rp_limit pos))"

definition check_order :: "risk_manager \<Rightarrow> order option \<Rightarrow> bool" where
  "check_order rm p =
     (case p of None \<Rightarrow> False
      | Some x \<Rightarrow>
          if is_circuit_breaker_active rm then False
          else if o_quantity x = 0 then False
          else if o_price x < 0 then False
          else check_position rm (Some x) (o_quantity x))"

definition set_position_limit :: "string \<Rightarrow> u32 \<Rightarrow> risk_manager \<Rightarrow> risk_manager" where
  "set_position_limit symbol limit rm =
     (let idx = unat (hash_symbol symbol)
      in rm\<lparr>rm_positions := (rm_positions rm)[idx := (rm_positions rm ! idx)\<lparr>rp_limit := limit\<rparr>]\<rparr>)"

definition current_position :: "risk_manager \<Rightarrow> string \<Rightarrow> u32" where
  "current_position rm symbol =
     (let pos = risk_slot rm symbol
      in word_of_int (uint (rp_long pos) - uint (rp_short pos)))"

definition risk_update_position :: "order \<Rightarrow> u32 \<Rightarrow> risk_manager \<Rightarrow> risk_manager" where
  "risk_update_position x fill_qty rm =
     (let idx = unat (hash_symbol (o_symbol x)); pos = rm_positions rm ! idx
      in if is_buy x
         then rm\<lparr>rm_positions := (rm_positions rm)[idx := pos\<lparr>rp_long := rp_long pos + fill_qty\<rparr>]\<rparr>
         else rm\<lparr>rm_positions := (rm_positions rm)[idx := pos\<lparr>rp_short := rp_short pos + fill_qty\<rparr>]\<rparr>)"

subsection \<open>The array is never left\<close>

definition risk_ok :: "risk_manager \<Rightarrow> bool" where
  "risk_ok rm \<longleftrightarrow> length (rm_positions rm) = 256"

lemma hash_symbol_bound: "unat (hash_symbol symbol) < 256"
proof -
  have "hash_symbol symbol < 256" unfolding hash_symbol_def by (rule word_mod_less_divisor) simp
  then show ?thesis by (simp add: word_less_nat_alt)
qed

lemma risk_ok_new: "risk_ok new_risk_manager"
  by (simp add: risk_ok_def new_risk_manager_def)

lemma slot_in_bounds: "risk_ok rm \<Longrightarrow> unat (hash_symbol symbol) < length (rm_positions rm)"
  by (simp add: risk_ok_def hash_symbol_bound)

datatype risk_op = Set_Limit string u32 | Trip | Reset_Breaker | Risk_Fill order u32

fun risk_step :: "risk_manager \<Rightarrow> risk_op \<Rightarrow> risk_manager option" where
  "risk_step rm (Set_Limit symbol limit) = Some (set_position_limit symbol limit rm)"
| "risk_step rm Trip = Some (activate_circuit_breaker rm)"
| "risk_step rm Reset_Breaker = Some (reset_circuit_breaker rm)"
| "risk_step rm (Risk_Fill x q) = Some (risk_update_position x q rm)"

interpretation risk_runs: safe_system risk_step "\<lambda>_ _. True" risk_ok
proof
  show "\<exists>s'. risk_step s x = Some s' \<and> risk_ok s'" if "risk_ok s" for s x
    using that
    by (cases x) (auto simp: risk_ok_def set_position_limit_def activate_circuit_breaker_def
        reset_circuit_breaker_def risk_update_position_def Let_def)
qed

subsection \<open>What a sequence of fills does to one slot\<close>

lemma risk_slot_update:
  assumes "risk_ok rm"
  shows "risk_slot (risk_update_position x q rm) symbol =
    (if hash_symbol (o_symbol x) = hash_symbol symbol
     then (if is_buy x then (risk_slot rm symbol)\<lparr>rp_long := rp_long (risk_slot rm symbol) + q\<rparr>
           else (risk_slot rm symbol)\<lparr>rp_short := rp_short (risk_slot rm symbol) + q\<rparr>)
     else risk_slot rm symbol)"
  using slot_in_bounds [OF assms, of symbol]
  by (simp add: risk_slot_def risk_update_position_def Let_def nth_list_update word_unat_eq_iff)

lemma risk_slot_set_limit:
  assumes "risk_ok rm"
  shows "risk_slot (set_position_limit symbol' limit rm) symbol =
    (if hash_symbol symbol' = hash_symbol symbol then (risk_slot rm symbol)\<lparr>rp_limit := limit\<rparr>
     else risk_slot rm symbol)"
  using slot_in_bounds [OF assms, of symbol]
  by (simp add: risk_slot_def set_position_limit_def Let_def nth_list_update word_unat_eq_iff)

lemma current_position_word: "current_position rm symbol = rp_long (risk_slot rm symbol) - rp_short (risk_slot rm symbol)"
  by (simp add: current_position_def Let_def wi_hom_sub [symmetric])

text \<open>What traded, signed by side, over the fills that hash to the same slot.\<close>

fun signed_fills :: "string \<Rightarrow> (order \<times> u32) list \<Rightarrow> u32" where
  "signed_fills symbol [] = 0"
| "signed_fills symbol ((x, q) # fs) =
     (if hash_symbol (o_symbol x) = hash_symbol symbol then (if is_buy x then q else - q) else 0)
     + signed_fills symbol fs"

subsection \<open>Properties\<close>

text \<open>
  The recorded position of a symbol is the sum of all fills of its hash slot since the
  start, buys counted up and sells counted down (modulo 32 bits); the limits and the circuit
  breaker are not touched by fills.
\<close>

theorem risk_position_is_sum_of_fills:
  assumes "risk_ok rm"
  shows "let rm' = foldl (\<lambda>rm (x, q). risk_update_position x q rm) rm fs
         in current_position rm' symbol = current_position rm symbol + signed_fills symbol fs \<and>
            rp_limit (risk_slot rm' symbol) = rp_limit (risk_slot rm symbol) \<and>
            rm_circuit_breaker rm' = rm_circuit_breaker rm"
  using assms
proof (induction fs arbitrary: rm)
  case (Cons f fs)
  obtain x q where f: "f = (x, q)" by (cases f)
  have ok: "risk_ok (risk_update_position x q rm)"
    using Cons.prems by (simp add: risk_ok_def risk_update_position_def Let_def)
  have "rm_circuit_breaker (risk_update_position x q rm) = rm_circuit_breaker rm"
    by (simp add: risk_update_position_def Let_def)
  then show ?case
    using Cons.IH [OF ok]
    by (simp add: f Let_def current_position_word risk_slot_update [OF Cons.prems])
qed simp

theorem risk_position_is_sum_of_fills_witness:
  "current_position (foldl (\<lambda>rm (x, q). risk_update_position x q rm) new_risk_manager
     [(default_order\<lparr>o_symbol := ''AAPL''\<rparr>, 10), (default_order\<lparr>o_symbol := ''AAPL'', o_side := SELL\<rparr>, 4)]) ''AAPL'' = 6"
proof -
  have "current_position new_risk_manager ''AAPL'' = 0"
    by (simp add: current_position_word risk_slot_def new_risk_manager_def hash_symbol_bound
        new_risk_position_def)
  then show ?thesis
    using risk_position_is_sum_of_fills [OF risk_ok_new,
        of "[(default_order\<lparr>o_symbol := ''AAPL''\<rparr>, 10), (default_order\<lparr>o_symbol := ''AAPL'', o_side := SELL\<rparr>, 4)]" "''AAPL''"]
    by (simp add: Let_def default_order_def is_buy_def)
qed

text \<open>
  C35: what \<open>check_order\<close> decides.  While the circuit breaker is active, and for a zero
  quantity or a negative price, every order is refused; otherwise a buy order passes exactly
  when the 32 bit value of long plus quantity minus short is within the limit, and a sell
  order always passes: the sell limit is never enforced, because the unsigned difference is
  compared with a number that is not positive.
\<close>

theorem check_order_decision:
  "check_order rm (Some x) \<longleftrightarrow>
     \<not> rm_circuit_breaker rm \<and> o_quantity x \<noteq> 0 \<and> 0 \<le> o_price x \<and>
     (is_sell x \<or>
      unat (rp_long (risk_slot rm (o_symbol x)) + o_quantity x - rp_short (risk_slot rm (o_symbol x)))
        \<le> unat (rp_limit (risk_slot rm (o_symbol x))))"
proof -
  have "is_sell x = (\<not> is_buy x)" by (cases "o_side x") (simp_all add: is_sell_def is_buy_def)
  moreover have "- uint (rp_limit pos) \<le> uint w" for pos and w :: u32
    using uint_ge_0 [of w] uint_ge_0 [of "rp_limit pos"] by linarith
  ultimately show ?thesis
    by (auto simp: check_order_def check_position_def is_circuit_breaker_active_def Let_def
        word_le_nat_alt)
qed

text \<open>
  C36: the buy check is exact while the position after the order is not short, and wraps
  around otherwise: a buy order that only reduces a short position is compared as a number
  near \<open>2 ^ 32\<close> and refused under every limit below that.
\<close>

theorem buy_check_exact_or_wraps:
  assumes "is_buy x" "unat (rp_long (risk_slot rm (o_symbol x))) + unat q < 2 ^ 32"
  shows "check_position rm (Some x) q \<longleftrightarrow>
    (let pos = risk_slot rm (o_symbol x); l = unat (rp_long pos) + unat q; s = unat (rp_short pos)
     in if s \<le> l then l - s \<le> unat (rp_limit pos) else 2 ^ 32 - (s - l) \<le> unat (rp_limit pos))"
proof -
  let ?pos = "risk_slot rm (o_symbol x)"
  let ?l = "rp_long ?pos + q" and ?s = "rp_short ?pos"
  have l: "unat ?l = unat (rp_long ?pos) + unat q"
    using assms(2) by (intro unat_add_bounded) simp
  have "unat (?l - ?s) = (if unat ?s \<le> unat ?l then unat ?l - unat ?s else 2 ^ 32 - (unat ?s - unat ?l))"
    using unat_sub_if_size [of ?l ?s] by (auto simp: word_size)
  then show ?thesis
    using assms(1) by (simp add: check_position_def Let_def word_le_nat_alt l)
qed

theorem buy_check_exact_or_wraps_witness:
  "\<not> check_position (risk_update_position (default_order\<lparr>o_side := SELL\<rparr>) 10 new_risk_manager)
     (Some default_order) 5"
proof -
  let ?rm = "risk_update_position (default_order\<lparr>o_side := SELL\<rparr>) 10 new_risk_manager"
  have "risk_slot ?rm (o_symbol default_order) = new_risk_position\<lparr>rp_short := 10\<rparr>"
    by (simp add: risk_slot_update [OF risk_ok_new])
      (simp add: default_order_def is_buy_def risk_slot_def new_risk_manager_def hash_symbol_bound
        new_risk_position_def)
  then show ?thesis
    using buy_check_exact_or_wraps [of default_order ?rm 5]
    by (simp add: new_risk_position_def default_order_def is_buy_def Let_def)
qed

end
