(* ===== verification/Position_Manager.thy ===== *)
theory Position_Manager
  imports Order_Model
begin

text \<open>
  Positions and profit and loss per symbol (\<open>include/velox/risk/position_manager.hpp\<close>,
  \<open>src/risk/position_manager.cpp\<close>).  The average price of a buy is computed on unsigned
  64 bits, because one operand is a \<open>uint64_t\<close>; all other arithmetic is on \<open>int64_t\<close>.
  The map is keyed by the symbol without its trailing spaces.
\<close>

record position =
  ps_net :: i64
  ps_realized :: i64
  ps_avg :: i64
  ps_bought :: u32
  ps_sold :: u32

type_synonym positions = "string \<rightharpoonup> position"

definition new_position :: position where
  "new_position = \<lparr>ps_net = 0, ps_realized = 0, ps_avg = 0, ps_bought = 0, ps_sold = 0\<rparr>"

definition trim_symbol :: "string \<Rightarrow> string" where
  "trim_symbol symbol = rev (dropWhile (\<lambda>c. c = CHR '' '') (rev (cstr symbol)))"

definition average_price :: "i64 \<Rightarrow> u64 \<Rightarrow> i64 \<Rightarrow> u32 \<Rightarrow> u64 \<Rightarrow> i64" where
  "average_price old_avg old_bought fill_px q new_bought =
     i64_of_u64 ((u64_of_i64 old_avg * old_bought + u64_of_i64 (s64 (fill_px * uint q))) div new_bought)"

definition update_realized_pnl :: "i64 \<Rightarrow> position \<Rightarrow> position" where
  "update_realized_pnl pnl pos = pos\<lparr>ps_realized := s64 (ps_realized pos + pnl)\<rparr>"

definition buy_fill :: "u32 \<Rightarrow> i64 \<Rightarrow> position \<Rightarrow> position" where
  "buy_fill q fill_px pos =
     (let old_position = ps_net pos; old_avg = ps_avg pos; old_bought = ucast (ps_bought pos) :: u64;
          new_position = s64 (old_position + uint q); new_bought = old_bought + ucast q;
          new_avg = (if old_bought = 0 then fill_px
                     else average_price old_avg old_bought fill_px q new_bought)
      in pos\<lparr>ps_net := new_position, ps_avg := new_avg, ps_bought := ucast new_bought\<rparr>)"

definition sell_fill :: "u32 \<Rightarrow> i64 \<Rightarrow> position \<Rightarrow> position" where
  "sell_fill q fill_px pos =
     (let old_position = ps_net pos; old_avg = ps_avg pos;
          pnl = s64 (s64 (fill_px - old_avg) * uint q);
          pos1 = update_realized_pnl pnl pos
      in pos1\<lparr>ps_net := s64 (old_position - uint q), ps_sold := ps_sold pos1 + q\<rparr>)"

definition update_position :: "order option \<Rightarrow> u32 \<Rightarrow> i64 \<Rightarrow> positions \<Rightarrow> positions" where
  "update_position p q fill_px m =
     (case p of None \<Rightarrow> m
      | Some x \<Rightarrow>
          if q = 0 then m
          else
            let symbol = trim_symbol (o_symbol x);
                pos = (case m symbol of Some pos \<Rightarrow> pos | None \<Rightarrow> new_position)
            in m(symbol \<mapsto> (if is_buy x then buy_fill q fill_px pos else sell_fill q fill_px pos)))"

text \<open>
  The getters compute the trimmed symbol but look the untrimmed one up.
\<close>

definition get_position :: "positions \<Rightarrow> string \<Rightarrow> i64" where
  "get_position m symbol = (case m (cstr symbol) of None \<Rightarrow> 0 | Some pos \<Rightarrow> ps_net pos)"

definition get_realized_pnl :: "positions \<Rightarrow> string \<Rightarrow> i64" where
  "get_realized_pnl m symbol = (case m (cstr symbol) of None \<Rightarrow> 0 | Some pos \<Rightarrow> ps_realized pos)"

definition get_unrealized_pnl :: "positions \<Rightarrow> string \<Rightarrow> i64 \<Rightarrow> i64" where
  "get_unrealized_pnl m symbol current_price =
     (case m (cstr symbol) of None \<Rightarrow> 0
      | Some pos \<Rightarrow>
          let position = ps_net pos in
          if position = 0 then 0
          else
            let avg_price = ps_avg pos in
            if position > 0 then s64 (s64 (current_price - avg_price) * position)
            else s64 (s64 (avg_price - current_price) * s64 (- position)))"

definition get_total_pnl :: "positions \<Rightarrow> string \<Rightarrow> i64 \<Rightarrow> i64" where
  "get_total_pnl m symbol current_price =
     s64 (get_realized_pnl m symbol + get_unrealized_pnl m symbol current_price)"

definition reset_positions :: "positions \<Rightarrow> positions" where
  "reset_positions m = Map.empty"

subsection \<open>Symbols\<close>

lemma trim_symbol_prefix: "\<exists>n. cstr symbol = trim_symbol symbol @ replicate n (CHR '' '')"
proof -
  let ?sp = "takeWhile (\<lambda>c. c = CHR '' '') (rev (cstr symbol))"
  have "rev (cstr symbol) = ?sp @ dropWhile (\<lambda>c. c = CHR '' '') (rev (cstr symbol))" by simp
  then have "cstr symbol = trim_symbol symbol @ rev ?sp"
    unfolding trim_symbol_def by (metis rev_append rev_rev_ident)
  moreover have "rev ?sp = replicate (length ?sp) (CHR '' '')"
  proof -
    have "\<forall>c \<in> set (rev ?sp). c = CHR '' ''" by (auto dest: set_takeWhileD)
    from replicate_length_same [OF this] show ?thesis by (metis length_rev)
  qed
  ultimately show ?thesis by metis
qed

lemma trim_symbol_cstr [simp]: "cstr (trim_symbol symbol) = trim_symbol symbol"
proof (rule cstr_id)
  obtain n where "cstr symbol = trim_symbol symbol @ replicate n (CHR '' '')"
    using trim_symbol_prefix by blast
  then show "NUL \<notin> set (trim_symbol symbol)"
    using cstr_no_NUL [of symbol] by auto
qed

lemma trim_symbol_idem [simp]: "trim_symbol (trim_symbol symbol) = trim_symbol symbol"
proof -
  have "dropWhile P (dropWhile P xs) = dropWhile P xs" for P and xs :: string
    by (induction xs) auto
  then show ?thesis by (simp add: trim_symbol_def [of "trim_symbol symbol"])
      (simp add: trim_symbol_def)
qed

subsection \<open>The counters agree with the net position\<close>

text \<open>
  The net position is the 64 bit difference of what was bought and sold; the counters are
  32 bit, so they agree with it modulo \<open>2 ^ 32\<close>.
\<close>

definition position_ok :: "position \<Rightarrow> bool" where
  "position_ok pos \<longleftrightarrow> (word_of_int (ps_net pos) :: u32) = ps_bought pos - ps_sold pos \<and>
     in_i64 (ps_net pos) \<and> in_i64 (ps_realized pos)"

lemma word_of_s64: "(word_of_int (s64 x) :: u32) = word_of_int x"
  by (simp add: s64_def word_of_int_eq_iff take_bit_signed_take_bit)

lemma position_ok_new: "position_ok new_position"
  by (simp add: position_ok_def new_position_def in_i64_def)

lemma ucast_sum_u32: "(ucast (ucast x + ucast y :: u64) :: u32) = x + y"
  by transfer (simp add: take_bit_add)

lemma position_ok_buy: "position_ok pos \<Longrightarrow> position_ok (buy_fill q p pos)"
  by (simp add: position_ok_def buy_fill_def Let_def word_of_s64 s64_range ucast_sum_u32
      wi_hom_add [symmetric] algebra_simps)

lemma position_ok_sell: "position_ok pos \<Longrightarrow> position_ok (sell_fill q p pos)"
  by (simp add: position_ok_def sell_fill_def update_realized_pnl_def Let_def word_of_s64 s64_range
      wi_hom_sub [symmetric] algebra_simps)

definition positions_ok :: "positions \<Rightarrow> bool" where
  "positions_ok m \<longleftrightarrow> (\<forall>symbol pos. m symbol = Some pos \<longrightarrow> position_ok pos \<and> trim_symbol symbol = symbol)"

lemma positions_ok_update: "positions_ok m \<Longrightarrow> positions_ok (update_position p q px m)"
proof (cases p)
  case (Some x)
  assume ok: "positions_ok m"
  let ?pos = "case m (trim_symbol (o_symbol x)) of Some pos \<Rightarrow> pos | None \<Rightarrow> new_position"
  have "position_ok ?pos"
    using ok position_ok_new by (auto simp: positions_ok_def split: option.split)
  then have "position_ok (if is_buy x then buy_fill q px ?pos else sell_fill q px ?pos)"
    using position_ok_buy position_ok_sell by simp
  then have new: "positions_ok (m(trim_symbol (o_symbol x) \<mapsto>
      (if is_buy x then buy_fill q px ?pos else sell_fill q px ?pos)))"
    using ok unfolding positions_ok_def by (metis fun_upd_apply option.inject trim_symbol_idem)
  show ?thesis
    using new ok by (simp add: update_position_def Some Let_def)
qed (simp add: update_position_def)

lemma positions_ok_empty: "positions_ok Map.empty"
  by (simp add: positions_ok_def)

datatype position_op = Fill_Position order u32 i64 | Reset_Positions

fun position_step :: "positions \<Rightarrow> position_op \<Rightarrow> positions option" where
  "position_step m (Fill_Position x q px) = Some (update_position (Some x) q px m)"
| "position_step m Reset_Positions = Some (reset_positions m)"

interpretation position_runs: safe_system position_step "\<lambda>_ _. True" positions_ok
proof
  show "\<exists>s'. position_step s x = Some s' \<and> positions_ok s'" if "positions_ok s" for s x
    using that positions_ok_update positions_ok_empty by (cases x) (simp_all add: reset_positions_def)
qed

subsection \<open>The net position is the sum of the fills\<close>

definition net_of :: "positions \<Rightarrow> string \<Rightarrow> i64" where
  "net_of m symbol = (case m symbol of None \<Rightarrow> 0 | Some pos \<Rightarrow> ps_net pos)"

definition signed_fill :: "string \<Rightarrow> order \<times> u32 \<times> i64 \<Rightarrow> int" where
  "signed_fill symbol f = (case f of (x, q, _) \<Rightarrow>
     if trim_symbol (o_symbol x) = symbol then (if is_buy x then uint q else - uint q) else 0)"

definition apply_position_fills :: "(order \<times> u32 \<times> i64) list \<Rightarrow> positions \<Rightarrow> positions" where
  "apply_position_fills fs m = foldl (\<lambda>m (x, q, px). update_position (Some x) q px m) m fs"

lemma apply_position_fills_simps [simp]:
  "apply_position_fills [] m = m"
  "apply_position_fills ((x, q, px) # fs) m = apply_position_fills fs (update_position (Some x) q px m)"
  "apply_position_fills (fs @ [(x, q, px)]) m = update_position (Some x) q px (apply_position_fills fs m)"
  by (simp_all add: apply_position_fills_def)

lemma net_of_update:
  "net_of (update_position (Some x) q px m) symbol =
     (if q \<noteq> 0 \<and> trim_symbol (o_symbol x) = symbol
      then s64 (net_of m symbol + signed_fill symbol (x, q, px)) else net_of m symbol)"
  by (auto simp: net_of_def update_position_def Let_def signed_fill_def buy_fill_def sell_fill_def
      update_realized_pnl_def new_position_def split: option.splits)

lemma signed_fill_bound: "\<bar>signed_fill symbol f\<bar> < 2 ^ 32"
proof -
  obtain x q px where f: "f = (x, q, px)" by (cases f) auto
  have "uint q < 2 ^ 32" using uint_lt2p [of q] by simp
  then show ?thesis by (simp add: f signed_fill_def)
qed

lemma net_of_fills:
  assumes "\<bar>net_of m symbol\<bar> + 2 ^ 32 * int (length fs) < 2 ^ 63"
  shows "net_of (apply_position_fills fs m) symbol = net_of m symbol + sum_list (map (signed_fill symbol) fs)"
  using assms
proof (induction fs arbitrary: m)
  case (Cons f fs)
  obtain x q px where f: "f = (x, q, px)" by (cases f) auto
  have b: "\<bar>signed_fill symbol f\<bar> < 2 ^ 32" by (rule signed_fill_bound)
  have "in_i64 (net_of m symbol + signed_fill symbol f)"
    using Cons.prems b by (simp add: in_i64_def) arith
  then have n: "net_of (update_position (Some x) q px m) symbol = net_of m symbol + signed_fill symbol f"
    using net_of_update [of x q px m symbol] by (auto simp: f s64_id signed_fill_def)
  have "net_of (apply_position_fills fs (update_position (Some x) q px m)) symbol
      = net_of (update_position (Some x) q px m) symbol + sum_list (map (signed_fill symbol) fs)"
    using Cons.prems b n by (intro Cons.IH) simp
  then show ?case using n by (simp add: apply_position_fills_def f)
qed (simp add: apply_position_fills_def)

subsection \<open>Properties\<close>

text \<open>
  C20: from the empty manager, after any sequence of fewer than \<open>2 ^ 30\<close> fills the net
  position that \<open>get_position\<close> reports for a trimmed symbol is exactly what was bought minus
  what was sold under the symbols that trim to it; no wrap-around happens on the way.
\<close>

theorem position_is_sum_of_fills:
  assumes "length fs < 2 ^ 30"
  shows "get_position (apply_position_fills fs Map.empty) (trim_symbol symbol)
    = sum_list (map (signed_fill (trim_symbol symbol)) fs)"
proof -
  have "int (length fs) < 2 ^ 30" using assms by simp
  then have "net_of (apply_position_fills fs Map.empty) (trim_symbol symbol)
      = net_of Map.empty (trim_symbol symbol) + sum_list (map (signed_fill (trim_symbol symbol)) fs)"
    by (intro net_of_fills) (simp add: net_of_def)
  then show ?thesis by (simp add: get_position_def net_of_def)
qed

definition demo_fills :: "(order \<times> u32 \<times> i64) list" where
  "demo_fills = [(default_order\<lparr>o_symbol := ''AB  ''\<rparr>, 10, 100),
     (default_order\<lparr>o_symbol := ''AB'', o_side := SELL\<rparr>, 4, 103)]"

lemma demo_trim: "trim_symbol ''AB  '' = ''AB''" "trim_symbol ''AB'' = ''AB''"
  by (simp_all add: trim_symbol_def cstr_def NUL_def)

theorem position_is_sum_of_fills_witness:
  "get_position (apply_position_fills demo_fills Map.empty) ''AB'' = 6"
  using position_is_sum_of_fills [of demo_fills "''AB''"]
  by (simp add: demo_fills_def demo_trim signed_fill_def default_order_def is_buy_def)

text \<open>
  The average entry price.  The unsigned division never divides by zero, and as long as
  prices are not negative and the products stay below \<open>2 ^ 63\<close>, a buy moves the average to the
  quantity-weighted mean of the old average and the fill price, rounded down, which lies
  between the two; and the bought counter grows by the fill.
\<close>

theorem buy_average_exact:
  assumes "ps_bought pos \<noteq> 0" "0 \<le> ps_avg pos" "0 \<le> px"
    and "uint (ps_bought pos) + uint q < 2 ^ 32"
    and "ps_avg pos * uint (ps_bought pos) + px * uint q < 2 ^ 63"
  shows "ps_avg (buy_fill q px pos)
      = (ps_avg pos * uint (ps_bought pos) + px * uint q) div (uint (ps_bought pos) + uint q) \<and>
    min (ps_avg pos) px \<le> ps_avg (buy_fill q px pos) \<and>
    ps_avg (buy_fill q px pos) \<le> max (ps_avg pos) px \<and>
    uint (ps_bought (buy_fill q px pos)) = uint (ps_bought pos) + uint q"
proof -
  let ?a = "ps_avg pos" and ?B = "uint (ps_bought pos)" and ?q = "uint q"
  have B: "0 < ?B" using assms(1) by (metis uint_0_iff uint_ge_0 order_less_le)
  have q0: "0 \<le> ?q" by simp
  have pq: "0 \<le> ?a * ?B" "0 \<le> px * ?q" using assms(2,3) B q0 by simp_all
  have uB: "uint (ucast (ps_bought pos) :: u64) = ?B"
    and uq: "uint (ucast q :: u64) = ?q"
    by (simp_all add: unsigned_ucast_eq take_bit_int_eq_self_iff uint_lt2p [THEN less_trans])
  have nz: "(ucast (ps_bought pos) :: u64) \<noteq> 0"
  proof
    assume "(ucast (ps_bought pos) :: u64) = 0"
    then have "uint (ucast (ps_bought pos) :: u64) = 0" by simp
    with uB B show False by simp
  qed
  have sum: "uint (ucast (ps_bought pos) + ucast q :: u64) = ?B + ?q"
    using assms(4) B q0 by (simp add: uint_word_ariths uB uq)
  have s: "s64 (px * ?q) = px * ?q"
    using assms(5) pq by (intro s64_id) (simp add: in_i64_def)
  have num: "uint (u64_of_i64 ?a * ucast (ps_bought pos) + u64_of_i64 (px * ?q)) = ?a * ?B + px * ?q"
  proof -
    have e: "u64_of_i64 ?a * ucast (ps_bought pos) + u64_of_i64 (px * ?q)
        = (word_of_int (?a * ?B + px * ?q) :: u64)"
      by (simp add: u64_of_i64_def wi_hom_add [symmetric] wi_hom_mult [symmetric] uB [symmetric])
    show ?thesis
      unfolding e uint_word_of_int using assms(5) pq by (intro mod_pos_pos_trivial) simp_all
  qed
  let ?d = "(?a * ?B + px * ?q) div (?B + ?q)"
  have d0: "0 \<le> ?d" using pq B q0 by (intro div_int_pos_iff [THEN iffD2]) auto
  have dle: "?d \<le> ?a * ?B + px * ?q" using zdiv_mono2 [of "?a * ?B + px * ?q" 1 "?B + ?q"] pq B q0 by simp
  have avg: "ps_avg (buy_fill q px pos) = ?d"
  proof -
    have "uint ((u64_of_i64 ?a * ucast (ps_bought pos) + u64_of_i64 (px * ?q)) div
        (ucast (ps_bought pos) + ucast q :: u64)) = ?d"
      by (simp add: uint_div num sum)
    then show ?thesis
      using nz d0 dle assms(5)
      by (simp add: buy_fill_def average_price_def Let_def s i64_of_u64_def sint_uint
          signed_take_bit_int_eq_self)
  qed
  have m: "min ?a px * (?B + ?q) \<le> ?a * ?B + px * ?q" "?a * ?B + px * ?q \<le> max ?a px * (?B + ?q)"
    using B q0 unfolding distrib_left by (intro add_mono mult_right_mono; simp)+
  have "min ?a px \<le> ?d" "?d \<le> max ?a px"
    using zdiv_mono1 [OF m(1), of "?B + ?q"] zdiv_mono1 [OF m(2), of "?B + ?q"] B q0 by simp_all
  moreover have "uint (ps_bought (buy_fill q px pos)) = ?B + ?q"
    using assms(4) B q0 by (simp add: buy_fill_def Let_def ucast_sum_u32 uint_word_ariths)
  ultimately show ?thesis using avg by simp
qed

theorem buy_average_exact_witness:
  "ps_avg (buy_fill 30 200 (new_position\<lparr>ps_avg := 100, ps_bought := 10\<rparr>)) = 175"
  using buy_average_exact [of "new_position\<lparr>ps_avg := 100, ps_bought := 10\<rparr>" 200 30]
  by (simp add: new_position_def)

text \<open>
  A round trip realizes the price difference.  Buying \<open>q\<close> at \<open>p\<close> under a symbol without a
  position and selling \<open>q\<close> at \<open>p'\<close> ends flat, with \<open>(p' - p) * q\<close> realized and nothing
  unrealized at any price; all read back through the getters under the trimmed symbol.
\<close>

theorem round_trip_pnl:
  assumes "m (trim_symbol (o_symbol x)) = None" "q \<noteq> 0" "is_buy x" "\<not> is_buy y"
    and "trim_symbol (o_symbol y) = trim_symbol (o_symbol x)"
    and "in_i64 (p' - p)" "in_i64 ((p' - p) * uint q)"
  shows "let t = trim_symbol (o_symbol x);
             m' = update_position (Some y) q p' (update_position (Some x) q p m)
         in get_position m' t = 0 \<and> get_realized_pnl m' t = (p' - p) * uint q \<and>
            get_unrealized_pnl m' t price = 0 \<and> get_total_pnl m' t price = (p' - p) * uint q"
proof -
  have "uint q < 2 ^ 32" using uint_lt2p [of q] by simp
  then have "in_i64 (uint q)" by (simp add: in_i64_def) (use uint_ge_0 [of q] in linarith)
  then show ?thesis
    using assms
    by (simp add: Let_def update_position_def buy_fill_def sell_fill_def new_position_def
        update_realized_pnl_def get_position_def get_realized_pnl_def get_unrealized_pnl_def
        get_total_pnl_def s64_id)
      (simp add: s64_id in_i64_def)
qed

theorem round_trip_pnl_witness:
  "get_total_pnl (update_position (Some (default_order\<lparr>o_symbol := ''AB'', o_side := SELL\<rparr>)) 10 103
     (update_position (Some (default_order\<lparr>o_symbol := ''AB''\<rparr>)) 10 100 Map.empty)) ''AB'' 55 = 30"
  using round_trip_pnl [of Map.empty "default_order\<lparr>o_symbol := ''AB''\<rparr>" 10
      "default_order\<lparr>o_symbol := ''AB'', o_side := SELL\<rparr>" 103 100 55]
  by (simp add: default_order_def is_buy_def in_i64_def demo_trim Let_def)

text \<open>
  Positions are stored under trimmed symbols, but the getters look up the symbol they
  are given.  Under a symbol that ends in a space every getter reports zero, whatever was
  traded.
\<close>

theorem untrimmed_lookup_finds_nothing:
  assumes "run_ops position_step ops Map.empty = Some m" "cstr symbol \<noteq> trim_symbol symbol"
  shows "get_position m symbol = 0 \<and> get_realized_pnl m symbol = 0 \<and>
    get_unrealized_pnl m symbol price = 0 \<and> get_total_pnl m symbol price = 0"
proof -
  have g: "run_guard position_step (\<lambda>_ _. True) ops s" for s
    by (induction ops arbitrary: s) (auto split: option.split)
  have ok: "positions_ok m"
    using position_runs.run_safe [OF positions_ok_empty g] assms(1) by simp
  have "trim_symbol (cstr symbol) = trim_symbol symbol"
    by (simp add: trim_symbol_def cstr_id [OF cstr_no_NUL])
  then have none: "m (cstr symbol) = None"
    using ok assms(2) unfolding positions_ok_def by (metis not_None_eq)
  have "s64 0 = 0" by (simp add: s64_def)
  with none show ?thesis
    by (simp add: get_position_def get_realized_pnl_def get_unrealized_pnl_def get_total_pnl_def)
qed

theorem untrimmed_lookup_finds_nothing_witness:
  "get_position (update_position (Some (default_order\<lparr>o_symbol := ''AB  ''\<rparr>)) 10 100 Map.empty) ''AB  '' = 0"
  using untrimmed_lookup_finds_nothing
    [where ops = "[Fill_Position (default_order\<lparr>o_symbol := ''AB  ''\<rparr>) 10 100]" and symbol = "''AB  ''"]
  by (simp add: demo_trim cstr_def NUL_def)

end
