(* ===== verification/Lockfree.thy ===== *)
theory Lockfree
  imports Price_Level_Props
begin

text \<open>
  The interface of a bounded first-in-first-out queue, interpreted by the ring buffer of a
  price level; and the operations of the third-party lock-free library (a submodule, not
  part of the sources): single-producer single-consumer queues and object pools are
  parameters, and \<open>spsc_queue\<close> and \<open>object_pool\<close> state what their users rely on.
\<close>

subsection \<open>Interface: a bounded queue\<close>

locale bounded_fifo =
  fixes push :: "'e \<Rightarrow> 'q \<Rightarrow> 'q"
    and pop :: "'q \<Rightarrow> 'q"
    and front :: "'q \<Rightarrow> 'e"
    and contents :: "'q \<Rightarrow> 'e list"
    and cap :: nat
  assumes push_contents: "length (contents q) < cap \<Longrightarrow> contents (push x q) = contents q @ [x]"
    and pop_contents: "contents q = x # xs \<Longrightarrow> contents (pop q) = xs"
    and front_contents: "contents q = x # xs \<Longrightarrow> front q = x"
begin

lemma push_all:
  "length (contents q) + length xs \<le> cap \<Longrightarrow> contents (fold push xs q) = contents q @ xs"
  by (induction xs arbitrary: q) (auto simp: push_contents)

lemma pop_many: "n \<le> length (contents q) \<Longrightarrow> contents ((pop ^^ n) q) = drop n (contents q)"
proof (induction n)
  case (Suc n)
  then obtain x xs where x: "drop n (contents q) = x # xs"
    by (metis Cons_nth_drop_Suc Suc_le_lessD)
  with Suc have "contents ((pop ^^ Suc n) q) = xs" by (simp add: pop_contents)
  also have "xs = drop (Suc n) (contents q)" using x by (metis drop_Suc list.sel(3) tl_drop)
  finally show ?case .
qed simp

text \<open>What goes in comes out in the same order.\<close>

lemma fifo_order:
  assumes "length (contents q) + length xs \<le> cap" "i < length (contents q @ xs)"
  shows "front ((pop ^^ i) (fold push xs q)) = (contents q @ xs) ! i"
proof -
  have c: "contents (fold push xs q) = contents q @ xs" by (rule push_all [OF assms(1)])
  have "contents ((pop ^^ i) (fold push xs q)) = drop i (contents q @ xs)"
    using assms(2) by (simp add: pop_many c del: drop_append)
  also have "\<dots> = (contents q @ xs) ! i # drop (Suc i) (contents q @ xs)"
    by (rule Cons_nth_drop_Suc [OF assms(2), symmetric])
  finally show ?thesis by (rule front_contents)
qed

end

text \<open>The ring of a price level is such a queue, of capacity 127 (one slot stays empty).\<close>

definition ring_front :: "price_level \<Rightarrow> addr" where
  "ring_front pl = the (pl_buffer pl (pl_head pl))"

interpretation ring: bounded_fifo push_slot clear_head ring_front entries 127
proof
  show "entries (push_slot x q) = entries q @ [x]" if "length (entries q) < 127" for x q
    using that by (simp add: entries_push_slot)
  show "entries (clear_head q) = xs" "ring_front q = x" if "entries q = x # xs" for x xs q
  proof -
    have "pl_head q \<noteq> pl_tail q" using that by (metis entries_empty list.distinct(1))
    then show "entries (clear_head q) = xs" "ring_front q = x"
      using entries_clear_head [of q] that by (simp_all add: ring_front_def)
  qed
qed

lemma fold_level_add_order:
  assumes "length (entries pl) + length as \<le> 127" "\<forall>a \<in> set as. o_remaining (st a) \<noteq> 0"
  shows "entries (fold (\<lambda>a. level_add_order st (Some a)) as pl) = entries (fold push_slot as pl)"
proof -
  have "entries (fold (\<lambda>a. level_add_order st (Some a)) as pl) = entries pl @ as"
    using assms
    by (induction as arbitrary: pl) (auto simp: level_add_order_entries)
  then show ?thesis using ring.push_all assms(1) by simp
qed

text \<open>
  The ring buffer of a price level is first in, first out.  Up to 127 orders added to a
  new level stand in it in the order of their arrival, the first one at the head, and
  clearing the head \<open>i\<close> times brings the \<open>i\<close>-th order of the arrival sequence to the head.
\<close>

theorem price_level_is_fifo:
  assumes "length as \<le> 127" "\<forall>a \<in> set as. o_remaining (st a) \<noteq> 0" "i < length as"
  shows "entries (fold (\<lambda>a. level_add_order st (Some a)) as (new_level p)) = as \<and>
    ring_front ((clear_head ^^ i) (fold push_slot as (new_level p))) = as ! i"
  using fold_level_add_order [of "new_level p" as st] ring.push_all [of "new_level p" as]
    ring.fifo_order [of "new_level p" as i] assms by simp

theorem price_level_is_fifo_witness:
  "ring_front ((clear_head ^^ 2) (fold push_slot [7, 5, 9] (new_level 100))) = 9"
  using price_level_is_fifo [of "[7, 5, 9]" "\<lambda>_. default_order\<lparr>o_remaining := 1\<rparr>" 2 100] by simp

subsection \<open>The queues of the lock-free library\<close>

record ('q, 'e) queue_ops =
  q_push :: "'e \<Rightarrow> 'q \<Rightarrow> bool \<times> 'q"
  q_pop :: "'q \<Rightarrow> 'e option \<times> 'q"
  q_size :: "'q \<Rightarrow> nat"

text \<open>
  The documented behaviour: a push succeeds unless the queue is full and appends, a pop
  takes the oldest element, and \<open>size\<close> counts.
\<close>

definition spsc_queue :: "('q, 'e) queue_ops \<Rightarrow> ('q \<Rightarrow> 'e list) \<Rightarrow> nat \<Rightarrow> bool" where
  "spsc_queue Q contents cap \<longleftrightarrow>
     (\<forall>x q. fst (q_push Q x q) = (length (contents q) < cap) \<and>
        contents (snd (q_push Q x q)) = (if length (contents q) < cap then contents q @ [x] else contents q)) \<and>
     (\<forall>q. fst (q_pop Q q) = (case contents q of [] \<Rightarrow> None | x # _ \<Rightarrow> Some x) \<and>
        contents (snd (q_pop Q q)) = tl (contents q)) \<and>
     (\<forall>q. q_size Q q = length (contents q))"

lemma spsc_queueD:
  assumes "spsc_queue Q contents cap"
  shows "fst (q_push Q x q) \<longleftrightarrow> length (contents q) < cap"
    "contents (snd (q_push Q x q)) = (if length (contents q) < cap then contents q @ [x] else contents q)"
    "fst (q_pop Q q) = (case contents q of [] \<Rightarrow> None | x # _ \<Rightarrow> Some x)"
    "contents (snd (q_pop Q q)) = tl (contents q)" "q_size Q q = length (contents q)"
  using assms by (auto simp: spsc_queue_def)

lemma spsc_bounded_fifo:
  assumes "spsc_queue Q contents cap"
  shows "bounded_fifo (\<lambda>x q. snd (q_push Q x q)) (\<lambda>q. snd (q_pop Q q)) (\<lambda>q. the (fst (q_pop Q q)))
    contents cap"
  using spsc_queueD [OF assms] by unfold_locales simp_all

text \<open>A reference queue on lists, to run the models on.\<close>

definition list_queue :: "nat \<Rightarrow> ('e list, 'e) queue_ops" where
  "list_queue cap = \<lparr>q_push = (\<lambda>x q. if length q < cap then (True, q @ [x]) else (False, q)),
     q_pop = (\<lambda>q. case q of [] \<Rightarrow> (None, []) | x # xs \<Rightarrow> (Some x, xs)), q_size = length\<rparr>"

lemma list_queue_ok: "spsc_queue (list_queue cap) (\<lambda>q. q) cap"
  by (auto simp: spsc_queue_def list_queue_def split: list.split)

subsection \<open>The object pools of the lock-free library\<close>

text \<open>
  \<open>acquire\<close> yields a handle to an object, or an empty one; \<open>p_drop\<close> is what the destructor
  of a handle does to the pool.
\<close>

record 'p pool_ops =
  p_acquire :: "'p \<Rightarrow> addr option \<times> 'p"
  p_drop :: "addr \<Rightarrow> 'p \<Rightarrow> 'p"

text \<open>
  The documented behaviour: a handle owns an object that was free, and its destructor
  returns the object to the pool.
\<close>

definition object_pool :: "'p pool_ops \<Rightarrow> ('p \<Rightarrow> addr set) \<Rightarrow> bool" where
  "object_pool P free \<longleftrightarrow>
     (\<forall>p. case p_acquire P p of
            (None, p') \<Rightarrow> free p = {} \<and> free p' = {}
          | (Some a, p') \<Rightarrow> a \<in> free p \<and> free p' = free p - {a}) \<and>
     (\<forall>a p. free (p_drop P a p) = insert a (free p))"

lemma object_poolD:
  assumes "object_pool P free"
  shows "p_acquire P p = (Some a, p') \<Longrightarrow> a \<in> free p"
    "p_acquire P p = (Some a, p') \<Longrightarrow> free p' = free p - {a}"
    "p_acquire P p = (None, p') \<Longrightarrow> free p = {}"
    "free (p_drop P a p) = insert a (free p)"
proof -
  have a: "case p_acquire P p of (None, p') \<Rightarrow> free p = {} \<and> free p' = {}
      | (Some a, p') \<Rightarrow> a \<in> free p \<and> free p' = free p - {a}"
    by (rule spec [OF conjunct1 [OF assms [unfolded object_pool_def]]])
  { assume "p_acquire P p = (Some a, p')"
    with a have "a \<in> free p \<and> free p' = free p - {a}" by (simp only: prod.case option.case) }
  note some = this
  show "p_acquire P p = (Some a, p') \<Longrightarrow> a \<in> free p"
    "p_acquire P p = (Some a, p') \<Longrightarrow> free p' = free p - {a}"
    by (drule some, blast)+
  { assume "p_acquire P p = (None, p')"
    with a have "free p = {} \<and> free p' = {}" by (simp only: prod.case option.case) }
  then show "p_acquire P p = (None, p') \<Longrightarrow> free p = {}" by blast
  show "free (p_drop P a p) = insert a (free p)"
    by (rule spec [OF spec [OF conjunct2 [OF assms [unfolded object_pool_def]]]])
qed

definition stack_pool :: "addr list pool_ops" where
  "stack_pool = \<lparr>p_acquire = (\<lambda>p. case p of [] \<Rightarrow> (None, []) | a # as \<Rightarrow> (Some a, removeAll a as)),
     p_drop = (\<lambda>a p. a # p)\<rparr>"

lemma stack_pool_acquire:
  "p_acquire stack_pool [] = (None, [])" "p_acquire stack_pool (a # as) = (Some a, removeAll a as)"
  "p_drop stack_pool a as = a # as"
  by (simp_all add: stack_pool_def)

lemma stack_pool_ok: "object_pool stack_pool set"
  by (auto simp: object_pool_def stack_pool_def split: list.split)

end
