(* ===== verification/Execution_Gateway.thy ===== *)
theory Execution_Gateway
  imports Lockfree
begin

text \<open>
  The execution gateway (\<open>include/velox/gateway/execution_gateway.hpp\<close>,
  \<open>src/gateway/execution_gateway.cpp\<close>): it copies reports into pooled objects and hands
  their addresses to the queues of its workers.  The queue and pool operations are the
  parameters \<open>Q\<close> and \<open>P\<close>; the pooled objects are the store \<open>gw_objects\<close>.
\<close>

record exec_report =
  er_order_id :: u64
  er_client_order_id :: u64
  er_symbol :: string
  er_side :: order_side
  er_status :: order_status
  er_executed_quantity :: u32
  er_executed_price :: i64
  er_timestamp :: u64
  er_reject_reason :: "string option"

definition default_report :: exec_report where
  "default_report = \<lparr>er_order_id = 0, er_client_order_id = 0, er_symbol = zero_symbol,
     er_side = BUY, er_status = NEW, er_executed_quantity = 0, er_executed_price = 0,
     er_timestamp = 0, er_reject_reason = None\<rparr>"

record ('p, 'q) gateway =
  gw_queues :: "'q list"
  gw_pool :: 'p
  gw_owns_pool :: bool
  gw_objects :: "addr \<Rightarrow> exec_report"
  gw_total_reports :: u64
  gw_total_orders :: u64
  gw_next_worker :: int

text \<open>The constructors: with a pool of its own, and with a pool given from outside.\<close>

definition new_gateway :: "'p \<Rightarrow> bool \<Rightarrow> (addr \<Rightarrow> exec_report) \<Rightarrow> ('p, 'q) gateway" where
  "new_gateway pool owns objects = \<lparr>gw_queues = [], gw_pool = pool, gw_owns_pool = owns,
     gw_objects = objects, gw_total_reports = 0, gw_total_orders = 0, gw_next_worker = 0\<rparr>"

text \<open>The destructor deletes the pool only if the gateway owns it.\<close>

definition destroy_gateway :: "('p, 'q) gateway \<Rightarrow> 'p option" where
  "destroy_gateway g = (if gw_owns_pool g then None else Some (gw_pool g))"

definition add_worker :: "'q \<Rightarrow> ('p, 'q) gateway \<Rightarrow> ('p, 'q) gateway" where
  "add_worker q g = g\<lparr>gw_queues := gw_queues g @ [q]\<rparr>"

text \<open>\<open>int\<close> arithmetic, and \<open>fetch_add(1) % size()\<close>, which is computed on \<open>size_t\<close>.\<close>

definition s32 :: "int \<Rightarrow> int" where
  "s32 x = signed_take_bit 31 x"

definition round_robin :: "int \<Rightarrow> nat \<Rightarrow> int" where
  "round_robin counter workers = uint ((word_of_int counter :: u64) mod of_nat workers)"

text \<open>The copy of a report into a pooled object, field by field.\<close>

definition copy_report :: "exec_report \<Rightarrow> exec_report \<Rightarrow> exec_report" where
  "copy_report report out = out\<lparr>er_order_id := er_order_id report,
     er_client_order_id := er_client_order_id report, er_side := er_side report,
     er_status := er_status report, er_executed_quantity := er_executed_quantity report,
     er_executed_price := er_executed_price report, er_timestamp := er_timestamp report,
     er_reject_reason := er_reject_reason report,
     er_symbol := (strncpy (er_symbol out) (er_symbol report) 7)[7 := NUL]\<rparr>"

definition send_report ::
  "'p pool_ops \<Rightarrow> ('q, addr) queue_ops \<Rightarrow> exec_report \<Rightarrow> int \<Rightarrow> ('p, 'q) gateway
    \<Rightarrow> (bool \<times> ('p, 'q) gateway) res" where
  "send_report P Q report worker_id g =
     (if gw_queues g = [] then Inr (False, g)
      else
        let (w, g1) = (if worker_id < 0
                       then (round_robin (gw_next_worker g) (length (gw_queues g)),
                             g\<lparr>gw_next_worker := s32 (gw_next_worker g + 1)\<rparr>)
                       else (worker_id, g))
        in if w \<ge> int (length (gw_queues g1)) then Inr (False, g1)
           else
             (case p_acquire P (gw_pool g1) of
                (None, _) \<Rightarrow> Inl Null_Pointer
              | (Some out, pool) \<Rightarrow>
                  let g2 = g1\<lparr>gw_pool := pool, gw_objects := upd out (copy_report report) (gw_objects g1)\<rparr>;
                      (success, q) = q_push Q out (gw_queues g2 ! nat w);
                      g3 = g2\<lparr>gw_queues := (gw_queues g2)[nat w := q]\<rparr>;
                      g4 = (if success then g3\<lparr>gw_total_reports := gw_total_reports g3 + 1\<rparr> else g3);
                      g5 = g4\<lparr>gw_pool := p_drop P out (gw_pool g4)\<rparr>
                  in Inr (success, g5)))"

definition order_report :: "order \<Rightarrow> exec_report" where
  "order_report x = default_report\<lparr>er_order_id := o_order_id x,
     er_client_order_id := o_client_order_id x, er_side := o_side x,
     er_executed_quantity := o_filled x, er_executed_price := o_price x,
     er_status := o_status x, er_timestamp := o_matched_ts x,
     er_symbol := strncpy zero_symbol (o_symbol x) 7\<rparr>"

definition send_order ::
  "'p pool_ops \<Rightarrow> ('q, addr) queue_ops \<Rightarrow> order option \<Rightarrow> int \<Rightarrow> ('p, 'q) gateway
    \<Rightarrow> (bool \<times> ('p, 'q) gateway) res" where
  "send_order P Q p worker_id g =
     (case p of None \<Rightarrow> Inr (False, g)
      | Some x \<Rightarrow>
          send_report P Q (order_report x) worker_id (g\<lparr>gw_total_orders := gw_total_orders g + 1\<rparr>))"

definition gateway_cancel_order :: "u64 \<Rightarrow> ('p, 'q) gateway \<Rightarrow> bool \<times> ('p, 'q) gateway" where
  "gateway_cancel_order order_id g = (True, g)"

definition receive_report ::
  "('q, addr) queue_ops \<Rightarrow> int \<Rightarrow> ('p, 'q) gateway \<Rightarrow> addr option \<times> ('p, 'q) gateway" where
  "receive_report Q worker_id g =
     (if worker_id < 0 \<or> worker_id \<ge> int (length (gw_queues g)) then (None, g)
      else
        (case q_pop Q (gw_queues g ! nat worker_id) of
           (r, q) \<Rightarrow> (r, g\<lparr>gw_queues := (gw_queues g)[nat worker_id := q]\<rparr>)))"

subsection \<open>Selection of a worker\<close>

lemma round_robin_bound: "0 < workers \<Longrightarrow> workers < 2 ^ 63 \<Longrightarrow> 0 \<le> round_robin c workers \<and> round_robin c workers < int workers"
proof -
  assume w: "0 < workers" "workers < 2 ^ 63"
  then have u: "uint (of_nat workers :: u64) = int workers"
    by (simp add: unsigned_of_nat take_bit_nat_eq_self)
  have "uint ((word_of_int c :: u64) mod of_nat workers) < int workers"
    using w by (simp add: uint_mod u)
  then show ?thesis by (simp add: round_robin_def)
qed

lemma round_robin_exact:
  "0 \<le> c \<Longrightarrow> c < 2 ^ 31 \<Longrightarrow> workers < 2 ^ 63 \<Longrightarrow> round_robin c workers = c mod int workers"
  by (simp add: round_robin_def uint_mod unsigned_of_nat unsigned_of_int take_bit_nat_eq_self
      take_bit_int_eq_self)

lemma s32_id: "- (2 ^ 31) \<le> x \<Longrightarrow> x < 2 ^ 31 \<Longrightarrow> s32 x = x"
  by (simp add: s32_def signed_take_bit_int_eq_self)

definition chosen_worker :: "int \<Rightarrow> ('p, 'q) gateway \<Rightarrow> int" where
  "chosen_worker worker_id g =
     (if worker_id < 0 then round_robin (gw_next_worker g) (length (gw_queues g)) else worker_id)"

definition next_counter :: "int \<Rightarrow> ('p, 'q) gateway \<Rightarrow> int" where
  "next_counter worker_id g =
     (if worker_id < 0 then s32 (gw_next_worker g + 1) else gw_next_worker g)"

subsection \<open>Sending, case by case\<close>

lemma send_report_no_workers: "gw_queues g = [] \<Longrightarrow> send_report P Q r w g = Inr (False, g)"
  by (simp add: send_report_def)

lemma send_report_bad_worker:
  assumes "gw_queues g \<noteq> []" "int (length (gw_queues g)) \<le> w"
  shows "send_report P Q r w g = Inr (False, g)"
  using assms by (simp add: send_report_def Let_def)

lemma send_report_exhausted:
  assumes "gw_queues g \<noteq> []" "chosen_worker w g < int (length (gw_queues g))"
    and "p_acquire P (gw_pool g) = (None, p')"
  shows "send_report P Q r w g = Inl Null_Pointer"
  using assms by (auto simp: send_report_def Let_def chosen_worker_def)

lemma send_report_sent:
  assumes "gw_queues g \<noteq> []" "chosen_worker w g < int (length (gw_queues g))"
    and "p_acquire P (gw_pool g) = (Some out, pool)"
    and "q_push Q out (gw_queues g ! nat (chosen_worker w g)) = (success, q)"
  shows "send_report P Q r w g = Inr (success,
    g\<lparr>gw_queues := (gw_queues g)[nat (chosen_worker w g) := q], gw_pool := p_drop P out pool,
      gw_objects := upd out (copy_report r) (gw_objects g),
      gw_total_reports := gw_total_reports g + (if success then 1 else 0),
      gw_next_worker := next_counter w g\<rparr>)"
  using assms
  by (cases "w < 0") (simp_all add: send_report_def Let_def chosen_worker_def next_counter_def)

lemma receive_sent:
  assumes "spsc_queue Q contents cap" "0 \<le> w" "w < int (length (gw_queues g))"
    and "contents (gw_queues g ! nat w) = a # as"
  obtains g' where "receive_report Q w g = (Some a, g')" "contents (gw_queues g' ! nat w) = as"
    "gw_objects g' = gw_objects g" "gw_pool g' = gw_pool g" "length (gw_queues g') = length (gw_queues g)"
proof -
  obtain r q where q: "q_pop Q (gw_queues g ! nat w) = (r, q)" by fastforce
  have "r = Some a" "contents q = as"
    using spsc_queueD(3,4) [OF assms(1), of "gw_queues g ! nat w"] q assms(4) by simp_all
  then show thesis
    using that [of "g\<lparr>gw_queues := (gw_queues g)[nat w := q]\<rparr>"] assms(2,3) q
    by (auto simp: receive_report_def)
qed

text \<open>A gateway that can send: it has no workers, or an object of its pool is free.\<close>

definition gateway_ready :: "('p \<Rightarrow> addr set) \<Rightarrow> ('p, 'q) gateway \<Rightarrow> bool" where
  "gateway_ready free g \<longleftrightarrow> length (gw_queues g) < 2 ^ 63 \<and>
     (gw_queues g = [] \<or> free (gw_pool g) \<noteq> {})"

lemma send_report_ready:
  assumes P: "object_pool P free" and g: "gateway_ready free g"
  obtains ok g' where "send_report P Q r (- 1) g = Inr (ok, g')" "gateway_ready free g'"
    "length (gw_queues g') = length (gw_queues g)"
    "gw_queues g \<noteq> [] \<Longrightarrow> \<exists>out. gw_objects g' = upd out (copy_report r) (gw_objects g)"
proof (cases "gw_queues g = []")
  case True
  then show thesis using that send_report_no_workers [OF True] g by blast
next
  case False
  then have c: "chosen_worker (- 1) g < int (length (gw_queues g))"
    using g round_robin_bound [of "length (gw_queues g)" "gw_next_worker g"]
    by (simp add: chosen_worker_def gateway_ready_def)
  obtain out p' where a: "p_acquire P (gw_pool g) = (Some out, p')"
    using object_poolD(3) [OF P] g False unfolding gateway_ready_def by (metis not_None_eq surj_pair)
  obtain ok q where q: "q_push Q out (gw_queues g ! nat (chosen_worker (- 1) g)) = (ok, q)" by fastforce
  show thesis
    by (rule that [OF send_report_sent [OF False c a q]])
      (use g object_poolD(4) [OF P] in \<open>auto simp: gateway_ready_def\<close>)
qed

subsection \<open>Properties\<close>

text \<open>The reports of a worker that wait in its queue.\<close>

definition pending :: "('q \<Rightarrow> addr list) \<Rightarrow> ('p, 'q) gateway \<Rightarrow> nat \<Rightarrow> addr list" where
  "pending contents g w = contents (gw_queues g ! w)"

text \<open>
  A report sent to the next worker is copied into an object of the pool and appended to
  the queue of worker \<open>counter mod workers\<close>, the counters advance by one, and no other queue
  changes.  But the handle dies at the end of the call: the object whose address was queued
  is free again in the pool, and the pool is never used up.
\<close>

theorem send_report_delivers:
  assumes Q: "spsc_queue Q contents cap" and P: "object_pool P free"
    and workers: "0 < length (gw_queues g)" "length (gw_queues g) < 2 ^ 63"
    and counter: "0 \<le> gw_next_worker g" "gw_next_worker g < 2 ^ 31 - 1"
    and pool: "free (gw_pool g) \<noteq> {}"
    and room: "length (pending contents g (nat (gw_next_worker g mod int (length (gw_queues g))))) < cap"
  shows "let w = nat (gw_next_worker g mod int (length (gw_queues g)))
         in \<exists>a g'. send_report P Q r (- 1) g = Inr (True, g') \<and>
              pending contents g' w = pending contents g w @ [a] \<and>
              (\<forall>v. v \<noteq> w \<longrightarrow> pending contents g' v = pending contents g v) \<and>
              gw_objects g' = upd a (copy_report r) (gw_objects g) \<and>
              gw_next_worker g' = gw_next_worker g + 1 \<and>
              gw_total_reports g' = gw_total_reports g + 1 \<and>
              a \<in> free (gw_pool g') \<and> free (gw_pool g') = free (gw_pool g)"
proof -
  let ?n = "length (gw_queues g)"
  let ?w = "nat (gw_next_worker g mod int ?n)"
  have c: "chosen_worker (- 1) g = gw_next_worker g mod int ?n"
    using counter workers(2) by (simp add: chosen_worker_def round_robin_exact)
  have w: "?w < ?n" "0 \<le> gw_next_worker g mod int ?n" "gw_next_worker g mod int ?n < int ?n"
    using workers(1) by (simp_all add: nat_less_iff)
  obtain out p' where a: "p_acquire P (gw_pool g) = (Some out, p')"
    using object_poolD(3) [OF P] pool by (metis not_None_eq surj_pair)
  obtain ok q where q: "q_push Q out (gw_queues g ! ?w) = (ok, q)" by fastforce
  have ok: "ok" "contents q = pending contents g ?w @ [out]"
    using spsc_queueD(1,2) [OF Q, of out "gw_queues g ! ?w"] q room by (simp_all add: pending_def)
  have s: "next_counter (- 1) g = gw_next_worker g + 1"
    using counter by (simp add: next_counter_def s32_id)
  have f: "free (p_drop P out p') = free (gw_pool g)" "out \<in> free (p_drop P out p')"
    using object_poolD(1,2) [OF P a] object_poolD(4) [OF P, of out p'] by auto
  let ?g = "g\<lparr>gw_queues := (gw_queues g)[?w := q], gw_pool := p_drop P out p',
      gw_objects := upd out (copy_report r) (gw_objects g),
      gw_total_reports := gw_total_reports g + 1, gw_next_worker := gw_next_worker g + 1\<rparr>"
  have sent: "send_report P Q r (- 1) g = Inr (True, ?g)"
  proof -
    have "gw_queues g \<noteq> []" "chosen_worker (- 1) g < int ?n" using workers(1) w(3) c by auto
    then show ?thesis
      using send_report_sent [where P = P and Q = Q and g = g and w = "- 1" and r = r, OF _ _ a] q ok(1)
      by (simp add: c s)
  qed
  have "pending contents ?g ?w = pending contents g ?w @ [out]"
    using w(1) ok(2) by (simp add: pending_def)
  moreover have "pending contents ?g v = pending contents g v" if "v \<noteq> ?w" for v
    using that by (simp add: pending_def)
  ultimately show ?thesis
    unfolding Let_def using sent f by (intro exI [of _ out] exI [of _ ?g]) simp
qed

definition demo_gateway :: "(addr list, addr list) gateway" where
  "demo_gateway = add_worker [] (add_worker [] (new_gateway [7, 8] True (\<lambda>_. default_report)))"

theorem send_report_delivers_witness:
  "\<exists>a g'. send_report stack_pool (list_queue 4) default_report (- 1) demo_gateway = Inr (True, g') \<and>
     pending (\<lambda>q. q) g' 0 = [a] \<and> a \<in> set (gw_pool g')"
  using send_report_delivers [OF list_queue_ok stack_pool_ok, of demo_gateway 4 default_report]
  by (auto simp: demo_gateway_def add_worker_def new_gateway_def pending_def)

text \<open>The pool reuses an object as soon as its handle has died.\<close>

definition reuses :: "'p pool_ops \<Rightarrow> bool" where
  "reuses P \<longleftrightarrow> (\<forall>p a p'. p_acquire P p = (Some a, p') \<longrightarrow> fst (p_acquire P (p_drop P a p')) = Some a)"

text \<open>
  C40: reports overwrite each other.  With a pool that reuses a released object, as the one of
  the library does, two reports sent to the same worker are queued as the same address, and
  the worker reads the second report twice; the first one is lost.
\<close>

theorem queued_reports_overwrite:
  assumes Q: "spsc_queue Q contents cap" and R: "reuses P"
    and w: "0 \<le> w" "w < int (length (gw_queues g))"
    and sent: "send_report P Q r1 w g = Inr (True, g1)" "send_report P Q r2 w g1 = Inr (True, g2)"
    and empty: "pending contents g (nat w) = []"
  shows "\<exists>a g3 g4. receive_report Q w g2 = (Some a, g3) \<and> receive_report Q w g3 = (Some a, g4) \<and>
    er_order_id (gw_objects g3 a) = er_order_id r2 \<and> er_order_id (gw_objects g4 a) = er_order_id r2"
proof -
  have n: "gw_queues g \<noteq> []" using w by auto
  have cw: "chosen_worker w g = w" "chosen_worker w g1 = w" using w(1) by (simp_all add: chosen_worker_def)
  obtain out p' where a: "p_acquire P (gw_pool g) = (Some out, p')"
    using send_report_exhausted [OF n, of w P _ Q r1] sent(1) w(2)
    by (cases "p_acquire P (gw_pool g)"; cases "fst (p_acquire P (gw_pool g))") (auto simp: cw)
  obtain ok q where q: "q_push Q out (gw_queues g ! nat w) = (ok, q)" by fastforce
  note s1 = send_report_sent [where P = P and Q = Q and g = g and w = w and r = r1,
      unfolded cw, OF n w(2) a q]
  have ok: "ok" and g1: "g1 = g\<lparr>gw_queues := (gw_queues g)[nat w := q], gw_pool := p_drop P out p',
      gw_objects := upd out (copy_report r1) (gw_objects g),
      gw_total_reports := gw_total_reports g + (if ok then 1 else 0), gw_next_worker := next_counter w g\<rparr>"
    using s1 sent(1) by auto
  have c1: "contents q = [out]"
    using spsc_queueD(1,2) [OF Q, of out "gw_queues g ! nat w"] q ok empty by (auto simp: pending_def)
  obtain p'' where a2: "p_acquire P (gw_pool g1) = (Some out, p'')"
    using R a by (simp add: reuses_def g1) (metis prod.collapse)
  obtain ok2 q2 where q2: "q_push Q out (gw_queues g1 ! nat w) = (ok2, q2)" by fastforce
  have n1: "gw_queues g1 \<noteq> []" "w < int (length (gw_queues g1))" using n w(2) by (simp_all add: g1)
  note s2 = send_report_sent [where P = P and Q = Q and g = g1 and w = w and r = r2,
      unfolded cw, OF n1 a2 q2]
  have nw: "nat w < length (gw_queues g)" using w by (simp add: nat_less_iff)
  have g2: "gw_queues g2 = (gw_queues g1)[nat w := q2]"
      "gw_objects g2 = upd out (copy_report r2) (gw_objects g1)" and ok2: "ok2"
    using s2 sent(2) by auto
  have "contents (gw_queues g2 ! nat w) = [out, out]"
    using spsc_queueD(1,2) [OF Q, of out "gw_queues g1 ! nat w"] q2 ok2 c1 nw by (auto simp: g1 g2(1))
  moreover have w2: "w < int (length (gw_queues g2))" using n1(2) by (simp add: g2(1))
  ultimately obtain g3 where g3: "receive_report Q w g2 = (Some out, g3)"
    "contents (gw_queues g3 ! nat w) = [out]" "gw_objects g3 = gw_objects g2"
    "length (gw_queues g3) = length (gw_queues g2)"
    using receive_sent [OF Q w(1)] by metis
  then obtain g4 where "receive_report Q w g3 = (Some out, g4)" "gw_objects g4 = gw_objects g3"
    using receive_sent [OF Q w(1), of g3] w2 by metis
  then show ?thesis
    using g3 by (auto simp: g2(2) copy_report_def)
qed

theorem queued_reports_overwrite_witness:
  "\<exists>g1 g2 a g3 g4. send_report stack_pool (list_queue 4) (default_report\<lparr>er_order_id := 1\<rparr>) 0 demo_gateway = Inr (True, g1) \<and>
     send_report stack_pool (list_queue 4) (default_report\<lparr>er_order_id := 2\<rparr>) 0 g1 = Inr (True, g2) \<and>
     receive_report (list_queue 4) 0 g2 = (Some a, g3) \<and> receive_report (list_queue 4) 0 g3 = (Some a, g4) \<and>
     er_order_id (gw_objects g3 a) = 2"
proof -
  have r: "reuses stack_pool" by (auto simp: reuses_def stack_pool_def split: list.splits)
  have "\<exists>g1. send_report stack_pool (list_queue 4) (default_report\<lparr>er_order_id := 1\<rparr>) 0 demo_gateway = Inr (True, g1) \<and>
      (\<exists>g2. send_report stack_pool (list_queue 4) (default_report\<lparr>er_order_id := 2\<rparr>) 0 g1 = Inr (True, g2))"
    by (simp add: send_report_def demo_gateway_def add_worker_def new_gateway_def list_queue_def
        stack_pool_def Let_def)
  then obtain g1 g2 where s: "send_report stack_pool (list_queue 4) (default_report\<lparr>er_order_id := 1\<rparr>) 0 demo_gateway = Inr (True, g1)"
    "send_report stack_pool (list_queue 4) (default_report\<lparr>er_order_id := 2\<rparr>) 0 g1 = Inr (True, g2)" by blast
  have "pending (\<lambda>q. q) demo_gateway (nat 0) = []" "(0 :: int) < int (length (gw_queues demo_gateway))"
    by (simp_all add: pending_def demo_gateway_def add_worker_def new_gateway_def)
  then obtain a g3 g4 where "receive_report (list_queue 4) 0 g2 = (Some a, g3)"
      "receive_report (list_queue 4) 0 g3 = (Some a, g4)" "er_order_id (gw_objects g3 a) = 2"
    using queued_reports_overwrite [OF list_queue_ok r _ _ s] by auto
  with s show ?thesis by blast
qed

end
