(* ===== verification/Matching_Engine.thy ===== *)
theory Matching_Engine
  imports Order_Book_Props Risk_Manager Position_Manager Execution_Gateway
begin

text \<open>
  The matching engine (\<open>include/velox/matching/matching_engine.hpp\<close>,
  \<open>src/matching/matching_engine.cpp\<close>).  The risk manager, the gateway and the position
  manager are shared with other engines and reached through pointers that may be null, so
  they live, with the store of orders, in the record \<open>trading\<close> that the operations pass on.
\<close>

record ('p, 'q) trading =
  tr_store :: store
  tr_risk :: "risk_manager option"
  tr_gateway :: "('p, 'q) gateway option"
  tr_positions :: "positions option"

record 'o engine =
  me_book :: order_book
  me_queue :: 'o
  me_match_count :: u64
  me_reject_count :: u64
  me_partial_count :: u64
  me_total_latency :: u64

record engine_stats =
  es_orders_matched :: u64
  es_orders_rejected :: u64
  es_orders_partially_filled :: u64
  es_avg_match_latency_ns :: u64

definition new_engine :: "string \<Rightarrow> 'o \<Rightarrow> 'o engine" where
  "new_engine symbol queue = \<lparr>me_book = new_book symbol, me_queue = queue, me_match_count = 0,
     me_reject_count = 0, me_partial_count = 0, me_total_latency = 0\<rparr>"

definition get_stats :: "'o engine \<Rightarrow> engine_stats" where
  "get_stats e = \<lparr>es_orders_matched = me_match_count e, es_orders_rejected = me_reject_count e,
     es_orders_partially_filled = me_partial_count e, es_avg_match_latency_ns = 0\<rparr>"

definition submit_order ::
  "('o, addr) queue_ops \<Rightarrow> addr option \<Rightarrow> 'o engine \<Rightarrow> bool \<times> 'o engine" where
  "submit_order OQ p e =
     (case p of None \<Rightarrow> (False, e)
      | Some a \<Rightarrow> (case q_push OQ a (me_queue e) of (ok, q) \<Rightarrow> (ok, e\<lparr>me_queue := q\<rparr>)))"

definition engine_cancel ::
  "u64 \<Rightarrow> ('p, 'q) trading \<Rightarrow> 'o engine \<Rightarrow> (bool \<times> ('p, 'q) trading \<times> 'o engine) res" where
  "engine_cancel order_id w e =
     res_bind (cancel_order order_id (tr_store w) (me_book e)) (\<lambda>(ok, st, b).
       Inr (ok, w\<lparr>tr_store := st\<rparr>, e\<lparr>me_book := b\<rparr>))"

definition check_risk :: "('p, 'q) trading \<Rightarrow> addr \<Rightarrow> bool" where
  "check_risk w a =
     (case tr_risk w of None \<Rightarrow> True | Some rm \<Rightarrow> check_order rm (Some (tr_store w a)))"

definition rejection_report :: "order \<Rightarrow> exec_report" where
  "rejection_report x = default_report\<lparr>er_order_id := o_order_id x,
     er_client_order_id := o_client_order_id x,
     er_symbol := strncpy zero_symbol (o_symbol x) 7, er_status := REJECTED,
     er_reject_reason := Some ''Risk limit exceeded''\<rparr>"

definition reject_order ::
  "'p pool_ops \<Rightarrow> ('q, addr) queue_ops \<Rightarrow> addr \<Rightarrow> ('p, 'q) trading \<Rightarrow> 'o engine
    \<Rightarrow> (('p, 'q) trading \<times> 'o engine) res" where
  "reject_order P Q a w e =
     (let st = upd a (\<lambda>x. x\<lparr>o_status := REJECTED\<rparr>) (tr_store w);
          e1 = e\<lparr>me_reject_count := me_reject_count e + 1\<rparr>
      in case tr_gateway w of
           None \<Rightarrow> Inl Null_Pointer
         | Some g \<Rightarrow>
             res_bind (send_report P Q (rejection_report (st a)) (- 1) g) (\<lambda>(_, g1).
               Inr (w\<lparr>tr_store := st, tr_gateway := Some g1\<rparr>, e1)))"

text \<open>Market orders become limit orders at the extreme price.\<close>

definition convert_market :: "order \<Rightarrow> order" where
  "convert_market x =
     (if o_type x = MARKET
      then x\<lparr>o_price := (if is_buy x then int64_max else 0), o_type := LIMIT\<rparr> else x)"

text \<open>Every resting order that was filled moves its position, at its own price.\<close>

definition update_makers :: "store \<Rightarrow> fill_rec list \<Rightarrow> positions option \<Rightarrow> positions option" where
  "update_makers st fills pm =
     map_option (\<lambda>m. foldl (\<lambda>m f. update_position (Some (st (fill_order f))) (fill_quantity f)
                                 (o_price (st (fill_order f))) m) m fills) pm"

definition send_fill ::
  "'p pool_ops \<Rightarrow> ('q, addr) queue_ops \<Rightarrow> addr \<Rightarrow> u32 \<Rightarrow> i64 \<Rightarrow> ('p, 'q) trading \<Rightarrow> ('p, 'q) trading res" where
  "send_fill P Q a fill_qty fill_px w =
     res_bind (case tr_gateway w of
                 None \<Rightarrow> Inr w
               | Some g \<Rightarrow> res_bind (send_order P Q (Some (tr_store w a)) (- 1) g) (\<lambda>(_, g1).
                   Inr (w\<lparr>tr_gateway := Some g1\<rparr>)))
       (\<lambda>w1. Inr (w1\<lparr>tr_positions :=
          map_option (update_position (Some (tr_store w1 a)) fill_qty fill_px) (tr_positions w1)\<rparr>))"

definition final_status :: "order \<Rightarrow> order" where
  "final_status x = x\<lparr>o_status :=
     (if o_remaining x = 0 then FILLED else if o_filled x > 0 then PARTIAL else NEW)\<rparr>"

text \<open>Everything after the match: positions, reports, counters, the final status.\<close>

definition settle ::
  "'p pool_ops \<Rightarrow> ('q, addr) queue_ops \<Rightarrow> addr \<Rightarrow> fill_rec list \<Rightarrow> ('p, 'q) trading \<Rightarrow> 'o engine
    \<Rightarrow> (('p, 'q) trading \<times> 'o engine) res" where
  "settle P Q a fills w e =
     (let x = tr_store w a;
          w1 = w\<lparr>tr_positions := update_makers (tr_store w) fills (tr_positions w)\<rparr>
      in res_bind (if o_filled x > 0 then send_fill P Q a (o_filled x) (o_price x) w1 else Inr w1)
           (\<lambda>w2.
              let e1 = (if o_filled x > 0
                        then e\<lparr>me_match_count := me_match_count e +
                               (if fills = [] then 1 else of_nat (length fills))\<rparr> else e);
                  e2 = (if o_filled x > 0 \<and> o_remaining x > 0
                        then e1\<lparr>me_partial_count := me_partial_count e1 + 1\<rparr> else e1)
              in Inr (w2\<lparr>tr_store := upd a final_status (tr_store w2)\<rparr>, e2)))"

definition process_order ::
  "'p pool_ops \<Rightarrow> ('q, addr) queue_ops \<Rightarrow> addr \<Rightarrow> ('p, 'q) trading \<Rightarrow> 'o engine
    \<Rightarrow> (('p, 'q) trading \<times> 'o engine) res option" where
  "process_order P Q a w e =
     (if \<not> check_risk w a then Some (reject_order P Q a w e)
      else
        let st = upd a convert_market (tr_store w) in
        Option.bind (book_match (Some a) st (me_book e) [])
          (\<lambda>r. Some (res_bind r (\<lambda>(_, st1, b, fills).
             settle P Q a fills (w\<lparr>tr_store := st1\<rparr>) (e\<lparr>me_book := b\<rparr>)))))"

text \<open>The cycle runs until the queue is empty; whether it ends is a theorem.\<close>

partial_function (option) run_match_cycle ::
  "'p pool_ops \<Rightarrow> ('q, addr) queue_ops \<Rightarrow> ('o, addr) queue_ops \<Rightarrow> ('p, 'q) trading \<Rightarrow> 'o engine
    \<Rightarrow> (('p, 'q) trading \<times> 'o engine) res option" where
  "run_match_cycle P Q OQ w e =
     (case q_pop OQ (me_queue e) of
        (None, q) \<Rightarrow> Some (Inr (w, e\<lparr>me_queue := q\<rparr>))
      | (Some a, q) \<Rightarrow>
          Option.bind (process_order P Q a w (e\<lparr>me_queue := q\<rparr>))
            (\<lambda>r. case r of Inl err \<Rightarrow> Some (Inl err)
                  | Inr (w1, e1) \<Rightarrow> run_match_cycle P Q OQ w1 e1))"

subsection \<open>One symbol\<close>

text \<open>
  \<open>SymbolEngine\<close> (\<open>include/velox/core/symbol_engine.hpp\<close>) holds a book and a matching
  engine, which has a book of its own.
\<close>

record 'o symbol_engine =
  sy_book :: order_book
  sy_engine :: "'o engine"

definition new_symbol_engine :: "string \<Rightarrow> 'o \<Rightarrow> 'o symbol_engine" where
  "new_symbol_engine symbol queue = \<lparr>sy_book = new_book symbol, sy_engine = new_engine symbol queue\<rparr>"

definition on_market_order ::
  "('o, addr) queue_ops \<Rightarrow> addr option \<Rightarrow> 'o symbol_engine \<Rightarrow> bool \<times> 'o symbol_engine" where
  "on_market_order OQ p s =
     (case submit_order OQ p (sy_engine s) of (ok, e) \<Rightarrow> (ok, s\<lparr>sy_engine := e\<rparr>))"

definition sy_run_match_cycle ::
  "'p pool_ops \<Rightarrow> ('q, addr) queue_ops \<Rightarrow> ('o, addr) queue_ops \<Rightarrow> ('p, 'q) trading \<Rightarrow> 'o symbol_engine
    \<Rightarrow> (('p, 'q) trading \<times> 'o symbol_engine) res option" where
  "sy_run_match_cycle P Q OQ w s =
     map_option (\<lambda>r. res_bind r (\<lambda>(w1, e). Inr (w1, s\<lparr>sy_engine := e\<rparr>)))
       (run_match_cycle P Q OQ w (sy_engine s))"

definition sy_cancel_order ::
  "u64 \<Rightarrow> ('p, 'q) trading \<Rightarrow> 'o symbol_engine \<Rightarrow> (bool \<times> ('p, 'q) trading \<times> 'o symbol_engine) res" where
  "sy_cancel_order order_id w s =
     res_bind (engine_cancel order_id w (sy_engine s)) (\<lambda>(ok, w1, e). Inr (ok, w1, s\<lparr>sy_engine := e\<rparr>))"

definition sy_order_book :: "'o symbol_engine \<Rightarrow> order_book" where
  "sy_order_book s = sy_book s"

definition sy_symbol :: "'o symbol_engine \<Rightarrow> string" where
  "sy_symbol s = ob_symbol (sy_book s)"

definition sy_set_market_price :: "i64 \<Rightarrow> i64 \<Rightarrow> 'o symbol_engine \<Rightarrow> 'o symbol_engine" where
  "sy_set_market_price bid ask s = s\<lparr>sy_book := set_market_price bid ask (sy_book s)\<rparr>"

fun drain_cycles ::
  "nat \<Rightarrow> 'p pool_ops \<Rightarrow> ('q, addr) queue_ops \<Rightarrow> ('o, addr) queue_ops \<Rightarrow> ('p, 'q) trading \<Rightarrow> 'o symbol_engine
    \<Rightarrow> (('p, 'q) trading \<times> 'o symbol_engine) res option" where
  "drain_cycles 0 P Q OQ w s = Some (Inr (w, s))"
| "drain_cycles (Suc n) P Q OQ w s =
     Option.bind (sy_run_match_cycle P Q OQ w s)
       (\<lambda>r. case r of Inl err \<Rightarrow> Some (Inl err) | Inr (w1, s1) \<Rightarrow> drain_cycles n P Q OQ w1 s1)"

definition drain ::
  "'p pool_ops \<Rightarrow> ('q, addr) queue_ops \<Rightarrow> ('o, addr) queue_ops \<Rightarrow> ('p, 'q) trading \<Rightarrow> 'o symbol_engine
    \<Rightarrow> (('p, 'q) trading \<times> 'o symbol_engine) res option" where
  "drain P Q OQ w s = drain_cycles 100 P Q OQ w s"

end
