(* ===== verification/Matching_Engine_Props.thy ===== *)
theory Matching_Engine_Props
  imports Matching_Engine
begin

text \<open>
  What processing one order does to the engine's book, the positions, the reports and the
  counters, and what a match cycle and an interleaving of cycles and cancels do.
\<close>

subsection \<open>Readiness\<close>

definition trading_ready :: "('p \<Rightarrow> addr set) \<Rightarrow> ('p, 'q) trading \<Rightarrow> bool" where
  "trading_ready free w \<longleftrightarrow> (case tr_gateway w of None \<Rightarrow> True | Some g \<Rightarrow> gateway_ready free g)"

text \<open>
  An order that the engine may process: alive and not filled yet, unknown to the book, with
  room where it would rest; and a rejection needs a gateway.
\<close>

definition processable :: "('p, 'q) trading \<Rightarrow> 'o engine \<Rightarrow> addr \<Rightarrow> bool" where
  "processable w e a \<longleftrightarrow>
     (let x = convert_market (tr_store w a)
      in live x \<and> o_filled x = 0 \<and> fresh_order (tr_store w) (me_book e) a \<and>
         side_room (me_book e) (is_buy x) (o_price x) \<and>
         (check_risk w a \<or> tr_gateway w \<noteq> None))"

definition engine_inv :: "('p \<Rightarrow> addr set) \<Rightarrow> ('p, 'q) trading \<Rightarrow> 'o engine \<Rightarrow> bool" where
  "engine_inv free w e \<longleftrightarrow> book_inv (tr_store w) (me_book e) \<and> trading_ready free w"

lemma convert_market_simps [simp]:
  "is_buy (convert_market x) = is_buy x" "o_order_id (convert_market x) = o_order_id x"
  "o_remaining (convert_market x) = o_remaining x" "o_filled (convert_market x) = o_filled x"
  "is_active (convert_market x) = is_active x" "live (convert_market x) = live x"
  "o_symbol (convert_market x) = o_symbol x" "o_status (convert_market x) = o_status x"
  "o_side (convert_market x) = o_side x" "o_quantity (convert_market x) = o_quantity x"
  "o_client_order_id (convert_market x) = o_client_order_id x"
  by (simp_all add: convert_market_def is_buy_def is_active_def live_def)

lemma final_status_simps [simp]:
  "is_buy (final_status x) = is_buy x" "o_order_id (final_status x) = o_order_id x"
  "o_remaining (final_status x) = o_remaining x" "o_filled (final_status x) = o_filled x"
  "o_price (final_status x) = o_price x" "o_symbol (final_status x) = o_symbol x"
  "is_active (final_status x) \<longleftrightarrow> o_remaining x \<noteq> 0"
  by (simp_all add: final_status_def is_buy_def is_active_def)

lemma fresh_order_upd:
  "o_order_id (f (st a)) = o_order_id (st a) \<Longrightarrow> fresh_order (upd a f st) b a = fresh_order st b a"
  by (simp add: fresh_order_def)

text \<open>The fills of a match as the position manager sees them: the makers, then the taker.\<close>

definition match_positions :: "store \<Rightarrow> addr \<Rightarrow> (addr \<times> u32) list \<Rightarrow> (order \<times> u32 \<times> i64) list" where
  "match_positions st a ms = map (\<lambda>(b, q). (st b, q, o_price (st b))) ms @
     (if o_filled (st a) \<noteq> 0 then [(st a, o_filled (st a), o_price (st a))] else [])"

lemma update_makers_fills:
  "update_makers st (fills_of p ms) pm
    = map_option (apply_position_fills (map (\<lambda>(b, q). (st b, q, o_price (st b))) ms)) pm"
proof -
  have "foldl (\<lambda>m f. update_position (Some (st (fill_order f))) (fill_quantity f)
      (o_price (st (fill_order f))) m) m (fills_of p ms)
      = apply_position_fills (map (\<lambda>(b, q). (st b, q, o_price (st b))) ms) m" for m
    unfolding apply_position_fills_def fills_of_def
    by (induction ms arbitrary: m) auto
  then show ?thesis by (simp add: update_makers_def)
qed

subsection \<open>Settling\<close>

text \<open>
  Settling never faults when the gateway is ready.  The risk manager and all orders but the
  status of the incoming one stay as they are.
\<close>

definition settled_engine :: "store \<Rightarrow> addr \<Rightarrow> (addr \<times> u32) list \<Rightarrow> 'o engine \<Rightarrow> 'o engine" where
  "settled_engine st a ms e =
     (if o_filled (st a) = 0 then e
      else e\<lparr>me_match_count := me_match_count e + (if ms = [] then 1 else of_nat (length ms)),
             me_partial_count := me_partial_count e + (if o_remaining (st a) \<noteq> 0 then 1 else 0)\<rparr>)"

definition reported :: "order \<Rightarrow> ('p, 'q) trading \<Rightarrow> ('p, 'q) trading \<Rightarrow> bool" where
  "reported x w w' \<longleftrightarrow> (\<forall>g. o_filled x \<noteq> 0 \<and> tr_gateway w = Some g \<and> gw_queues g \<noteq> [] \<longrightarrow>
     (\<exists>g' out. tr_gateway w' = Some g' \<and>
        gw_objects g' = upd out (copy_report (order_report x)) (gw_objects g)))"

lemma send_fill_ready:
  assumes P: "object_pool P free" and w: "trading_ready free w"
  obtains w' where "send_fill P Q a q px w = Inr w'" "trading_ready free w'" "tr_store w' = tr_store w"
    "tr_risk w' = tr_risk w"
    "tr_positions w' = map_option (update_position (Some (tr_store w a)) q px) (tr_positions w)"
    "reported (tr_store w a) w w'"
proof (cases "tr_gateway w")
  case None
  then show thesis
    using w that [of "w\<lparr>tr_positions := map_option (update_position (Some (tr_store w a)) q px) (tr_positions w)\<rparr>"]
    by (simp add: send_fill_def trading_ready_def reported_def)
next
  case (Some g)
  then have "gateway_ready free (g\<lparr>gw_total_orders := gw_total_orders g + 1\<rparr>)"
    using w by (simp add: trading_ready_def gateway_ready_def)
  then obtain ok g' where "send_order P Q (Some (tr_store w a)) (- 1) g = Inr (ok, g')" "gateway_ready free g'"
      "gw_queues g \<noteq> [] \<Longrightarrow> \<exists>out. gw_objects g' = upd out (copy_report (order_report (tr_store w a))) (gw_objects g)"
    by (rule send_report_ready [OF P, where Q = Q and r = "order_report (tr_store w a)"])
      (rule that, simp_all add: send_order_def)
  then show thesis
    using Some w that [of "w\<lparr>tr_gateway := Some g',
        tr_positions := map_option (update_position (Some (tr_store w a)) q px) (tr_positions w)\<rparr>"]
    by (auto simp: send_fill_def trading_ready_def reported_def)
qed

lemma settle_ok:
  assumes P: "object_pool P free" and w: "trading_ready free w"
  obtains w' where "settle P Q a (fills_of p ms) w e = Inr (w', settled_engine (tr_store w) a ms e)"
    "trading_ready free w'" "tr_risk w' = tr_risk w" "tr_store w' = upd a final_status (tr_store w)"
    "tr_positions w' = map_option (apply_position_fills (match_positions (tr_store w) a ms)) (tr_positions w)"
    "reported (tr_store w a) w w'"
proof -
  let ?x = "tr_store w a"
  let ?w1 = "w\<lparr>tr_positions := update_makers (tr_store w) (fills_of p ms) (tr_positions w)\<rparr>"
  have w1: "trading_ready free ?w1" using w by (simp add: trading_ready_def)
  have f: "fills_of p ms = [] \<longleftrightarrow> ms = []" "length (fills_of p ms) = length ms"
    by (simp_all add: fills_of_def)
  show thesis
  proof (cases "o_filled ?x = 0")
    case True
    then show thesis
      using w1 that [of "?w1\<lparr>tr_store := upd a final_status (tr_store w)\<rparr>"]
      by (simp add: settle_def Let_def settled_engine_def trading_ready_def match_positions_def
          update_makers_fills reported_def)
  next
    case False
    obtain w2 where w2: "send_fill P Q a (o_filled ?x) (o_price ?x) ?w1 = Inr w2" "trading_ready free w2"
      "tr_store w2 = tr_store w" "tr_risk w2 = tr_risk w"
      "tr_positions w2 = map_option (update_position (Some ?x) (o_filled ?x) (o_price ?x)) (tr_positions ?w1)"
      "reported ?x ?w1 w2"
      using send_fill_ready [OF P w1, of Q a "o_filled ?x" "o_price ?x"] by auto
    show thesis
    proof (rule that)
      show "settle P Q a (fills_of p ms) w e = Inr (w2\<lparr>tr_store := upd a final_status (tr_store w)\<rparr>,
          settled_engine (tr_store w) a ms e)"
        using False w2(1,3) by (simp add: settle_def Let_def settled_engine_def f word_gt_0)
      show "tr_positions (w2\<lparr>tr_store := upd a final_status (tr_store w)\<rparr>)
          = map_option (apply_position_fills (match_positions (tr_store w) a ms)) (tr_positions w)"
        using False w2(5)
        by (cases "tr_positions w") (simp_all add: update_makers_fills match_positions_def)
    qed (use w2 in \<open>simp_all add: trading_ready_def reported_def\<close>)
  qed
qed

subsection \<open>One order\<close>

lemma process_accepted:
  assumes P: "object_pool P free" and inv: "engine_inv free w e" and a: "processable w e a"
    and risk: "check_risk w a"
  defines "x \<equiv> convert_market (tr_store w a)"
  defines "s \<equiv> is_buy x" and "p \<equiv> o_price x" and "q \<equiv> o_remaining x"
    and "st0 \<equiv> (tr_store w)(a := x)"
  defines "opp \<equiv> side_book (tr_store w) (me_book e) (\<not> s)"
  defines "ms \<equiv> trades s p q opp" and "left \<equiv> left_over s p q opp"
  defines "st1 \<equiv> apply_fills a ms st0"
  obtains w' e' where "process_order P Q a w e = Some (Inr (w', e'))" "engine_inv free w' e'"
    "tr_store w' = upd a final_status st1" "tr_risk w' = tr_risk w"
    "tr_positions w' = map_option (apply_position_fills (match_positions st1 a ms)) (tr_positions w)"
    "o_filled (st1 a) = q - left" "o_remaining (st1 a) = left"
    "side_book (tr_store w') (me_book e') (\<not> s) = untraded s p q opp"
    "side_book (tr_store w') (me_book e') s = (if left = 0 then side_book (tr_store w) (me_book e) s
       else insert_priority s ((p, a), left) (side_book (tr_store w) (me_book e) s))"
    "me_queue e' = me_queue e" "me_reject_count e' = me_reject_count e"
    "me_match_count e' = me_match_count e + of_nat (length ms)"
    "me_partial_count e' = me_partial_count e + (if ms \<noteq> [] \<and> left \<noteq> 0 then 1 else 0)"
    "reported (st1 a) w w'"
proof -
  have f: "live x" "o_filled x = 0" "fresh_order (tr_store w) (me_book e) a" "side_room (me_book e) s p"
    using a by (simp_all add: processable_def Let_def x_def s_def p_def)
  have bi: "book_inv (tr_store w) (me_book e)" and tr: "trading_ready free w"
    using inv by (simp_all add: engine_inv_def)
  have u: "unseen (me_book e) a" using f(3) by (simp add: fresh_order_unseen)
  have st0: "st0 = upd a convert_market (tr_store w)" by (simp add: st0_def x_def upd_def)
  have bi0: "book_inv st0 (me_book e)" and sb0: "side_book st0 (me_book e) = side_book (tr_store w) (me_book e)"
    unfolding st0_def by (rule write_unseen [OF bi u])+
  have x0: "st0 a = x" by (simp add: st0_def)
  have f0: "fresh_order st0 (me_book e) a" using f(3) by (simp add: st0 fresh_order_upd)
  obtain b' where b: "book_match (Some a) st0 (me_book e) []
      = Some (Inr (if left > 0 then Some a else None, st1, b', [] @ fills_of p ms))"
    "book_inv st1 b'" "side_book st1 b' (\<not> s) = untraded s p q opp"
    "side_book st1 b' s = (if left = 0 then side_book st0 (me_book e) s
       else insert_priority s ((p, a), left) (side_book st0 (me_book e) s))"
    "o_remaining (st1 a) = left" "left = 0 \<Longrightarrow> unseen b' a"
    using book_match_ok [OF bi0, of a s "[]"] f f0
    unfolding x0 sb0 s_def p_def q_def opp_def ms_def left_def st1_def by metis
  have sum: "o_filled (st1 a) + o_remaining (st1 a) = o_filled x + o_remaining x"
    unfolding st1_def x0 [symmetric] by simp
  then have filled: "o_filled (st1 a) = q - left"
    using f(2) b(5) by (simp add: q_def algebra_simps)
  have nil: "ms = [] \<longleftrightarrow> left = q"
    unfolding ms_def left_def opp_def by (rule trades_Nil_iff)
  let ?w1 = "w\<lparr>tr_store := st1\<rparr>" and ?e1 = "e\<lparr>me_book := b'\<rparr>"
  have "trading_ready free ?w1" using tr by (simp add: trading_ready_def)
  then obtain w' where w': "settle P Q a (fills_of p ms) ?w1 ?e1
      = Inr (w', settled_engine (tr_store ?w1) a ms ?e1)"
    "trading_ready free w'" "tr_risk w' = tr_risk ?w1" "tr_store w' = upd a final_status (tr_store ?w1)"
    "tr_positions w' = map_option (apply_position_fills (match_positions (tr_store ?w1) a ms)) (tr_positions ?w1)"
    "reported (tr_store ?w1 a) ?w1 w'"
    by (rule settle_ok [OF P, where Q = Q and a = a and p = p and ms = ms and e = ?e1])
  have run: "process_order P Q a w e = Some (Inr (w', settled_engine st1 a ms ?e1))"
    using risk b(1) w'(1) by (simp add: process_order_def Let_def st0 [symmetric])
  have view: "unseen b' y \<or> same_view ((upd a final_status st1) y) (st1 y)" for y
  proof (cases "y = a")
    case True
    have "is_active (st1 a)" using f(1) by (simp add: st1_def x0 live_def)
    then show ?thesis
      using True b(5,6) by (cases "left = 0") (simp_all add: same_view_def)
  qed (simp add: same_view_def)
  have "book_ok st1 b'" using b(2) by (simp add: book_inv_def)
  note sv = store_view [OF this view]
  have "book_inv (upd a final_status st1) b'" using b(2) sv(1) by (simp add: book_inv_def)
  then show thesis
    using w' b filled nil sv(2)
    by (intro that [OF run])
      (auto simp: engine_inv_def settled_engine_def sb0 reported_def)
qed

subsection \<open>Rejections\<close>

lemma process_rejected:
  assumes P: "object_pool P free" and inv: "engine_inv free w e" and risk: "\<not> check_risk w a"
    and u: "unseen (me_book e) a" and g: "tr_gateway w \<noteq> None"
  obtains w' where "process_order P Q a w e
      = Some (Inr (w', e\<lparr>me_reject_count := me_reject_count e + 1\<rparr>))"
    "engine_inv free w' (e\<lparr>me_reject_count := me_reject_count e + 1\<rparr>)"
    "tr_store w' = upd a (\<lambda>x. x\<lparr>o_status := REJECTED\<rparr>) (tr_store w)" "tr_risk w' = tr_risk w"
    "tr_positions w' = tr_positions w"
    "side_book (tr_store w') (me_book e) = side_book (tr_store w) (me_book e)"
proof -
  let ?st = "upd a (\<lambda>x. x\<lparr>o_status := REJECTED\<rparr>) (tr_store w)"
  have bi: "book_inv (tr_store w) (me_book e)" and tr: "trading_ready free w"
    using inv by (simp_all add: engine_inv_def)
  obtain h where h: "tr_gateway w = Some h" "gateway_ready free h"
    using g tr by (auto simp: trading_ready_def)
  obtain ok h' where s: "send_report P Q (rejection_report (?st a)) (- 1) h = Inr (ok, h')" "gateway_ready free h'"
    using send_report_ready [OF P h(2)] by metis
  have b: "book_inv ?st (me_book e)" "side_book ?st (me_book e) = side_book (tr_store w) (me_book e)"
    using write_unseen [OF bi u] by (simp_all add: upd_def)
  show thesis
    by (rule that [of "w\<lparr>tr_store := ?st, tr_gateway := Some h'\<rparr>"])
      (use risk h(1) s b in \<open>simp_all add: process_order_def reject_order_def Let_def engine_inv_def
         trading_ready_def del: upd_same\<close>)
qed

subsection \<open>Runs of the engine\<close>

text \<open>
  The engine's thread processes queued orders and cancels; in between, the feed thread takes
  an order that no book refers to from the pool and writes it.
\<close>

datatype engine_op = New_Order addr order | Process addr | Engine_Cancel u64

fun engine_step ::
  "'p pool_ops \<Rightarrow> ('q, addr) queue_ops \<Rightarrow> ('p, 'q) trading \<times> 'o engine \<Rightarrow> engine_op
    \<Rightarrow> (('p, 'q) trading \<times> 'o engine) option" where
  "engine_step P Q (w, e) (New_Order a x) = Some (w\<lparr>tr_store := (tr_store w)(a := x)\<rparr>, e)"
| "engine_step P Q (w, e) (Process a) =
     (case process_order P Q a w e of Some (Inr r) \<Rightarrow> Some r | _ \<Rightarrow> None)"
| "engine_step P Q (w, e) (Engine_Cancel i) =
     (case engine_cancel i w e of Inr (_, r) \<Rightarrow> Some r | _ \<Rightarrow> None)"

fun engine_guard :: "('p, 'q) trading \<times> 'o engine \<Rightarrow> engine_op \<Rightarrow> bool" where
  "engine_guard (w, e) (New_Order a x) \<longleftrightarrow> unseen (me_book e) a"
| "engine_guard (w, e) (Process a) \<longleftrightarrow> processable w e a"
| "engine_guard (w, e) (Engine_Cancel i) \<longleftrightarrow> True"

lemma processable_unseen: "processable w e a \<Longrightarrow> unseen (me_book e) a"
  by (simp add: processable_def Let_def fresh_order_unseen)

lemma process_safe:
  assumes P: "object_pool P free" and inv: "engine_inv free w e" and a: "processable w e a"
  obtains w' e' where "process_order P Q a w e = Some (Inr (w', e'))" "engine_inv free w' e'"
    "tr_risk w' = tr_risk w" "me_queue e' = me_queue e"
proof (cases "check_risk w a")
  case True
  show thesis by (rule process_accepted [OF P inv a True]) (rule that)
next
  case False
  then have "tr_gateway w \<noteq> None" using a by (auto simp: processable_def Let_def)
  show thesis
    by (rule process_rejected [OF P inv False processable_unseen [OF a] \<open>tr_gateway w \<noteq> None\<close>,
          where Q = Q]) (rule that, assumption, assumption, simp_all)
qed

lemma engine_cancel_safe:
  assumes "engine_inv free w e"
  obtains ok w' e' where "engine_cancel i w e = Inr (ok, w', e')" "engine_inv free w' e'"
    "tr_risk w' = tr_risk w" "me_queue e' = me_queue e"
proof -
  obtain r st' b' where "cancel_order i (tr_store w) (me_book e) = Inr (r, st', b')" "book_inv st' b'"
    using assms cancel_order_safe unfolding engine_inv_def by metis
  then show thesis
    using assms that [of r "w\<lparr>tr_store := st'\<rparr>" "e\<lparr>me_book := b'\<rparr>"]
    by (simp add: engine_cancel_def engine_inv_def trading_ready_def)
qed

definition engine_safe :: "'p pool_ops \<Rightarrow> ('p \<Rightarrow> addr set) \<Rightarrow> risk_manager option
    \<Rightarrow> ('p, 'q) trading \<times> 'o engine \<Rightarrow> bool" where
  "engine_safe P free rm s \<longleftrightarrow> object_pool P free \<and> engine_inv free (fst s) (snd s) \<and> tr_risk (fst s) = rm"

lemma engine_step_safe:
  assumes "engine_safe P free rm s" "engine_guard s x"
  shows "\<exists>s'. engine_step P Q s x = Some s' \<and> engine_safe P free rm s'"
proof -
  obtain w e where s: "s = (w, e)" by (cases s)
  have P: "object_pool P free" and inv: "engine_inv free w e" and r: "tr_risk w = rm"
    using assms(1) by (simp_all add: engine_safe_def s)
  show ?thesis
  proof (cases x)
    case (New_Order a y)
    then show ?thesis
      using write_unseen(1) [of "tr_store w" "me_book e" a] assms
      by (simp add: s engine_safe_def engine_inv_def trading_ready_def)
  next
    case (Process a)
    then have a: "processable w e a" using assms(2) s by simp
    show ?thesis
      by (rule process_safe [OF P inv a, where Q = Q]) (simp add: Process s engine_safe_def P r)
  next
    case (Engine_Cancel i)
    show ?thesis
      by (rule engine_cancel_safe [OF inv, of i]) (simp add: Engine_Cancel s engine_safe_def P r)
  qed
qed

interpretation engine_runs: safe_system "engine_step P Q" engine_guard "engine_safe P free rm"
  for P :: "'p pool_ops" and Q :: "('q, addr) queue_ops" and free rm
  by unfold_locales (rule engine_step_safe)

subsection \<open>The cycle\<close>

lemma process_order_queue:
  "process_order P Q a w (e\<lparr>me_queue := q\<rparr>)
    = map_option (map_sum id (\<lambda>(w', e'). (w', e'\<lparr>me_queue := q\<rparr>))) (process_order P Q a w e)"
proof -
  have s: "settle P Q a fills w2 (e\<lparr>me_queue := q, me_book := b\<rparr>)
      = map_sum id (\<lambda>(w', e'). (w', e'\<lparr>me_queue := q\<rparr>)) (settle P Q a fills w2 (e\<lparr>me_book := b\<rparr>))"
    for fills w2 b
    by (simp add: settle_def Let_def res_bind_def split: sum.split)
  have r: "reject_order P Q a w (e\<lparr>me_queue := q\<rparr>)
      = map_sum id (\<lambda>(w', e'). (w', e'\<lparr>me_queue := q\<rparr>)) (reject_order P Q a w e)"
    by (auto simp: reject_order_def Let_def res_bind_def split: sum.split option.split)
  show ?thesis
    by (auto simp: process_order_def Let_def r s res_bind_def split: sum.split Option.bind_splits)
qed

lemma run_ops_queue:
  "run_ops (engine_step P Q) (map Process as) (w, e\<lparr>me_queue := q\<rparr>)
    = map_option (\<lambda>(w', e'). (w', e'\<lparr>me_queue := q\<rparr>)) (run_ops (engine_step P Q) (map Process as) (w, e))"
proof (induction as arbitrary: w e)
  case (Cons a as)
  show ?case
  proof (cases "process_order P Q a w e")
    case (Some r)
    then show ?thesis
      by (cases r) (auto simp: process_order_queue [where e = e] Cons.IH)
  qed (simp add: process_order_queue [where e = e])
qed simp

text \<open>Processing the queued orders one after the other, as operations of the engine.\<close>

lemma cycle_runs:
  assumes Q: "spsc_queue OQ contents cap"
    and run: "run_ops (engine_step P Q) (map Process (contents (me_queue e))) (w, e) = Some (w', e')"
  shows "\<exists>q. contents q = [] \<and> run_match_cycle P Q OQ w e = Some (Inr (w', e'\<lparr>me_queue := q\<rparr>))"
  using run
proof (induction "contents (me_queue e)" arbitrary: w e e')
  case Nil
  obtain r q where q: "q_pop OQ (me_queue e) = (r, q)" by fastforce
  then have "r = None" "contents q = []"
    using spsc_queueD(3,4) [OF Q, of "me_queue e"] Nil(1) [symmetric] by simp_all
  then show ?case
    using Nil q by (subst run_match_cycle.simps) auto
next
  case (Cons a as)
  obtain r q where q: "q_pop OQ (me_queue e) = (r, q)" by fastforce
  then have r: "r = Some a" "contents q = as"
    using spsc_queueD(3,4) [OF Q, of "me_queue e"] Cons(2) [symmetric] by simp_all
  obtain w1 e1 where p: "process_order P Q a w e = Some (Inr (w1, e1))"
    and rest: "run_ops (engine_step P Q) (map Process as) (w1, e1) = Some (w', e')"
    using Cons(3) Cons(2) [symmetric] by (auto split: option.splits sum.splits)
  let ?e1 = "e1\<lparr>me_queue := q\<rparr>"
  have "\<exists>q'. contents q' = [] \<and> run_match_cycle P Q OQ w1 ?e1
      = Some (Inr (w', (e'\<lparr>me_queue := q\<rparr>)\<lparr>me_queue := q'\<rparr>))"
    using rest r(2) Cons(1) [of ?e1 w1 "e'\<lparr>me_queue := q\<rparr>"] Cons(2) by (simp add: run_ops_queue)
  moreover have "run_match_cycle P Q OQ w e = run_match_cycle P Q OQ w1 ?e1"
    using q r(1) p by (subst run_match_cycle.simps) (simp add: process_order_queue)
  ultimately show ?case by simp
qed

lemma cycle_empty:
  assumes "spsc_queue OQ contents cap" "contents (me_queue e) = []"
  shows "\<exists>q. contents q = [] \<and> run_match_cycle P Q OQ w e = Some (Inr (w, e\<lparr>me_queue := q\<rparr>))"
  by (rule cycle_runs [OF assms(1)]) (simp add: assms(2))

end
