(* ===== verification/Trading_Props.thy ===== *)
theory Trading_Props
  imports Matching_Engine_Props
begin

text \<open>
  The properties of the matching engine and of the engine of one symbol, each with a run on
  concrete orders.
\<close>

subsection \<open>A concrete engine\<close>

definition demo_trading :: "(addr list, addr list) trading" where
  "demo_trading = \<lparr>tr_store = demo_store, tr_risk = Some new_risk_manager,
     tr_gateway = Some demo_gateway, tr_positions = Some Map.empty\<rparr>"

definition demo_engine :: "addr list engine" where
  "demo_engine = (new_engine ''ABC'' [])\<lparr>me_book := demo_book\<rparr>"

lemma demo_gateway_ready: "gateway_ready set demo_gateway"
  by (simp add: gateway_ready_def demo_gateway_def add_worker_def new_gateway_def)

lemma demo_engine_inv: "engine_inv set demo_trading demo_engine"
  by (simp add: engine_inv_def demo_trading_def demo_engine_def demo_inv trading_ready_def
      demo_gateway_ready)

lemma demo_convert: "convert_market (demo_store a) = demo_store a"
  by (simp add: convert_market_def demo_store_def demo_order_def default_order_def)

lemma demo_processable: "processable demo_trading demo_engine 30"
  by (simp add: processable_def Let_def demo_trading_def demo_engine_def demo_convert demo_live
      demo_fresh_30 demo_side_room)
    (simp add: demo_store_def demo_order_def default_order_def)

lemma demo_slot: "risk_slot new_risk_manager symbol = new_risk_position"
  using slot_in_bounds [OF risk_ok_new, of symbol]
  by (simp add: risk_slot_def new_risk_manager_def)

lemma demo_breaker: "\<not> rm_circuit_breaker new_risk_manager"
  by (simp add: new_risk_manager_def)

lemma demo_check_risk: "check_risk demo_trading 30"
  by (simp add: check_risk_def demo_trading_def check_order_def check_position_def Let_def
      demo_slot new_risk_position_def is_circuit_breaker_active_def demo_breaker
      demo_store_def demo_order_def default_order_def is_buy_def word_le_nat_alt)

lemma demo_trades:
  "trades True 101 8 [((100, 10), 5), ((101, 20), 7)] = [(10, 5), (20, 3)]"
  "untraded True 101 8 [((100, 10), 5), ((101, 20), 7)] = [((101, 20), 4)]"
  "left_over True 101 8 [((100, 10), 5), ((101, 20), 7)] = 0"
  by (simp_all add: trades_def untraded_def left_over_def crosses_def before_def entry_price_def
      entry_order_def)

lemma demo_taker: "o_remaining (demo_store 30) = 8" "o_price (demo_store 30) = 101" "is_buy (demo_store 30)"
  by (simp_all only: demo_live) (simp add: demo_store_def demo_order_def)

lemma demo_parts:
  "tr_store demo_trading = demo_store" "me_book demo_engine = demo_book"
  by (simp_all add: demo_trading_def demo_engine_def)

lemma demo_processed:
  obtains w' and e' :: "addr list engine"
  where "process_order stack_pool (list_queue 4) 30 demo_trading demo_engine = Some (Inr (w', e'))"
    "o_filled (tr_store w' 30) = 8"
proof -
  let ?st = "apply_fills 30 (trades True 101 8 [((100, 10), 5), ((101, 20), 7)]) demo_store"
  obtain w' and e' :: "addr list engine"
    where r: "process_order stack_pool (list_queue 4) 30 demo_trading demo_engine = Some (Inr (w', e'))"
      "tr_store w' = upd 30 final_status ?st" "o_filled (?st 30) = 8 - 0"
    by (rule process_accepted [OF stack_pool_ok demo_engine_inv demo_processable demo_check_risk,
          where Q = "list_queue 4", unfolded demo_parts demo_convert demo_taker convert_market_simps,
          simplified demo_taker demo_sides demo_trades(3) fun_upd_triv not_True_eq_False]) (rule that)
  have "o_filled (tr_store w' 30) = o_filled (?st 30)" unfolding r(2) by simp
  then show thesis using r(3) by (intro that [OF r(1)]) simp
qed

subsection \<open>One order\<close>

text \<open>
  C2: \<open>MatchingEngine::process_order\<close> on an order that the risk manager accepts.  It returns
  without a fault.  The order is matched with price-time priority (at the extreme price, if
  it is a market order), its filled and remaining quantities are what was traded and what is
  left, and its status is FILLED, PARTIAL or NEW accordingly.  The opposite side of the
  engine's book keeps what was not traded and the remainder rests on the own side; the match
  counter grows by the number of fills and the partial counter by one when the order was
  filled in part.  The book's invariant and the gateway's readiness hold again.
\<close>

theorem process_order_matches:
  assumes "object_pool P free" "engine_inv free w e" "processable w e a" "check_risk w a"
  shows "let x = convert_market (tr_store w a); s = is_buy x; q = o_remaining x;
             opp = side_book (tr_store w) (me_book e) (\<not> s);
             ms = trades s (o_price x) q opp; left = left_over s (o_price x) q opp
         in \<exists>w' e'. process_order P Q a w e = Some (Inr (w', e')) \<and> engine_inv free w' e' \<and>
              o_filled (tr_store w' a) = q - left \<and> o_remaining (tr_store w' a) = left \<and>
              o_status (tr_store w' a)
                = (if left = 0 then FILLED else if left = q then NEW else PARTIAL) \<and>
              side_book (tr_store w') (me_book e') (\<not> s) = untraded s (o_price x) q opp \<and>
              side_book (tr_store w') (me_book e') s
                = (if left = 0 then side_book (tr_store w) (me_book e) s
                   else insert_priority s ((o_price x, a), left) (side_book (tr_store w) (me_book e) s)) \<and>
              me_match_count e' = me_match_count e + of_nat (length ms) \<and>
              me_partial_count e' = me_partial_count e + (if ms \<noteq> [] \<and> left \<noteq> 0 then 1 else 0) \<and>
              me_reject_count e' = me_reject_count e"
proof -
  let ?x = "convert_market (tr_store w a)"
  let ?opp = "side_book (tr_store w) (me_book e) (\<not> is_buy ?x)"
  let ?left = "left_over (is_buy ?x) (o_price ?x) (o_remaining ?x) ?opp"
  obtain w' e' where r: "process_order P Q a w e = Some (Inr (w', e'))" "engine_inv free w' e'"
    and st: "tr_store w' = upd a final_status (apply_fills a
      (trades (is_buy ?x) (o_price ?x) (o_remaining ?x) ?opp) ((tr_store w)(a := ?x)))"
    and q: "o_filled (tr_store w' a) = o_remaining ?x - ?left" "o_remaining (tr_store w' a) = ?left"
    and b: "side_book (tr_store w') (me_book e') (\<not> is_buy ?x)
        = untraded (is_buy ?x) (o_price ?x) (o_remaining ?x) ?opp"
      "side_book (tr_store w') (me_book e') (is_buy ?x)
        = (if ?left = 0 then side_book (tr_store w) (me_book e) (is_buy ?x)
           else insert_priority (is_buy ?x) ((o_price ?x, a), ?left)
             (side_book (tr_store w) (me_book e) (is_buy ?x)))"
    and c: "me_reject_count e' = me_reject_count e"
      "me_match_count e' = me_match_count e
        + of_nat (length (trades (is_buy ?x) (o_price ?x) (o_remaining ?x) ?opp))"
      "me_partial_count e' = me_partial_count e
        + (if trades (is_buy ?x) (o_price ?x) (o_remaining ?x) ?opp \<noteq> [] \<and> ?left \<noteq> 0 then 1 else 0)"
    by (rule process_accepted [OF assms, where Q = Q]) simp
  have "o_status (tr_store w' a) = (if o_remaining (tr_store w' a) = 0 then FILLED
      else if o_filled (tr_store w' a) > 0 then PARTIAL else NEW)"
    by (simp add: st final_status_def)
  then have "o_status (tr_store w' a)
      = (if ?left = 0 then FILLED else if ?left = o_remaining ?x then NEW else PARTIAL)"
    by (auto simp: q word_gt_0)
  then show ?thesis using r q b c unfolding Let_def by blast
qed

theorem process_order_matches_witness:
  "\<exists>w' e'. process_order stack_pool (list_queue 4) 30 demo_trading demo_engine = Some (Inr (w', e')) \<and>
     o_status (tr_store w' 30) = FILLED \<and> o_filled (tr_store w' 30) = 8 \<and>
     side_book (tr_store w') (me_book e') False = [((101, 20), 4)] \<and> me_match_count e' = 2"
  using process_order_matches [OF stack_pool_ok demo_engine_inv demo_processable demo_check_risk,
      of "list_queue 4"]
  by (auto simp: Let_def demo_trading_def demo_engine_def demo_convert demo_taker demo_sides demo_trades
      new_engine_def)

lemma s64_add: "s64 (s64 x + y) = s64 (x + y)"
  unfolding s64_def by (metis signed_take_bit_add signed_take_bit_signed_take_bit min.idem)

lemma net_of_fills_mod:
  "s64 (net_of (apply_position_fills fs m) symbol)
    = s64 (net_of m symbol + sum_list (map (signed_fill symbol) fs))"
proof (induction fs arbitrary: m)
  case (Cons f fs)
  obtain x q px where f: "f = (x, q, px)" by (cases f) auto
  have "s64 (net_of (update_position (Some x) q px m) symbol + y)
      = s64 (net_of m symbol + (signed_fill symbol f + y))" for y
    by (auto simp: net_of_update f s64_add add.assoc signed_fill_def)
  then show ?case using Cons.IH by (simp add: f)
qed simp

text \<open>Makers and taker of one match trade the same quantity in opposite directions.\<close>

lemma signed_makers:
  assumes "\<And>y. y \<in> set ms \<Longrightarrow> is_buy (st (fst y)) = (\<not> s) \<and> trim_symbol (o_symbol (st (fst y))) = symbol"
  shows "sum_list (map (signed_fill symbol) (map (\<lambda>(b, q). (st b, q, o_price (st b))) ms))
    = (if s then - 1 else 1) * int (sum_list (map (unat \<circ> snd) ms))"
  using assms
proof (induction ms)
  case (Cons y ms)
  have "signed_fill symbol (st (fst y), snd y, o_price (st (fst y))) = (if s then - 1 else 1) * int (unat (snd y))"
    using Cons.prems [of y] by (auto simp: signed_fill_def)
  then show ?case using Cons by (simp add: case_prod_beta algebra_simps)
qed simp

lemma match_positions_balance:
  assumes makers: "\<And>y. y \<in> set ms \<Longrightarrow> is_buy (st (fst y)) = (\<not> s) \<and> trim_symbol (o_symbol (st (fst y))) = symbol"
    and taker: "is_buy (st a) = s" "trim_symbol (o_symbol (st a)) = symbol"
    and filled: "unat (o_filled (st a)) = sum_list (map (unat \<circ> snd) ms)"
  shows "sum_list (map (signed_fill symbol) (match_positions st a ms)) = 0"
proof -
  have "sum_list (map (signed_fill symbol) (if o_filled (st a) \<noteq> 0 then [(st a, o_filled (st a), o_price (st a))] else []))
      = (if s then 1 else - 1) * int (unat (o_filled (st a)))"
    using taker by (auto simp: signed_fill_def)
  moreover have "sum_list (map (signed_fill symbol) (map (\<lambda>(b, q). (st b, q, o_price (st b))) ms))
      = (if s then - 1 else 1) * int (sum_list (map (unat \<circ> snd) ms))"
    by (rule signed_makers) (rule makers)
  ultimately show ?thesis
    unfolding match_positions_def map_append sum_list_append filled by simp
qed

lemma trades_makers:
  assumes "book_inv st b" "y \<in> set (trades s p q (side_book st b (\<not> s)))"
  shows "is_buy (st (fst y)) = (\<not> s)"
proof -
  have "fst y \<in> entry_order ` set (takeWhile (crosses s p) (side_book st b (\<not> s)))"
    using trades_map assms(2) by blast
  then obtain z where "z \<in> set (side_book st b (\<not> s))" "entry_order z = fst y"
    by (auto dest: set_takeWhileD)
  then obtain l where "l \<in> set (levels_of (\<not> s) b)" "fst y \<in> set (entries (lv b l))"
    using side_book_entry(3) [of z st b "\<not> s"] by auto
  then show ?thesis using assms(1) by (auto simp: book_inv_def book_ok_def book_orders_def)
qed

text \<open>
  Positions.  After an accepted order the positions have moved by exactly the fills of the
  match, each maker at its own price and then the taker with everything it got, at its own
  limit price (not at the prices of its fills); and when all orders of the match trade the
  same symbol, the net position of that symbol is what it was, because what one side bought
  the other sold, also where the 64 bit sum wraps around.
\<close>

theorem match_positions_balance_out:
  assumes "object_pool P free" "engine_inv free w e" "processable w e a" "check_risk w a"
    and "process_order P Q a w e = Some (Inr (w', e'))" "tr_positions w = Some m"
    and "\<forall>y \<in> set (side_book (tr_store w) (me_book e) (\<not> is_buy (tr_store w a))).
       trim_symbol (o_symbol (tr_store w (entry_order y))) = trim_symbol (o_symbol (tr_store w a))"
  shows "let x = convert_market (tr_store w a); s = is_buy x;
             ms = trades s (o_price x) (o_remaining x) (side_book (tr_store w) (me_book e) (\<not> s));
             st' = apply_fills a ms ((tr_store w)(a := x));
             symbol = trim_symbol (o_symbol x)
         in \<exists>m'. tr_positions w' = Some m' \<and> m' = apply_position_fills (match_positions st' a ms) m \<and>
              s64 (net_of m' symbol) = s64 (net_of m symbol)"
proof -
  let ?x = "convert_market (tr_store w a)"
  let ?s = "is_buy ?x" and ?p = "o_price ?x" and ?q = "o_remaining ?x"
  let ?opp = "side_book (tr_store w) (me_book e) (\<not> ?s)"
  let ?ms = "trades ?s ?p ?q ?opp"
  let ?st = "apply_fills a ?ms ((tr_store w)(a := ?x))" and ?t = "trim_symbol (o_symbol ?x)"
  obtain w1 e1 where r: "process_order P Q a w e = Some (Inr (w1, e1))"
    and pm: "tr_positions w1 = map_option (apply_position_fills (match_positions ?st a ?ms)) (tr_positions w)"
    and q: "o_filled (?st a) = ?q - left_over ?s ?p ?q ?opp"
    by (rule process_accepted [OF assms(1-4), where Q = Q]) simp
  have bi: "book_inv (tr_store w) (me_book e)" using assms(2) by (simp add: engine_inv_def)
  have u: "unseen (me_book e) a" by (rule processable_unseen [OF assms(3)])
  have "is_buy (?st (fst y)) = (\<not> ?s) \<and> trim_symbol (o_symbol (?st (fst y))) = ?t" if y: "y \<in> set ?ms" for y
  proof -
    have "fst y \<in> entry_order ` set (takeWhile (crosses ?s ?p) ?opp)"
      using trades_map y by blast
    then have "trim_symbol (o_symbol (tr_store w (fst y))) = ?t"
      using assms(7) by (auto dest: set_takeWhileD)
    moreover have "is_buy (tr_store w (fst y)) = (\<not> ?s)" by (rule trades_makers [OF bi y])
    ultimately show ?thesis by (auto simp: is_buy_def fun_upd_apply)
  qed
  moreover have "unat (o_filled (?st a)) = sum_list (map (unat \<circ> snd) ?ms)"
  proof -
    have s: "sum_list (map (unat \<circ> snd) ?ms) + unat (left_over ?s ?p ?q ?opp) = unat ?q" by (rule trades_sum)
    then have "left_over ?s ?p ?q ?opp \<le> ?q" unfolding word_le_nat_alt by linarith
    then have "unat (o_filled (?st a)) = unat ?q - unat (left_over ?s ?p ?q ?opp)"
      unfolding q by (rule unat_sub_le)
    then show ?thesis using s by linarith
  qed
  ultimately have "sum_list (map (signed_fill ?t) (match_positions ?st a ?ms)) = 0"
    by (intro match_positions_balance [where s = ?s]) (simp_all add: is_buy_def)
  then have "s64 (net_of (apply_position_fills (match_positions ?st a ?ms) m) ?t) = s64 (net_of m ?t)"
    by (simp add: net_of_fills_mod)
  then show ?thesis using pm r assms(5,6) unfolding Let_def by simp
qed

theorem match_positions_balance_out_witness:
  "\<exists>w' e' m'. process_order stack_pool (list_queue 4) 30 demo_trading demo_engine = Some (Inr (w', e')) \<and>
     tr_positions w' = Some m' \<and> s64 (net_of m' (trim_symbol zero_symbol)) = s64 0"
proof -
  obtain w' and e' :: "addr list engine"
    where r: "process_order stack_pool (list_queue 4) 30 demo_trading demo_engine = Some (Inr (w', e'))"
    by (rule process_safe [OF stack_pool_ok demo_engine_inv demo_processable])
  have f: "tr_positions demo_trading = Some Map.empty" "tr_store demo_trading = demo_store"
    "me_book demo_engine = demo_book"
    by (simp_all add: demo_trading_def demo_engine_def)
  have sym: "o_symbol (demo_store a) = zero_symbol" for a
    by (simp add: demo_store_def demo_order_def default_order_def)
  show ?thesis
    using match_positions_balance_out [OF stack_pool_ok demo_engine_inv demo_processable demo_check_risk r f(1)] r
    by (simp add: Let_def f sym) (auto simp: net_of_def)
qed

text \<open>
  A market order becomes a limit order at the extreme price, and what does not trade
  rests there: behind the whole opposite side a bid at \<open>INT64_MAX\<close>, or an ask at 0, that the
  next order of the other side meets.  It is not cancelled.
\<close>

theorem market_remainder_rests:
  assumes "object_pool P free" "engine_inv free w e" "processable w e a" "check_risk w a"
    and "o_type (tr_store w a) = MARKET"
    and "left_over (is_buy (tr_store w a)) (if is_buy (tr_store w a) then int64_max else 0)
      (o_remaining (tr_store w a)) (side_book (tr_store w) (me_book e) (\<not> is_buy (tr_store w a))) \<noteq> 0"
    and "process_order P Q a w e = Some (Inr (w', e'))"
  shows "\<exists>left. left \<noteq> 0 \<and>
    (((if is_buy (tr_store w a) then int64_max else 0), a), left)
      \<in> set (side_book (tr_store w') (me_book e') (is_buy (tr_store w a)))"
proof -
  let ?s = "is_buy (tr_store w a)" and ?p = "if is_buy (tr_store w a) then int64_max else 0"
  let ?q = "o_remaining (tr_store w a)" and ?book = "side_book (tr_store w) (me_book e)"
  have x: "o_price (convert_market (tr_store w a)) = ?p"
    using assms(5) by (simp add: convert_market_def)
  obtain w1 e1 where r: "process_order P Q a w e = Some (Inr (w1, e1))"
    and b: "side_book (tr_store w1) (me_book e1) ?s = (if left_over ?s ?p ?q (?book (\<not> ?s)) = 0
       then ?book ?s else insert_priority ?s ((?p, a), left_over ?s ?p ?q (?book (\<not> ?s))) (?book ?s))"
    by (rule process_accepted [OF assms(1-4), where Q = Q, unfolded x convert_market_simps])
  have "((?p, a), left_over ?s ?p ?q (?book (\<not> ?s))) \<in> set (side_book (tr_store w1) (me_book e1) ?s)"
    using b assms(6) by (simp only: if_False) (simp add: insert_priority_def)
  then show ?thesis using assms(6,7) r by auto
qed

definition market_store :: store where
  "market_store = demo_store(60 := (demo_order 16 SELL 0 4)\<lparr>o_type := MARKET\<rparr>)"

theorem market_remainder_rests_witness:
  "\<exists>w' e' left. process_order stack_pool (list_queue 4) 60 (demo_trading\<lparr>tr_store := market_store, tr_risk := None\<rparr>)
       (new_engine ''ABC'' [] :: addr list engine) = Some (Inr (w', e')) \<and> left \<noteq> 0 \<and>
     ((0, 60), left) \<in> set (side_book (tr_store w') (me_book e') False)"
proof -
  let ?w = "demo_trading\<lparr>tr_store := market_store, tr_risk := None\<rparr>"
  let ?e = "new_engine ''ABC'' [] :: addr list engine"
  have inv: "engine_inv set ?w ?e"
    by (simp add: engine_inv_def demo_trading_def new_engine_def book_inv_new trading_ready_def
        demo_gateway_ready)
  have x: "market_store 60 = (demo_order 16 SELL 0 4)\<lparr>o_type := MARKET\<rparr>" "\<not> is_buy (market_store 60)"
    "o_type (market_store 60) = MARKET" "o_remaining (market_store 60) = 4"
    by (simp_all add: market_store_def demo_order_def is_buy_def)
  have f: "tr_store ?w = market_store" "me_book ?e = new_book ''ABC''"
    by (simp_all add: demo_trading_def new_engine_def)
  have p: "processable ?w ?e 60"
    by (simp add: processable_def Let_def f x(2) check_risk_def)
      (simp add: x(1) demo_order_def default_order_def live_def is_active_def fresh_order_def
        side_room_def new_book_def all_levels_def levels_of_def)
  have r: "check_risk ?w 60" by (simp add: check_risk_def)
  have sb: "side_book st (new_book ''ABC'') s = []" for st s
    by (simp add: side_book_def new_book_def levels_of_def)
  obtain w' and e' :: "addr list engine"
    where m: "process_order stack_pool (list_queue 4) 60 ?w ?e = Some (Inr (w', e'))"
    by (rule process_safe [OF stack_pool_ok inv p])
  have "left_over False 0 4 [] \<noteq> 0" by (simp add: left_over_def)
  then show ?thesis
    using market_remainder_rests [OF stack_pool_ok inv p r, of "list_queue 4" w' e'] m
    by (simp add: f x(2-4) sb)
qed

text \<open>
  C23: a rejected order.  When the risk manager refuses an order and the gateway is ready,
  processing returns; the order is REJECTED and otherwise unchanged, the book, the positions
  and the risk manager stay as they were, and the rejection is counted.  A refusal without a
  gateway dereferences a null pointer: the one pointer of the engine that is not tested.
\<close>

theorem rejection_leaves_everything:
  assumes "object_pool P free" "engine_inv free w e" "unseen (me_book e) a" "\<not> check_risk w a"
  shows "if tr_gateway w = None then process_order P Q a w e = Some (Inl Null_Pointer)
    else \<exists>w'. process_order P Q a w e = Some (Inr (w', e\<lparr>me_reject_count := me_reject_count e + 1\<rparr>)) \<and>
           tr_store w' = (tr_store w)(a := (tr_store w a)\<lparr>o_status := REJECTED\<rparr>) \<and>
           tr_risk w' = tr_risk w \<and> tr_positions w' = tr_positions w \<and>
           book_inv (tr_store w') (me_book e) \<and>
           side_book (tr_store w') (me_book e) = side_book (tr_store w) (me_book e)"
proof (cases "tr_gateway w = None")
  case True
  then show ?thesis using assms(4) by (simp add: process_order_def reject_order_def Let_def)
next
  case False
  show ?thesis
    by (rule process_rejected [OF assms(1,2,4,3) False, where Q = Q])
      (simp add: False engine_inv_def upd_def)
qed

definition refused_store :: store where
  "refused_store = demo_store(30 := demo_order 13 BUY (- 1) 8)"

theorem rejection_leaves_everything_witness:
  "(\<exists>w'. process_order stack_pool (list_queue 4) 30 (demo_trading\<lparr>tr_store := refused_store\<rparr>) demo_engine
      = Some (Inr (w', demo_engine\<lparr>me_reject_count := 1\<rparr>)) \<and> o_status (tr_store w' 30) = REJECTED) \<and>
   process_order stack_pool (list_queue 4) 30 (demo_trading\<lparr>tr_store := refused_store, tr_gateway := None\<rparr>)
     demo_engine = Some (Inl Null_Pointer)"
proof -
  have u: "unseen (me_book demo_engine) 30"
    using demo_fresh_30 by (simp add: fresh_order_unseen demo_engine_def)
  have i: "book_inv refused_store demo_book"
    using write_unseen(1) [OF demo_inv, of 30] u by (simp add: refused_store_def demo_engine_def)
  have inv: "engine_inv set (demo_trading\<lparr>tr_store := refused_store\<rparr>) demo_engine"
    "engine_inv set (demo_trading\<lparr>tr_store := refused_store, tr_gateway := None\<rparr>) demo_engine"
    by (simp_all add: engine_inv_def demo_trading_def demo_engine_def i trading_ready_def demo_gateway_ready)
  have r: "\<not> check_risk (demo_trading\<lparr>tr_store := refused_store\<rparr>) 30"
    "\<not> check_risk (demo_trading\<lparr>tr_store := refused_store, tr_gateway := None\<rparr>) 30"
    by (simp_all add: check_risk_def demo_trading_def check_order_def refused_store_def demo_order_def
        is_circuit_breaker_active_def)
  have c: "me_reject_count demo_engine = 0" by (simp add: demo_engine_def new_engine_def)
  show ?thesis
    using rejection_leaves_everything [OF stack_pool_ok inv(1) u r(1), of "list_queue 4"]
      rejection_leaves_everything [OF stack_pool_ok inv(2) u r(2), of "list_queue 4"]
    by (auto simp: demo_trading_def c)
qed

text \<open>
  What the fill report says.  The report is built before the status is set, so the object
  that a worker receives for a wholly filled order still carries the status that the order had
  before the match, the limit price instead of the prices of the fills, and the time stamp of
  the order, which the engine never sets.
\<close>

theorem fill_report_is_stale:
  assumes "object_pool P free" "engine_inv free w e" "processable w e a" "check_risk w a"
    and "tr_gateway w = Some g" "gw_queues g \<noteq> []"
    and "process_order P Q a w e = Some (Inr (w', e'))" "o_filled (tr_store w' a) \<noteq> 0"
  shows "\<exists>g' out. tr_gateway w' = Some g' \<and>
    er_status (gw_objects g' out) = o_status (tr_store w a) \<and>
    er_executed_quantity (gw_objects g' out) = o_filled (tr_store w' a) \<and>
    er_executed_price (gw_objects g' out) = o_price (convert_market (tr_store w a)) \<and>
    er_timestamp (gw_objects g' out) = o_matched_ts (tr_store w a)"
proof -
  let ?x = "convert_market (tr_store w a)"
  let ?opp = "side_book (tr_store w) (me_book e) (\<not> is_buy ?x)"
  let ?st = "apply_fills a (trades (is_buy ?x) (o_price ?x) (o_remaining ?x) ?opp) ((tr_store w)(a := ?x))"
  obtain w1 e1 where r: "process_order P Q a w e = Some (Inr (w1, e1))"
    and st: "tr_store w1 = upd a final_status ?st" and rep: "reported (?st a) w w1"
    by (rule process_accepted [OF assms(1-4), where Q = Q]) simp
  have w1: "w1 = w'" using r assms(7) by simp
  have f: "o_filled (tr_store w' a) = o_filled (?st a)" using st w1 by simp
  then have "o_filled (?st a) \<noteq> 0" using assms(8) by metis
  then obtain g' out where g: "tr_gateway w' = Some g'"
      "gw_objects g' = upd out (copy_report (order_report (?st a))) (gw_objects g)"
    using rep assms(5,6) w1 unfolding reported_def by metis
  have "o_matched_ts ?x = o_matched_ts (tr_store w a)" by (simp add: convert_market_def)
  then show ?thesis
    by (intro exI [of _ g'] exI [of _ out])
      (simp only: g f upd_same, simp add: copy_report_def order_report_def)
qed

theorem fill_report_is_stale_witness:
  "\<exists>w' e' g' out. process_order stack_pool (list_queue 4) 30 demo_trading demo_engine = Some (Inr (w', e')) \<and>
     tr_gateway w' = Some g' \<and> er_status (gw_objects g' out) = NEW"
proof -
  obtain w' and e' :: "addr list engine"
    where r: "process_order stack_pool (list_queue 4) 30 demo_trading demo_engine = Some (Inr (w', e'))"
      "o_filled (tr_store w' 30) = 8"
    by (rule demo_processed)
  have g: "tr_gateway demo_trading = Some demo_gateway" "gw_queues demo_gateway \<noteq> []"
    "o_status (tr_store demo_trading 30) = NEW"
    by (simp_all add: demo_trading_def demo_gateway_def add_worker_def new_gateway_def demo_store_def
        demo_order_def default_order_def)
  show ?thesis
    using fill_report_is_stale [OF stack_pool_ok demo_engine_inv demo_processable demo_check_risk
        g(1,2) r(1)] r g(3) by auto
qed

subsection \<open>Cycles and runs\<close>

text \<open>
  C14: \<open>run_match_cycle\<close> ends, and it processes the submitted orders one by one in the order
  of their submission, until the queue is empty.  If each of them may be processed when its
  turn comes, no step faults and the invariant holds at the end.
\<close>

theorem cycle_processes_in_order:
  assumes "object_pool P free" "spsc_queue OQ contents cap" "engine_inv free w e"
    and "run_guard (engine_step P Q) engine_guard (map Process (contents (me_queue e))) (w, e)"
  shows "\<exists>w' e' q. run_ops (engine_step P Q) (map Process (contents (me_queue e))) (w, e) = Some (w', e') \<and>
    run_match_cycle P Q OQ w e = Some (Inr (w', e'\<lparr>me_queue := q\<rparr>)) \<and> contents q = [] \<and>
    engine_inv free w' (e'\<lparr>me_queue := q\<rparr>)"
proof -
  have "engine_safe P free (tr_risk w) (w, e)" using assms by (simp add: engine_safe_def)
  then obtain w' e' where r: "run_ops (engine_step P Q) (map Process (contents (me_queue e))) (w, e) = Some (w', e')"
      "engine_safe P free (tr_risk w) (w', e')"
    using engine_runs.run_safe [OF _ assms(4)] by fast
  obtain q where "contents q = []" "run_match_cycle P Q OQ w e = Some (Inr (w', e'\<lparr>me_queue := q\<rparr>))"
    using cycle_runs [OF assms(2) r(1)] by blast
  then show ?thesis using r by (auto simp: engine_safe_def engine_inv_def)
qed

lemma demo_step_30:
  obtains w' and e' :: "addr list engine"
  where "engine_step stack_pool (list_queue 4) (demo_trading, demo_engine) (Process 30) = Some (w', e')"
  by (rule demo_processed) (rule that, simp)

lemma demo_queued: "run_guard (engine_step stack_pool (list_queue 4)) engine_guard (map Process [30])
    (demo_trading, demo_engine\<lparr>me_queue := [30]\<rparr>)"
  using demo_processable by (simp add: processable_def split: option.split)

theorem cycle_processes_in_order_witness:
  "\<exists>w' e'. run_match_cycle stack_pool (list_queue 4) (list_queue 4) demo_trading
     (demo_engine\<lparr>me_queue := [30]\<rparr>) = Some (Inr (w', e'\<lparr>me_queue := []\<rparr>))"
proof -
  have "engine_inv set demo_trading (demo_engine\<lparr>me_queue := [30]\<rparr>)"
    using demo_engine_inv by (simp add: engine_inv_def)
  then show ?thesis
    using cycle_processes_in_order [OF stack_pool_ok list_queue_ok, of demo_trading
        "demo_engine\<lparr>me_queue := [30]\<rparr>" "list_queue 4" 4] demo_queued
    by force
qed

text \<open>
  C30: the limits never see the trades.  In every run of new orders, processed orders and
  cancels the engine neither faults nor hangs nor breaks its invariant, and the risk manager
  it ends with is the one it began with: the fills are never reported to it.  So when its
  position slots are empty at the start, it goes on accepting every buy up to the limit,
  however much has been bought before.
\<close>

theorem limits_never_see_trades:
  assumes "object_pool P free" "engine_inv free w e" "tr_risk w = Some rm"
    and "run_guard (engine_step P Q) engine_guard ops (w, e)"
    and "\<forall>symbol. rp_long (risk_slot rm symbol) = 0 \<and> rp_short (risk_slot rm symbol) = 0"
    and "\<not> is_circuit_breaker_active rm"
  shows "\<exists>w' e'. run_ops (engine_step P Q) ops (w, e) = Some (w', e') \<and> engine_inv free w' e' \<and>
    tr_risk w' = Some rm \<and>
    (\<forall>a. is_buy (tr_store w' a) \<and> 0 < o_quantity (tr_store w' a) \<and> 0 \<le> o_price (tr_store w' a) \<and>
         o_quantity (tr_store w' a) \<le> rp_limit (risk_slot rm (o_symbol (tr_store w' a)))
       \<longrightarrow> check_risk w' a)"
proof -
  have "engine_safe P free (Some rm) (w, e)" using assms(1-3) by (simp add: engine_safe_def)
  then obtain w' e' where r: "run_ops (engine_step P Q) ops (w, e) = Some (w', e')"
      "engine_safe P free (Some rm) (w', e')"
    using engine_runs.run_safe [OF _ assms(4)] by fast
  then show ?thesis
    using assms(5,6)
    by (auto simp: engine_safe_def check_risk_def check_order_def check_position_def Let_def)
qed

theorem limits_never_see_trades_witness:
  "\<exists>w' e'. run_ops (engine_step stack_pool (list_queue 4)) [Process 30] (demo_trading, demo_engine)
     = Some (w', e') \<and> tr_risk w' = Some new_risk_manager"
proof -
  have "run_guard (engine_step stack_pool (list_queue 4)) engine_guard [Process 30] (demo_trading, demo_engine)"
    using demo_processable by (simp split: option.split)
  then show ?thesis
    using limits_never_see_trades [OF stack_pool_ok demo_engine_inv, of new_risk_manager "list_queue 4" "[Process 30]"]
    by (force simp: demo_trading_def demo_slot new_risk_position_def is_circuit_breaker_active_def demo_breaker)
qed

subsection \<open>The engine of a symbol\<close>

datatype symbol_op = Market_Order "addr option" | Match_Cycle | Sy_Cancel u64 | Drain | Quote i64 i64

fun symbol_step ::
  "'p pool_ops \<Rightarrow> ('q, addr) queue_ops \<Rightarrow> ('o, addr) queue_ops \<Rightarrow> ('p, 'q) trading \<times> 'o symbol_engine
    \<Rightarrow> symbol_op \<Rightarrow> (('p, 'q) trading \<times> 'o symbol_engine) option" where
  "symbol_step P Q OQ (w, s) (Market_Order p) = Some (w, snd (on_market_order OQ p s))"
| "symbol_step P Q OQ (w, s) Match_Cycle =
     (case sy_run_match_cycle P Q OQ w s of Some (Inr r) \<Rightarrow> Some r | _ \<Rightarrow> None)"
| "symbol_step P Q OQ (w, s) (Sy_Cancel i) =
     (case sy_cancel_order i w s of Inr (_, r) \<Rightarrow> Some r | _ \<Rightarrow> None)"
| "symbol_step P Q OQ (w, s) Drain = (case drain P Q OQ w s of Some (Inr r) \<Rightarrow> Some r | _ \<Rightarrow> None)"
| "symbol_step P Q OQ (w, s) (Quote bid ask) = Some (w, sy_set_market_price bid ask s)"

lemma sy_book_cycle: "sy_run_match_cycle P Q OQ w s = Some (Inr (w', s')) \<Longrightarrow> sy_book s' = sy_book s"
proof -
  assume "sy_run_match_cycle P Q OQ w s = Some (Inr (w', s'))"
  then obtain r where r: "res_bind r (\<lambda>(w1, e). Inr (w1, s\<lparr>sy_engine := e\<rparr>)) = Inr (w', s')"
    by (auto simp: sy_run_match_cycle_def)
  then show "sy_book s' = sy_book s" by (cases r) auto
qed

lemma sy_book_drain_cycles: "drain_cycles n P Q OQ w s = Some (Inr (w', s')) \<Longrightarrow> sy_book s' = sy_book s"
proof (induction n arbitrary: w s)
  case (Suc n)
  then show ?case
    by (auto split: Option.bind_splits sum.splits) (metis sy_book_cycle)
qed simp

lemma sy_book_step:
  assumes "symbol_step P Q OQ (w, s) x = Some (w', s')"
  shows "sy_book s' = (case x of Quote bid ask \<Rightarrow> set_market_price bid ask (sy_book s) | _ \<Rightarrow> sy_book s)"
proof (cases x)
  case Match_Cycle
  then show ?thesis using assms by (auto split: option.splits sum.splits dest: sy_book_cycle)
next
  case Drain
  then show ?thesis
    using assms by (auto simp: drain_def split: option.splits sum.splits dest: sy_book_drain_cycles)
qed (use assms in \<open>auto simp: on_market_order_def sy_cancel_order_def res_bind_def sy_set_market_price_def
    split: sum.splits prod.splits\<close>)

text \<open>
  The book of the engine and the published book are two books.  Whatever orders, match
  cycles, cancels and drains go through the operations of the symbol engine, the book that
  \<open>order_book()\<close> hands to the snapshots only takes the prices set from outside: its levels
  and depths stay what they were, so no order that rests after matching ever shows in it.
  (What the simulator rests there goes in through \<open>get_order_book()\<close>, past these operations.)
\<close>

theorem published_book_ignores_trading:
  assumes "run_ops (symbol_step P Q OQ) ops (w, s) = Some (w', s')"
  shows "(\<forall>t. levels_of t (sy_order_book s') = levels_of t (sy_order_book s) \<and>
      depth_of t (sy_order_book s') = depth_of t (sy_order_book s)) \<and>
    ob_index (sy_order_book s') = ob_index (sy_order_book s) \<and>
    ((\<forall>bid ask. Quote bid ask \<notin> set ops) \<longrightarrow> sy_order_book s' = sy_order_book s)"
  using assms unfolding sy_order_book_def
proof (induction ops arbitrary: w s)
  case (Cons x xs)
  obtain w1 s1 where x: "symbol_step P Q OQ (w, s) x = Some (w1, s1)"
    and xs: "run_ops (symbol_step P Q OQ) xs (w1, s1) = Some (w', s')"
    using Cons.prems by (auto split: Option.bind_splits)
  have q: "levels_of t (set_market_price bid ask b) = levels_of t b"
    "depth_of t (set_market_price bid ask b) = depth_of t b"
    "ob_index (set_market_price bid ask b) = ob_index b" for t bid ask b
    by (simp_all add: set_market_price_def levels_of_def depth_of_def)
  show ?case
    using Cons.IH [OF xs] sy_book_step [OF x] by (auto simp: q split: symbol_op.splits)
qed simp

theorem published_book_ignores_trading_witness:
  "\<exists>w' s'. run_ops (symbol_step stack_pool (list_queue 4) (list_queue 4)) [Market_Order (Some 30), Match_Cycle]
     (demo_trading, \<lparr>sy_book = new_book ''ABC'', sy_engine = demo_engine\<rparr>) = Some (w', s') \<and>
   sy_order_book s' = new_book ''ABC''"
proof -
  obtain w1 and e1 :: "addr list engine"
    where p: "engine_step stack_pool (list_queue 4) (demo_trading, demo_engine) (Process 30) = Some (w1, e1)"
    by (rule demo_step_30)
  then have "run_ops (engine_step stack_pool (list_queue 4)) (map Process [30])
      (demo_trading, demo_engine\<lparr>me_queue := [30]\<rparr>) = Some (w1, e1\<lparr>me_queue := [30]\<rparr>)"
    unfolding run_ops_queue by simp
  then have "\<exists>q. run_match_cycle stack_pool (list_queue 4) (list_queue 4) demo_trading
      (demo_engine\<lparr>me_queue := [30]\<rparr>) = Some (Inr (w1, e1\<lparr>me_queue := q\<rparr>))"
    using cycle_runs [OF list_queue_ok, of stack_pool "list_queue 4" "demo_engine\<lparr>me_queue := [30]\<rparr>" demo_trading]
    by force
  moreover have "submit_order (list_queue 4) (Some 30) demo_engine = (True, demo_engine\<lparr>me_queue := [30]\<rparr>)"
    by (simp add: submit_order_def demo_engine_def new_engine_def list_queue_def)
  ultimately have r: "\<exists>w' s'. run_ops (symbol_step stack_pool (list_queue 4) (list_queue 4))
      [Market_Order (Some 30), Match_Cycle]
      (demo_trading, \<lparr>sy_book = new_book ''ABC'', sy_engine = demo_engine\<rparr>) = Some (w', s')"
    by (auto simp: on_market_order_def sy_run_match_cycle_def)
  then show ?thesis
    using published_book_ignores_trading [of stack_pool "list_queue 4" "list_queue 4"
        "[Market_Order (Some 30), Match_Cycle]" demo_trading
        "\<lparr>sy_book = new_book ''ABC'', sy_engine = demo_engine\<rparr>"]
    by (fastforce simp: sy_order_book_def)
qed

end
