(* ===== verification/Itch_Replay.thy ===== *)
theory Itch_Replay
  imports Itch_Sample Trading_Props Complex_Main
begin

text \<open>
  The replay tool (\<open>tools/itch_parser.cpp\<close>): the callback that copies every added order into a
  pooled object and queues it at the engine of its symbol, and the run of a whole file.
\<close>

subsection \<open>Routing\<close>

text \<open>
  The static pool and the static vector of handles of the callback, with the store that the
  handles point into and the engines.  No handle is ever dropped.
\<close>

record ('p, 'o) replay_state =
  rp_store :: store
  rp_pool :: 'p
  rp_pending :: "addr list"
  rp_engines :: "'o symbol_engine list"

definition serves :: "order \<Rightarrow> 'o symbol_engine \<Rightarrow> bool" where
  "serves x e \<longleftrightarrow> cstr (ob_symbol (sy_order_book e)) = cstr (o_symbol x)"

text \<open>The first engine of the symbol takes the order; an exhausted pool is a null pointer.\<close>

fun offer_order ::
  "'p pool_ops \<Rightarrow> ('o, addr) queue_ops \<Rightarrow> order \<Rightarrow> store \<times> 'p \<times> addr list \<Rightarrow> 'o symbol_engine list
    \<Rightarrow> ((store \<times> 'p \<times> addr list) \<times> 'o symbol_engine list) res" where
  "offer_order P OQ x s [] = Inr (s, [])"
| "offer_order P OQ x (st, pool, kept) (e # es) =
     (if serves x e
      then case p_acquire P pool of
             (None, _) \<Rightarrow> Inl Null_Pointer
           | (Some a, pool1) \<Rightarrow>
               Inr ((st(a := x), pool1, kept @ [a]), snd (on_market_order OQ (Some a) e) # es)
      else res_bind (offer_order P OQ x (st, pool, kept) es) (\<lambda>(s1, es1). Inr (s1, e # es1)))"

definition route_order ::
  "'p pool_ops \<Rightarrow> ('o, addr) queue_ops \<Rightarrow> order \<Rightarrow> ('p, 'o) replay_state res \<Rightarrow> ('p, 'o) replay_state res" where
  "route_order P OQ x s =
     res_bind s (\<lambda>r. res_bind (offer_order P OQ x (rp_store r, rp_pool r, rp_pending r) (rp_engines r))
       (\<lambda>((st, pool, kept), es). Inr \<lparr>rp_store = st, rp_pool = pool, rp_pending = kept, rp_engines = es\<rparr>))"

definition replay_engines :: "'o \<Rightarrow> 'o symbol_engine list" where
  "replay_engines queue = [new_symbol_engine ''AAPL'' queue, new_symbol_engine ''MSFT'' queue,
     new_symbol_engine ''GOOGL'' queue, new_symbol_engine ''AMZN'' queue, new_symbol_engine ''META'' queue]"

definition replay_feed :: "'p pool_ops \<Rightarrow> ('o, addr) queue_ops \<Rightarrow> ('p, 'o) replay_state res feed" where
  "replay_feed P OQ = on_add_order (Some (route_order P OQ)) new_feed"

definition replay_start :: "'p \<Rightarrow> 'o \<Rightarrow> store \<Rightarrow> ('p, 'o) replay_state" where
  "replay_start pool queue st =
     \<lparr>rp_store = st, rp_pool = pool, rp_pending = [], rp_engines = replay_engines queue\<rparr>"

text \<open>After the file every engine runs one cycle.\<close>

fun cycle_engines ::
  "'p pool_ops \<Rightarrow> ('q, addr) queue_ops \<Rightarrow> ('o, addr) queue_ops \<Rightarrow> ('p, 'q) trading \<Rightarrow> 'o symbol_engine list
    \<Rightarrow> (('p, 'q) trading \<times> 'o symbol_engine list) res option" where
  "cycle_engines P Q OQ w [] = Some (Inr (w, []))"
| "cycle_engines P Q OQ w (e # es) =
     Option.bind (sy_run_match_cycle P Q OQ w e) (\<lambda>r. case r of Inl err \<Rightarrow> Some (Inl err)
       | Inr (w1, e1) \<Rightarrow> map_option (\<lambda>r1. res_bind r1 (\<lambda>(w2, es1). Inr (w2, e1 # es1)))
           (cycle_engines P Q OQ w1 es))"

text \<open>
  The whole tool on a file: the feed handler with the routing callback reads the buffers, then
  the engines run, with the risk manager, the gateway and the positions of \<open>w\<close>.
\<close>

definition replay_file ::
  "'p pool_ops \<Rightarrow> ('q, addr) queue_ops \<Rightarrow> ('o, addr) queue_ops \<Rightarrow> 'p \<Rightarrow> 'o \<Rightarrow> ('p, 'q) trading \<Rightarrow> u8 list
    \<Rightarrow> (('p, 'q) trading \<times> 'o symbol_engine list) res option" where
  "replay_file P Q OQ pool queue w file =
     (case replay buffer_size file (replay_feed P OQ, Inr (replay_start pool queue (tr_store w))) of
        Inl err \<Rightarrow> Some (Inl err)
      | Inr (_, Inl err) \<Rightarrow> Some (Inl err)
      | Inr (_, Inr r) \<Rightarrow> cycle_engines P Q OQ (w\<lparr>tr_store := rp_store r\<rparr>) (rp_engines r))"

text \<open>The line that is printed for each engine: symbol, counters, and the realized profit in dollars.\<close>

definition replay_stats :: "positions \<Rightarrow> 'o symbol_engine list \<Rightarrow> (string \<times> u64 \<times> u64 \<times> real) list" where
  "replay_stats m engines = map (\<lambda>e. let st = get_stats (sy_engine e) in (cstr (sy_symbol e),
     es_orders_matched st, es_orders_partially_filled st,
     real_of_int (get_realized_pnl m (sy_symbol e)) / 100)) engines"

subsection \<open>Every order reaches its engine\<close>

definition engine_queue :: "('o \<Rightarrow> addr list) \<Rightarrow> 'o symbol_engine \<Rightarrow> addr list" where
  "engine_queue contents e = contents (me_queue (sy_engine e))"

lemma engine_queue_push:
  assumes "spsc_queue OQ contents cap" "length (engine_queue contents e) < cap"
  shows "engine_queue contents (snd (on_market_order OQ (Some a) e)) = engine_queue contents e @ [a]"
    "serves x (snd (on_market_order OQ (Some a) e)) = serves x e"
  using spsc_queueD(2) [OF assms(1), of a "me_queue (sy_engine e)"] assms(2)
  by (auto simp: engine_queue_def on_market_order_def submit_order_def serves_def sy_order_book_def split: prod.splits)

text \<open>The orders that wait at an engine.\<close>

definition queued_orders :: "('o \<Rightarrow> addr list) \<Rightarrow> store \<Rightarrow> 'o symbol_engine \<Rightarrow> order list" where
  "queued_orders contents st e = map st (engine_queue contents e)"

definition replay_room :: "('p \<Rightarrow> addr set) \<Rightarrow> ('o \<Rightarrow> addr list) \<Rightarrow> nat \<Rightarrow> nat \<Rightarrow> ('p, 'o) replay_state \<Rightarrow> bool" where
  "replay_room free contents cap n r \<longleftrightarrow> finite (free (rp_pool r)) \<and> n \<le> card (free (rp_pool r)) \<and>
     (\<forall>e \<in> set (rp_engines r). length (engine_queue contents e) + n \<le> cap \<and>
        set (engine_queue contents e) \<inter> free (rp_pool r) = {})"

lemma offer_order_ok:
  assumes OQ: "spsc_queue OQ contents cap" and a: "p_acquire P pool = (Some a, pool1)"
    and d: "distinct (map (\<lambda>e. cstr (ob_symbol (sy_book e))) es)"
    and room: "\<forall>e \<in> set es. length (engine_queue contents e) < cap \<and> a \<notin> set (engine_queue contents e)"
  shows "\<exists>es'. offer_order P OQ x (st, pool, kept) es =
      Inr (if \<exists>e \<in> set es. serves x e then (st(a := x), pool1, kept @ [a]) else (st, pool, kept), es') \<and>
    list_all2 (\<lambda>e e'. sy_book e' = sy_book e \<and>
      engine_queue contents e' = engine_queue contents e @ (if serves x e then [a] else [])) es es'"
  using d room
proof (induction es)
  case (Cons e es)
  show ?case
  proof (cases "serves x e")
    case True
    have n: "\<not> serves x e'" if "e' \<in> set es" for e'
      using that True Cons.prems(1) by (force simp: serves_def sy_order_book_def)
    have b: "sy_book (snd (on_market_order OQ (Some a) e)) = sy_book e"
      by (simp add: on_market_order_def split: prod.split)
    have "list_all2 (\<lambda>e e'. sy_book e' = sy_book e \<and>
      engine_queue contents e' = engine_queue contents e @ (if serves x e then [a] else [])) es es"
      using n by (auto simp: list_all2_same)
    then show ?thesis
      using True Cons.prems(2) engine_queue_push(1) [OF OQ, of e a] b by (simp add: a)
  next
    case False
    with Cons obtain es' where "offer_order P OQ x (st, pool, kept) es =
      Inr (if \<exists>e \<in> set es. serves x e then (st(a := x), pool1, kept @ [a]) else (st, pool, kept), es')"
      "list_all2 (\<lambda>e e'. sy_book e' = sy_book e \<and>
        engine_queue contents e' = engine_queue contents e @ (if serves x e then [a] else [])) es es'"
      by auto
    with False show ?thesis by (intro exI [of _ "e # es'"]) simp
  qed
qed simp

lemma list_all2_mono':
  assumes "list_all2 R xs ys" "\<And>x y. x \<in> set xs \<Longrightarrow> R x y \<Longrightarrow> S x y"
  shows "list_all2 S xs ys"
  using assms by (auto simp: list_all2_conv_all_nth)

lemma list_all2_right: "list_all2 R xs ys \<Longrightarrow> y \<in> set ys \<Longrightarrow> \<exists>x \<in> set xs. R x y"
  by (induction rule: list_all2_induct) auto

lemma route_order_ok:
  assumes OQ: "spsc_queue OQ contents cap" and P: "object_pool P free"
    and d: "distinct (map (\<lambda>e. cstr (ob_symbol (sy_book e))) (rp_engines r))"
    and room: "replay_room free contents cap (Suc n) r"
  obtains r' where "route_order P OQ x (Inr r) = Inr r'" "replay_room free contents cap n r'"
    "list_all2 (\<lambda>e e'. sy_book e' = sy_book e \<and> queued_orders contents (rp_store r') e' =
       queued_orders contents (rp_store r) e @ filter (\<lambda>x. serves x e) [x]) (rp_engines r) (rp_engines r')"
proof -
  obtain a pool where acq: "p_acquire P (rp_pool r) = (Some a, pool)"
    using object_poolD(3) [OF P] room
    by (cases "p_acquire P (rp_pool r)"; cases "fst (p_acquire P (rp_pool r))") (auto simp: replay_room_def)
  note a = object_poolD(1,2) [OF P acq]
  have q: "\<forall>e \<in> set (rp_engines r). length (engine_queue contents e) < cap \<and> a \<notin> set (engine_queue contents e)"
    using room a(1) by (auto simp: replay_room_def)
  let ?served = "\<exists>e \<in> set (rp_engines r). serves x e"
  obtain es where es: "offer_order P OQ x (rp_store r, rp_pool r, rp_pending r) (rp_engines r) =
      Inr (if ?served then ((rp_store r)(a := x), pool, rp_pending r @ [a])
           else (rp_store r, rp_pool r, rp_pending r), es)"
    "list_all2 (\<lambda>e e'. sy_book e' = sy_book e \<and>
       engine_queue contents e' = engine_queue contents e @ (if serves x e then [a] else [])) (rp_engines r) es"
    using offer_order_ok [OF OQ acq d q] by blast
  define r' where "r' = (if ?served then r\<lparr>rp_store := (rp_store r)(a := x), rp_pool := pool,
      rp_pending := rp_pending r @ [a], rp_engines := es\<rparr> else r\<lparr>rp_engines := es\<rparr>)"
  have route: "route_order P OQ x (Inr r) = Inr r'"
    by (simp add: route_order_def es(1) r'_def)
  have engines: "rp_engines r' = es" by (simp add: r'_def)
  have e': "length (engine_queue contents e') + n \<le> cap \<and>
      set (engine_queue contents e') \<inter> free (rp_pool r') = {}" if e': "e' \<in> set es" for e'
  proof -
    obtain e where e: "e \<in> set (rp_engines r)"
      "engine_queue contents e' = engine_queue contents e @ (if serves x e then [a] else [])"
      using list_all2_right [OF es(2) e'] by blast
    show ?thesis using e room a by (auto simp: replay_room_def r'_def)
  qed
  moreover have "finite (free (rp_pool r')) \<and> n \<le> card (free (rp_pool r'))"
    using room a by (auto simp: replay_room_def r'_def card_Diff_singleton)
  ultimately have room': "replay_room free contents cap n r'"
    by (simp add: replay_room_def engines)
  have "list_all2 (\<lambda>e e'. sy_book e' = sy_book e \<and> queued_orders contents (rp_store r') e' =
       queued_orders contents (rp_store r) e @ filter (\<lambda>x. serves x e) [x]) (rp_engines r) es"
  proof (rule list_all2_mono' [OF es(2)])
    fix e e' assume e: "e \<in> set (rp_engines r)" and
      step: "sy_book e' = sy_book e \<and>
        engine_queue contents e' = engine_queue contents e @ (if serves x e then [a] else [])"
    have "map (rp_store r') (engine_queue contents e) = map (rp_store r) (engine_queue contents e)"
      using e q by (auto simp: r'_def)
    with step e show "sy_book e' = sy_book e \<and> queued_orders contents (rp_store r') e' =
       queued_orders contents (rp_store r) e @ filter (\<lambda>x. serves x e) [x]"
      by (auto simp: queued_orders_def r'_def)
  qed
  then show thesis by (intro that [OF route room']) (simp only: engines)
qed

lemma same_books:
  assumes "list_all2 R es es'" "\<And>e e'. R e e' \<Longrightarrow> sy_book e' = sy_book e"
  shows "map sy_book es' = map sy_book es"
  using assms by (induction rule: list_all2_induct) auto

lemma route_orders_ok:
  assumes OQ: "spsc_queue OQ contents cap" and P: "object_pool P free"
  shows "\<lbrakk>distinct (map (\<lambda>b. cstr (ob_symbol b)) (map sy_book (rp_engines r)));
      replay_room free contents cap (length xs) r\<rbrakk>
    \<Longrightarrow> \<exists>r'. fold (route_order P OQ) xs (Inr r) = Inr r' \<and>
      list_all2 (\<lambda>e e'. sy_book e' = sy_book e \<and> queued_orders contents (rp_store r') e' =
        queued_orders contents (rp_store r) e @ filter (\<lambda>x. serves x e) xs) (rp_engines r) (rp_engines r')"
proof (induction xs arbitrary: r)
  case (Cons x xs)
  obtain r1 where r1: "route_order P OQ x (Inr r) = Inr r1" "replay_room free contents cap (length xs) r1"
    "list_all2 (\<lambda>e e'. sy_book e' = sy_book e \<and> queued_orders contents (rp_store r1) e' =
       queued_orders contents (rp_store r) e @ filter (\<lambda>x. serves x e) [x]) (rp_engines r) (rp_engines r1)"
    using route_order_ok [OF OQ P, of r "length xs" x] Cons.prems by (auto simp: comp_def)
  have "map sy_book (rp_engines r1) = map sy_book (rp_engines r)" by (rule same_books [OF r1(3)]) simp
  then obtain r2 where r2: "fold (route_order P OQ) xs (Inr r1) = Inr r2"
    "list_all2 (\<lambda>e e'. sy_book e' = sy_book e \<and> queued_orders contents (rp_store r2) e' =
        queued_orders contents (rp_store r1) e @ filter (\<lambda>x. serves x e) xs) (rp_engines r1) (rp_engines r2)"
    using Cons.IH [of r1] Cons.prems(1) r1(2) by auto
  have "list_all2 (\<lambda>e e'. sy_book e' = sy_book e \<and> queued_orders contents (rp_store r2) e' =
        queued_orders contents (rp_store r) e @ filter (\<lambda>x. serves x e) (x # xs)) (rp_engines r) (rp_engines r2)"
    by (rule list_all2_trans [OF _ r1(3) r2(2)]) (auto simp: serves_def sy_order_book_def)
  then show ?case using r1(1) r2(1) by auto
qed (auto simp: list_all2_same)

text \<open>The orders that a file of messages adds, as the handler hands them to the callback.\<close>

definition added_orders :: "itch_message list \<Rightarrow> order list" where
  "added_orders ms = concat (map (\<lambda>m. case m of
     Add_Msg i symbol side price q \<Rightarrow> [written_order i symbol side price q] | Cancel_Msg i \<Rightarrow> []) ms)"

lemma fold_deliver_callback:
  assumes "fh_on_add_order f = [Some cb]" "fh_on_cancel_order f = []"
  shows "snd (fold deliver ms (f, s)) = fold cb (added_orders ms) s"
  using assms
proof (induction ms arbitrary: f s)
  case (Cons m ms)
  then show ?case
    by (cases m) (simp_all add: count_message_def call_all_def added_orders_def)
qed (simp add: added_orders_def)

lemma replay_short:
  assumes "length file \<le> n" "file \<noteq> []"
  shows "replay n file fs = process (Some file) fs"
proof -
  have "replay n [] x = Inr x" for x :: "'a feed \<times> 'a" by (subst replay.simps) simp
  moreover have "0 < n" using assms by (metis length_0_conv le_zero_eq not_gr_zero)
  ultimately show ?thesis
    using assms by (subst replay.simps) (cases "process (Some file) fs"; simp)
qed

lemma replay_symbols:
  "map (\<lambda>e. cstr (sy_symbol e)) (replay_engines queue) = [''AAPL'', ''MSFT'', ''GOOGL'', ''AMZN'', ''META'']"
  by (simp add: replay_engines_def sy_symbol_def new_symbol_engine_def new_book_def strncpy_def cstr_def zero_symbol_def NUL_def)

lemma length_added_orders: "length (added_orders ms) \<le> length ms"
  by (induction ms) (simp_all add: added_orders_def split: itch_message.split)

text \<open>
  C22: from the file to the engines.  When a file of valid messages fits one buffer and the pool
  has an object for every message, the replay tool reads it without an error and queues the
  added orders at the engines: each of the five engines ends with exactly the orders of its
  symbol, in the order of the file, and orders of other symbols are dropped.
\<close>

theorem replayed_orders_reach_their_engine:
  assumes "spsc_queue OQ contents cap" "object_pool P free" "contents queue = []"
    "\<forall>m \<in> set ms. valid_message m" "file = concat (map encode ms)" "length file \<le> buffer_size" "file \<noteq> []"
    "finite (free pool)" "length ms \<le> card (free pool)" "length ms \<le> cap"
  shows "\<exists>f r. replay buffer_size file (replay_feed P OQ, Inr (replay_start pool queue st)) = Inr (f, Inr r) \<and>
    fh_error_count f = 0 \<and>
    map (\<lambda>e. (cstr (sy_symbol e), queued_orders contents (rp_store r) e)) (rp_engines r) =
    map (\<lambda>s. (s, filter (\<lambda>x. cstr (o_symbol x) = s) (added_orders ms)))
      [''AAPL'', ''MSFT'', ''GOOGL'', ''AMZN'', ''META'']"
proof -
  let ?f = "replay_feed P OQ" and ?r = "replay_start pool queue st"
  have read: "replay buffer_size file (?f, Inr ?r) = Inr (fold deliver ms (?f, Inr ?r))"
    using replay_short [OF assms(6,7), of "(?f, Inr ?r)"] process_messages [OF assms(4), of "[]" "(?f, Inr ?r)"]
    by (simp add: process_some process_loop.simps [of "[]"] assms(5))
  have routed: "snd (fold deliver ms (?f, Inr ?r)) = fold (route_order P OQ) (added_orders ms) (Inr ?r)"
    by (rule fold_deliver_callback) (simp_all add: replay_feed_def on_add_order_def new_feed_def)
  have errors: "fh_error_count (fst (fold deliver ms (?f, Inr ?r))) = 0"
    by (simp add: fold_deliver_counts replay_feed_def on_add_order_def new_feed_def)
  have "replay_room free contents cap (length (added_orders ms)) ?r"
    using assms(3,8-10) length_added_orders [of ms]
    by (auto simp: replay_room_def replay_start_def replay_engines_def engine_queue_def new_symbol_engine_def new_engine_def)
  moreover have e: "rp_engines ?r = replay_engines queue" by (simp add: replay_start_def)
  have "map (\<lambda>b. cstr (ob_symbol b)) (map sy_book (rp_engines ?r)) = [''AAPL'', ''MSFT'', ''GOOGL'', ''AMZN'', ''META'']"
    using replay_symbols [of queue] by (simp add: sy_symbol_def e comp_def)
  then have "distinct (map (\<lambda>b. cstr (ob_symbol b)) (map sy_book (rp_engines ?r)))" by simp
  ultimately obtain r' where r': "fold (route_order P OQ) (added_orders ms) (Inr ?r) = Inr r'"
    "list_all2 (\<lambda>e e'. sy_book e' = sy_book e \<and> queued_orders contents (rp_store r') e' =
      queued_orders contents (rp_store ?r) e @ filter (\<lambda>x. serves x e) (added_orders ms)) (rp_engines ?r) (rp_engines r')"
    using route_orders_ok [OF assms(1,2), of ?r "added_orders ms"] by blast
  have old: "queued_orders contents (rp_store ?r) e = []" if "e \<in> set (replay_engines queue)" for e
    using that assms(3)
    by (auto simp: replay_engines_def queued_orders_def engine_queue_def new_symbol_engine_def new_engine_def)
  have "map (\<lambda>e. (cstr (sy_symbol e), queued_orders contents (rp_store r') e)) (rp_engines r') =
      map (\<lambda>e. (cstr (sy_symbol e), filter (\<lambda>x. serves x e) (added_orders ms))) (replay_engines queue)"
    using r'(2) old unfolding e by (auto simp: list_all2_conv_all_nth sy_symbol_def intro!: nth_equalityI)
  also have "\<dots> = map (\<lambda>s. (s, filter (\<lambda>x. cstr (o_symbol x) = s) (added_orders ms)))
      (map (\<lambda>e. cstr (sy_symbol e)) (replay_engines queue))"
    by (simp add: serves_def sy_order_book_def sy_symbol_def eq_commute)
  finally show ?thesis
    using read routed errors r'(1) unfolding replay_symbols
    by (intro exI [of _ "fst (fold deliver ms (?f, Inr ?r))"] exI [of _ r']) (simp add: prod_eq_iff)
qed

theorem replayed_orders_reach_their_engine_witness:
  "\<exists>f r. replay buffer_size (concat (map encode [Add_Msg 7 ''AAPL'' CHR ''B'' 17500 100,
        Add_Msg 8 ''MSFT'' CHR ''S'' 33000 50, Cancel_Msg 7, Add_Msg 9 ''AAPL'' CHR ''S'' 17600 20]))
      (replay_feed stack_pool (list_queue 65535), Inr (replay_start [1, 2, 3, 4] [] (\<lambda>_. default_order)))
      = Inr (f, Inr r) \<and> fh_error_count f = 0 \<and>
    map (\<lambda>e. map o_order_id (queued_orders (\<lambda>q. q) (rp_store r) e)) (rp_engines r) = [[7, 9], [8], [], [], []]"
proof -
  let ?ms = "[Add_Msg 7 ''AAPL'' CHR ''B'' 17500 100, Add_Msg 8 ''MSFT'' CHR ''S'' 33000 50, Cancel_Msg 7,
    Add_Msg 9 ''AAPL'' CHR ''S'' 17600 20]"
  let ?file = "concat (map encode ?ms)"
  have v: "\<forall>m \<in> set ?ms. valid_message m" by (simp add: sample_symbols)
  have n: "length ?file = 128" by simp
  have l: "length ?file \<le> buffer_size" by (simp only: n buffer_size_def)
  have e: "?file \<noteq> []" using n by (metis list.size(3) zero_neq_numeral)
  have o: "map (\<lambda>x. (o_order_id x, cstr (o_symbol x))) (added_orders ?ms) = [(7, ''AAPL''), (8, ''MSFT''), (9, ''AAPL'')]"
    by (simp add: added_orders_def written_order_def strncpy_def cstr_def zero_symbol_def NUL_def)
  obtain f r where r: "replay buffer_size ?file (replay_feed stack_pool (list_queue 65535),
      Inr (replay_start [1, 2, 3, 4] [] (\<lambda>_. default_order))) = Inr (f, Inr r)" "fh_error_count f = 0"
    "map (\<lambda>e. (cstr (sy_symbol e), queued_orders (\<lambda>q. q) (rp_store r) e)) (rp_engines r) =
     map (\<lambda>s. (s, filter (\<lambda>x. cstr (o_symbol x) = s) (added_orders ?ms)))
      [''AAPL'', ''MSFT'', ''GOOGL'', ''AMZN'', ''META'']"
    using replayed_orders_reach_their_engine [OF list_queue_ok stack_pool_ok refl v refl l e, of "[1, 2, 3, 4]" 65535 "\<lambda>_. default_order"] by force
  have "map (\<lambda>e. map o_order_id (queued_orders (\<lambda>q. q) (rp_store r) e)) (rp_engines r) = [[7, 9], [8], [], [], []]"
    using arg_cong [OF r(3), of "map (\<lambda>p. map o_order_id (snd p))"] o by (auto simp: comp_def)
  then show ?thesis using r(1,2) by (intro exI conjI)
qed

text \<open>
  No handle is dropped while the tool runs, so after as many orders as the pool has objects the
  next order of a known symbol goes through a null pointer.
\<close>

lemma replay_exhausts_the_pool:
  assumes "object_pool P free" "free (rp_pool r) = {}" "\<exists>e \<in> set (rp_engines r). serves x e"
  shows "route_order P OQ x (Inr r) = Inl Null_Pointer"
proof -
  have "fst (p_acquire P (rp_pool r)) = None"
    using object_poolD(1) [OF assms(1)] assms(2)
    by (cases "p_acquire P (rp_pool r)"; cases "fst (p_acquire P (rp_pool r))") fastforce+
  then obtain pool where a: "p_acquire P (rp_pool r) = (None, pool)" by (metis prod.collapse)
  have "offer_order P OQ x (st, rp_pool r, kept) es = Inl Null_Pointer" if "\<exists>e \<in> set es. serves x e" for st kept es
    using that
  proof (induction es)
    case (Cons e es)
    then show ?case by (cases "serves x e") (simp_all add: a)
  qed simp
  with assms(3) show ?thesis by (simp add: route_order_def)
qed

end
