(* ===== verification/Decimal.thy ===== *)
theory Decimal
  imports Velox_Prelude
begin

text \<open>
  The number conversions of the C++ standard library that the code uses: \<open>std::to_string\<close> and
  stream output of integers, and \<open>std::stoi\<close>, \<open>std::stoul\<close>, \<open>std::stoull\<close>, \<open>std::stoll\<close> with
  the exceptions they throw.  (\<open>unsigned long\<close> has 64 bits, as on LP64 systems.)
\<close>

subsection \<open>Writing numbers\<close>

definition digit_char :: "nat \<Rightarrow> char" where
  "digit_char d = char_of (48 + d)"

fun nat_to_string :: "nat \<Rightarrow> string" where
  "nat_to_string n =
     (if n < 10 then [digit_char n] else nat_to_string (n div 10) @ [digit_char (n mod 10)])"

declare nat_to_string.simps [simp del]

definition int_to_string :: "int \<Rightarrow> string" where
  "int_to_string i = (if i < 0 then CHR ''-'' # nat_to_string (nat (- i)) else nat_to_string (nat i))"

definition word_to_string :: "'a::len word \<Rightarrow> string" where
  "word_to_string w = nat_to_string (unat w)"

subsection \<open>Reading numbers\<close>

definition digit_value :: "char \<Rightarrow> nat" where
  "digit_value c = of_char c - 48"

definition is_digit :: "char \<Rightarrow> bool" where
  "is_digit c \<longleftrightarrow> 48 \<le> (of_char c :: nat) \<and> (of_char c :: nat) \<le> 57"

definition is_space :: "char \<Rightarrow> bool" where
  "is_space c \<longleftrightarrow> c = CHR '' '' \<or> (9 \<le> (of_char c :: nat) \<and> (of_char c :: nat) \<le> 13)"

definition read_digits :: "string \<Rightarrow> nat" where
  "read_digits ds = foldl (\<lambda>n c. 10 * n + digit_value c) 0 ds"

text \<open>
  What \<open>strtol\<close> and its relatives read: white space, an optional sign and digits, as far as
  they go; no digit is no conversion.
\<close>

definition read_sign :: "string \<Rightarrow> bool \<times> string" where
  "read_sign s =
     (case s of [] \<Rightarrow> (False, [])
      | c # cs \<Rightarrow> if c = CHR ''-'' then (True, cs) else if c = CHR ''+'' then (False, cs) else (False, s))"

definition read_number :: "string \<Rightarrow> (bool \<times> nat) option" where
  "read_number s =
     (case read_sign (dropWhile is_space s) of (neg, t) \<Rightarrow>
        let ds = takeWhile is_digit t in if ds = [] then None else Some (neg, read_digits ds))"

datatype conversion_error = Invalid_Argument | Out_Of_Range

definition signed_value :: "bool \<Rightarrow> nat \<Rightarrow> int" where
  "signed_value neg n = (if neg then - int n else int n)"

definition stoi :: "string \<Rightarrow> conversion_error + int" where
  "stoi s = (case read_number s of None \<Rightarrow> Inl Invalid_Argument
     | Some (neg, n) \<Rightarrow>
         let v = signed_value neg n
         in if - (2 ^ 31) \<le> v \<and> v < 2 ^ 31 then Inr v else Inl Out_Of_Range)"

definition stoll :: "string \<Rightarrow> conversion_error + i64" where
  "stoll s = (case read_number s of None \<Rightarrow> Inl Invalid_Argument
     | Some (neg, n) \<Rightarrow>
         let v = signed_value neg n in if in_i64 v then Inr v else Inl Out_Of_Range)"

text \<open>The unsigned conversions negate modulo \<open>2 ^ 64\<close> after a minus sign.\<close>

definition stoull :: "string \<Rightarrow> conversion_error + u64" where
  "stoull s = (case read_number s of None \<Rightarrow> Inl Invalid_Argument
     | Some (neg, n) \<Rightarrow>
         if n < 2 ^ 64 then Inr (word_of_int (signed_value neg n)) else Inl Out_Of_Range)"

abbreviation stoul :: "string \<Rightarrow> conversion_error + u64" where
  "stoul \<equiv> stoull"

subsection \<open>Reading back what was written\<close>

lemma digit_char [simp]:
  "d < 10 \<Longrightarrow> is_digit (digit_char d)" "d < 10 \<Longrightarrow> digit_value (digit_char d) = d"
  by (simp_all add: digit_char_def is_digit_def digit_value_def)

lemma nat_to_string_digits: "c \<in> set (nat_to_string n) \<Longrightarrow> is_digit c"
proof (induction n rule: nat_to_string.induct)
  case (1 n)
  then show ?case by (subst (asm) nat_to_string.simps) (auto split: if_splits)
qed

lemma takeWhile_to_string [simp]: "takeWhile is_digit (nat_to_string n) = nat_to_string n"
  using nat_to_string_digits by (simp add: takeWhile_eq_all_conv)

lemma nat_to_string_nonempty [simp]: "nat_to_string n \<noteq> []"
  by (subst nat_to_string.simps) simp

lemma read_digits_snoc: "read_digits (ds @ [c]) = 10 * read_digits ds + digit_value c"
  by (simp add: read_digits_def)

lemma read_digits_to_string [simp]: "read_digits (nat_to_string n) = n"
proof (induction n rule: nat_to_string.induct)
  case (1 n)
  show ?case
  proof (cases "n < 10")
    case True
    then show ?thesis by (subst nat_to_string.simps) (simp add: read_digits_def)
  next
    case False
    then have "read_digits (nat_to_string n) = 10 * (n div 10) + n mod 10"
      using 1 by (subst nat_to_string.simps) (simp add: read_digits_snoc)
    then show ?thesis by simp
  qed
qed

lemma digit_not_sign: "is_digit c \<Longrightarrow> c \<noteq> CHR ''-'' \<and> c \<noteq> CHR ''+'' \<and> \<not> is_space c"
  by (auto simp: is_digit_def is_space_def)

lemma read_number_to_string: "read_number (nat_to_string n) = Some (False, n)"
proof -
  obtain c cs where c: "nat_to_string n = c # cs"
    using nat_to_string_nonempty [of n] by (cases "nat_to_string n") auto
  then have "is_digit c" using nat_to_string_digits [of c n] by simp
  then have "dropWhile is_space (nat_to_string n) = nat_to_string n"
    "read_sign (nat_to_string n) = (False, nat_to_string n)"
    using digit_not_sign [of c] by (simp_all add: c read_sign_def)
  then show ?thesis by (simp add: read_number_def Let_def)
qed

lemma read_number_negative: "read_number (CHR ''-'' # nat_to_string n) = Some (True, n)"
  by (simp add: read_number_def read_sign_def is_space_def Let_def)

lemma stoull_word [simp]: "stoull (word_to_string (w :: u64)) = Inr w"
  using unsigned_less [of w]
  by (simp add: stoull_def word_to_string_def read_number_to_string signed_value_def)

lemma stoll_int [simp]: "in_i64 i \<Longrightarrow> stoll (int_to_string i) = Inr i"
  by (simp add: stoll_def int_to_string_def read_number_to_string read_number_negative signed_value_def)

lemma stoi_nat [simp]: "n < 2 ^ 31 \<Longrightarrow> stoi (nat_to_string n) = Inr (int n)"
  by (simp add: stoi_def read_number_to_string signed_value_def)

lemma to_string_clean:
  assumes "c \<in> set (int_to_string i)"
  shows "is_digit c \<or> c = CHR ''-''"
  using assms nat_to_string_digits by (auto simp: int_to_string_def split: if_splits)

end
