(* ===== verification/Fix_Encoder.thy ===== *)
theory Fix_Encoder
  imports Execution_Gateway Decimal
begin

text \<open>
  The FIX 4.2 encoder (\<open>include/velox/gateway/fix_encoder.hpp\<close>, \<open>src/gateway/fix_encoder.cpp\<close>).
  The header declares the same \<open>ExecutionReport\<close> as the gateway's, so the record is shared.
\<close>

record fix_encoder =
  fx_sender :: string
  fx_target :: string
  fx_seq_num :: int

definition new_fix_encoder :: fix_encoder where
  "new_fix_encoder = \<lparr>fx_sender = ''SENDER'', fx_target = ''TARGET'', fx_seq_num = 1\<rparr>"

definition TAG_BEGIN_STRING :: int where "TAG_BEGIN_STRING = 8"
definition TAG_BODY_LENGTH :: int where "TAG_BODY_LENGTH = 9"
definition TAG_MSG_TYPE :: int where "TAG_MSG_TYPE = 35"
definition TAG_ORDER_ID :: int where "TAG_ORDER_ID = 37"
definition TAG_CL_ORD_ID :: int where "TAG_CL_ORD_ID = 11"
definition TAG_SYMBOL :: int where "TAG_SYMBOL = 55"
definition TAG_SIDE :: int where "TAG_SIDE = 54"
definition TAG_ORDER_QTY :: int where "TAG_ORDER_QTY = 38"
definition TAG_PRICE :: int where "TAG_PRICE = 44"
definition TAG_ORD_TYPE :: int where "TAG_ORD_TYPE = 40"
definition TAG_EXEC_QTY :: int where "TAG_EXEC_QTY = 32"
definition TAG_LAST_PX :: int where "TAG_LAST_PX = 31"

lemmas tag_defs = TAG_BEGIN_STRING_def TAG_BODY_LENGTH_def TAG_MSG_TYPE_def TAG_ORDER_ID_def
  TAG_CL_ORD_ID_def TAG_SYMBOL_def TAG_SIDE_def TAG_ORDER_QTY_def TAG_PRICE_def TAG_ORD_TYPE_def
  TAG_EXEC_QTY_def TAG_LAST_PX_def

definition SOH :: char where
  "SOH = CHR 0x01"

text \<open>\<open>std::to_string(TAG) + "=" + value + "\x01"\<close>.\<close>

definition tagged :: "int \<Rightarrow> string \<Rightarrow> string" where
  "tagged tag v = int_to_string tag @ ''='' @ v @ [SOH]"

subsection \<open>Encoding\<close>

definition calculate_checksum :: "string \<Rightarrow> u32" where
  "calculate_checksum message = foldl (\<lambda>sum c. sum + ucast (of_char c :: u8)) 0 message mod 256"

definition make_header :: "char \<Rightarrow> fix_encoder \<Rightarrow> string \<times> fix_encoder" where
  "make_header msg_type e =
     (tagged TAG_BEGIN_STRING ''FIX.4.2'' @ tagged TAG_MSG_TYPE [msg_type] @
      ''49='' @ fx_sender e @ [SOH] @ ''56='' @ fx_target e @ [SOH] @
      ''34='' @ int_to_string (fx_seq_num e) @ [SOH],
      e\<lparr>fx_seq_num := s32 (fx_seq_num e + 1)\<rparr>)"

definition make_trailer :: "string \<Rightarrow> string" where
  "make_trailer body =
     (let body_len = (of_nat (length body) :: u32);
          trailer = tagged TAG_BODY_LENGTH (word_to_string body_len);
          checksum = calculate_checksum (trailer @ body)
      in trailer @ ''10='' @ word_to_string checksum @ [SOH])"

definition new_order_body :: "order \<Rightarrow> string" where
  "new_order_body x =
     tagged TAG_CL_ORD_ID (word_to_string (o_client_order_id x)) @
     tagged TAG_SYMBOL (cstr (o_symbol x)) @
     tagged TAG_SIDE (if is_buy x then ''1'' else ''2'') @
     tagged TAG_ORDER_QTY (word_to_string (o_quantity x)) @
     tagged TAG_ORD_TYPE (if is_limit x then ''2'' else ''1'') @
     (if is_limit x then tagged TAG_PRICE (int_to_string (o_price x)) else [])"

definition encode_new_order :: "order option \<Rightarrow> fix_encoder \<Rightarrow> (string \<times> fix_encoder) res" where
  "encode_new_order p e =
     (case p of None \<Rightarrow> Inl Null_Pointer
      | Some x \<Rightarrow>
          (case make_header CHR ''D'' e of (header, e1) \<Rightarrow>
             Inr (header @ new_order_body x @ make_trailer (new_order_body x), e1)))"

definition cancel_body :: "u64 \<Rightarrow> string \<Rightarrow> string" where
  "cancel_body order_id symbol =
     tagged TAG_ORDER_ID (word_to_string order_id) @ tagged TAG_SYMBOL (cstr symbol)"

definition encode_cancel_order :: "u64 \<Rightarrow> string \<Rightarrow> fix_encoder \<Rightarrow> string \<times> fix_encoder" where
  "encode_cancel_order order_id symbol e =
     (case make_header CHR ''F'' e of (header, e1) \<Rightarrow>
        (header @ cancel_body order_id symbol @ make_trailer (cancel_body order_id symbol), e1))"

subsection \<open>Decoding\<close>

text \<open>The \<open>switch\<close>; a conversion that throws leaves the report as it is.\<close>

definition decode_field :: "int \<Rightarrow> string \<Rightarrow> exec_report \<Rightarrow> conversion_error + exec_report" where
  "decode_field tag v report =
     (if tag = TAG_ORDER_ID then map_sum id (\<lambda>i. report\<lparr>er_order_id := i\<rparr>) (stoull v)
      else if tag = TAG_CL_ORD_ID then map_sum id (\<lambda>i. report\<lparr>er_client_order_id := i\<rparr>) (stoull v)
      else if tag = TAG_EXEC_QTY
      then map_sum id (\<lambda>q. report\<lparr>er_executed_quantity := ucast q\<rparr>) (stoul v)
      else if tag = TAG_LAST_PX then map_sum id (\<lambda>px. report\<lparr>er_executed_price := px\<rparr>) (stoll v)
      else Inr report)"

text \<open>
  The loop over the fields, on the rest of the message from \<open>pos\<close>.  The report is passed by
  reference, so it keeps what was decoded before an exception.
\<close>

function decode_loop :: "string \<Rightarrow> exec_report \<Rightarrow> exec_report \<times> conversion_error option" where
  "decode_loop msg report =
     (let key = takeWhile (\<lambda>c. c \<noteq> CHR ''='') msg; after = drop (Suc (length key)) msg
      in if CHR ''='' \<notin> set msg then (report, None)
         else case stoi key of Inl err \<Rightarrow> (report, Some err)
           | Inr tag \<Rightarrow>
               let v = takeWhile (\<lambda>c. c \<noteq> SOH) after
               in if SOH \<notin> set after then (report, None)
                  else case decode_field tag v report of Inl err \<Rightarrow> (report, Some err)
                    | Inr report1 \<Rightarrow> decode_loop (drop (Suc (length v)) after) report1)"
  by pat_completeness auto

termination
  by (relation "measure (\<lambda>(msg, report). length msg)") (auto simp: Let_def intro!: diff_less dest: length_pos_if_in_set)

declare decode_loop.simps [simp del]

text \<open>The result is always \<open>true\<close>, unless an exception is thrown.\<close>

definition decode_execution_report ::
  "string \<Rightarrow> exec_report \<Rightarrow> exec_report \<times> (conversion_error + bool)" where
  "decode_execution_report fix_message report =
     (case decode_loop fix_message report of
        (r, None) \<Rightarrow> (r, Inr True) | (r, Some err) \<Rightarrow> (r, Inl err))"

subsection \<open>One field\<close>

lemma number_clean:
  "SOH \<notin> set (nat_to_string n)" "CHR ''='' \<notin> set (nat_to_string n)"
  "SOH \<notin> set (word_to_string w)" "SOH \<notin> set (int_to_string i)"
  using nat_to_string_digits [of SOH n] nat_to_string_digits [of "CHR ''=''" n]
    nat_to_string_digits [of SOH "unat w"] to_string_clean [of SOH i]
  by (auto simp: is_digit_def SOH_def word_to_string_def)

lemma decode_tagged:
  assumes "0 \<le> tag" "tag < 2 ^ 31" "SOH \<notin> set v"
  shows "decode_loop (tagged tag v @ rest) report =
    (case decode_field tag v report of Inl err \<Rightarrow> (report, Some err) | Inr r \<Rightarrow> decode_loop rest r)"
proof -
  let ?k = "nat_to_string (nat tag)"
  define m where "m = tagged tag v @ rest"
  have m: "m = ?k @ CHR ''='' # v @ SOH # rest"
    using assms(1) by (simp add: m_def tagged_def int_to_string_def)
  have key: "takeWhile (\<lambda>c. c \<noteq> CHR ''='') m = ?k"
    unfolding m using number_clean(2) by (subst takeWhile_append2) auto
  have after: "drop (Suc (length ?k)) m = v @ SOH # rest" by (simp add: m)
  have val: "takeWhile (\<lambda>c. c \<noteq> SOH) (v @ SOH # rest) = v"
    using assms(3) by (subst takeWhile_append2) auto
  have "stoi ?k = Inr tag" using assms(1,2) by simp
  moreover have "CHR ''='' \<in> set m" by (simp add: m)
  ultimately show ?thesis
    unfolding m_def [symmetric]
    by (subst decode_loop.simps) (simp add: Let_def key after val split: sum.split)
qed

lemma decode_end: "decode_loop [] report = (report, None)"
  by (simp add: decode_loop.simps)

lemma small_tags: "int_to_string 49 = ''49''" "int_to_string 56 = ''56''" "int_to_string 34 = ''34''"
  "int_to_string 10 = ''10''"
  by (simp_all add: int_to_string_def nat_to_string.simps digit_char_def char_of_def bit_Suc_0_iff)

text \<open>A message as the sequence of its fields.\<close>

definition fix_message :: "(int \<times> string) list \<Rightarrow> string" where
  "fix_message fs = concat (map (\<lambda>(tag, v). tagged tag v) fs)"

fun decode_fields :: "(int \<times> string) list \<Rightarrow> exec_report \<Rightarrow> exec_report \<times> conversion_error option" where
  "decode_fields [] report = (report, None)"
| "decode_fields ((tag, v) # fs) report =
     (case decode_field tag v report of Inl err \<Rightarrow> (report, Some err) | Inr r \<Rightarrow> decode_fields fs r)"

definition clean_fields :: "(int \<times> string) list \<Rightarrow> bool" where
  "clean_fields fs \<longleftrightarrow> (\<forall>(tag, v) \<in> set fs. 0 \<le> tag \<and> tag < 2 ^ 31 \<and> SOH \<notin> set v)"

lemma decode_fix_message:
  assumes "clean_fields fs"
  shows "decode_loop (fix_message fs) report = decode_fields fs report"
  using assms
proof (induction fs arbitrary: report)
  case (Cons x fs)
  obtain tag v where x: "x = (tag, v)" by (cases x)
  have "fix_message (x # fs) = tagged tag v @ fix_message fs" by (simp add: fix_message_def x)
  then show ?case
    using Cons decode_tagged [of tag v "fix_message fs" report]
    by (simp add: x clean_fields_def split: sum.split)
qed (simp add: fix_message_def decode_end)

definition header_fields :: "char \<Rightarrow> fix_encoder \<Rightarrow> (int \<times> string) list" where
  "header_fields c e = [(8, ''FIX.4.2''), (35, [c]), (49, fx_sender e), (56, fx_target e),
     (34, int_to_string (fx_seq_num e))]"

definition order_fields :: "order \<Rightarrow> (int \<times> string) list" where
  "order_fields x = [(11, word_to_string (o_client_order_id x)), (55, cstr (o_symbol x)),
     (54, if is_buy x then ''1'' else ''2''), (38, word_to_string (o_quantity x)),
     (40, if is_limit x then ''2'' else ''1'')] @
     (if is_limit x then [(44, int_to_string (o_price x))] else [])"

definition cancel_fields :: "u64 \<Rightarrow> string \<Rightarrow> (int \<times> string) list" where
  "cancel_fields order_id symbol = [(37, word_to_string order_id), (55, cstr symbol)]"

definition trailer_fields :: "string \<Rightarrow> (int \<times> string) list" where
  "trailer_fields body = [(9, word_to_string (of_nat (length body) :: u32)),
     (10, word_to_string (calculate_checksum (tagged 9 (word_to_string (of_nat (length body) :: u32)) @ body)))]"

lemma fix_message_append: "fix_message (xs @ ys) = fix_message xs @ fix_message ys"
  by (simp add: fix_message_def)

definition encoder_ok :: "fix_encoder \<Rightarrow> bool" where
  "encoder_ok e \<longleftrightarrow> SOH \<notin> set (fx_sender e) \<and> SOH \<notin> set (fx_target e)"

lemma fields_clean:
  "clean_fields (xs @ ys) \<longleftrightarrow> clean_fields xs \<and> clean_fields ys"
  "encoder_ok e \<Longrightarrow> c \<noteq> SOH \<Longrightarrow> clean_fields (header_fields c e)"
  "SOH \<notin> set (cstr (o_symbol x)) \<Longrightarrow> clean_fields (order_fields x)"
  "SOH \<notin> set (cstr symbol) \<Longrightarrow> clean_fields (cancel_fields i symbol)"
  "clean_fields (trailer_fields body)"
  by (auto simp: clean_fields_def header_fields_def order_fields_def cancel_fields_def
      trailer_fields_def encoder_ok_def number_clean) (auto simp: SOH_def)

lemma encoded_fields:
  "fst (make_header c e) = fix_message (header_fields c e)"
  "new_order_body x = fix_message (order_fields x)"
  "cancel_body i symbol = fix_message (cancel_fields i symbol)"
  "make_trailer body = fix_message (trailer_fields body)"
  by (simp_all add: make_header_def header_fields_def new_order_body_def order_fields_def
      cancel_body_def cancel_fields_def make_trailer_def trailer_fields_def fix_message_def Let_def
      tag_defs tagged_def small_tags)

lemma decode_fields_append:
  "decode_fields (xs @ ys) report = (case decode_fields xs report of
     (r, None) \<Rightarrow> decode_fields ys r | (r, Some err) \<Rightarrow> (r, Some err))"
  by (induction xs report rule: decode_fields.induct) (auto split: sum.split)

lemma decode_field_other:
  "tag \<notin> {37, 11, 32, 31} \<Longrightarrow> decode_field tag v report = Inr report"
  by (simp add: decode_field_def tag_defs)

lemma decode_header: "decode_fields (header_fields c e) report = (report, None)"
  by (simp add: header_fields_def decode_field_other)

lemma decode_trailer: "decode_fields (trailer_fields body) report = (report, None)"
  by (simp add: trailer_fields_def decode_field_other)

lemma decode_order: "decode_fields (order_fields x) report
    = (report\<lparr>er_client_order_id := o_client_order_id x\<rparr>, None)"
  by (simp add: order_fields_def decode_field_other) (simp add: decode_field_def tag_defs)

lemma decode_cancel: "decode_fields (cancel_fields i symbol) report = (report\<lparr>er_order_id := i\<rparr>, None)"
  by (simp add: cancel_fields_def decode_field_other) (simp add: decode_field_def tag_defs)

subsection \<open>Properties\<close>

text \<open>
  C28: the messages of the encoder can be decoded.  Encoding a new order and a cancel never
  throws, and decoding either message gives back the client order id, or the order id, and
  changes nothing else of the report, provided neither the symbol nor the names contain the
  separator; the sequence number grows by one per message.
\<close>

theorem fix_round_trip:
  assumes "encoder_ok e" "SOH \<notin> set (cstr (o_symbol x))" "SOH \<notin> set (cstr symbol)"
  shows "\<exists>m1 e1 m2 e2. encode_new_order (Some x) e = Inr (m1, e1) \<and>
    decode_execution_report m1 report = (report\<lparr>er_client_order_id := o_client_order_id x\<rparr>, Inr True) \<and>
    encode_cancel_order i symbol e1 = (m2, e2) \<and>
    decode_execution_report m2 report = (report\<lparr>er_order_id := i\<rparr>, Inr True) \<and>
    fx_seq_num e2 = s32 (s32 (fx_seq_num e + 1) + 1)"
proof -
  let ?e1 = "e\<lparr>fx_seq_num := s32 (fx_seq_num e + 1)\<rparr>"
  let ?b1 = "order_fields x" and ?b2 = "cancel_fields i symbol"
  let ?f1 = "header_fields CHR ''D'' e @ ?b1 @ trailer_fields (fix_message ?b1)"
  let ?f2 = "header_fields CHR ''F'' ?e1 @ ?b2 @ trailer_fields (fix_message ?b2)"
  have snd: "snd (make_header c e) = e\<lparr>fx_seq_num := s32 (fx_seq_num e + 1)\<rparr>" for c and e :: fix_encoder
    by (simp add: make_header_def)
  have m1: "encode_new_order (Some x) e = Inr (fix_message ?f1, ?e1)"
    by (simp add: encode_new_order_def case_prod_beta encoded_fields snd fix_message_append)
  have m2: "encode_cancel_order i symbol ?e1
      = (fix_message ?f2, ?e1\<lparr>fx_seq_num := s32 (fx_seq_num ?e1 + 1)\<rparr>)"
    by (simp add: encode_cancel_order_def case_prod_beta encoded_fields snd fix_message_append)
  have "encoder_ok ?e1" using assms(1) by (simp add: encoder_ok_def)
  then have clean: "clean_fields ?f1" "clean_fields ?f2"
    using assms fields_clean(2) [of _ "CHR ''D''"] fields_clean(2) [of _ "CHR ''F''"]
    by (simp_all add: fields_clean(1,3-5) SOH_def)
  have d: "decode_loop (fix_message ?f1) report = (report\<lparr>er_client_order_id := o_client_order_id x\<rparr>, None)"
    "decode_loop (fix_message ?f2) report = (report\<lparr>er_order_id := i\<rparr>, None)"
    unfolding decode_fix_message [OF clean(1)] decode_fix_message [OF clean(2)] decode_fields_append
    by (simp_all add: decode_header decode_order decode_cancel decode_trailer)
  show ?thesis
    by (rule exI [of _ "fix_message ?f1"], rule exI [of _ ?e1], rule exI [of _ "fix_message ?f2"],
        rule exI [of _ "?e1\<lparr>fx_seq_num := s32 (fx_seq_num ?e1 + 1)\<rparr>"])
      (simp only: m1 m2 decode_execution_report_def d prod.case option.case simp_thms, simp)
qed

theorem fix_round_trip_witness:
  "\<exists>m e. encode_new_order (Some (default_order\<lparr>o_client_order_id := 77, o_symbol := ''AAPL''\<rparr>)) new_fix_encoder
     = Inr (m, e) \<and>
   er_client_order_id (fst (decode_execution_report m default_report)) = 77"
  using fix_round_trip [of new_fix_encoder "default_order\<lparr>o_client_order_id := 77, o_symbol := ''AAPL''\<rparr>" "''AAPL''" default_report 5]
  by (force simp: encoder_ok_def new_fix_encoder_def SOH_def cstr_def NUL_def)

end
