(* ===== verification/Bots.thy ===== *)
theory Bots
  imports Book_Snapshot Execution_Gateway "HOL-Library.Signed_Division"
begin

text \<open>
  The trading bots (\<open>include/velox/sim/strategy/bots.hpp\<close>).  A bot class is a record that
  extends the one of its base class; \<open>on_snapshot\<close> yields the bot's next state and the orders
  it passes to \<open>submit_order\<close>, in order.  Random numbers are inputs: the draws that a call
  makes, in the order of the calls of the generators.  A \<open>double\<close> is a real number, so the
  rounding of the mean and the deviation is not modelled.
\<close>

subsection \<open>The base class\<close>

record trading_bot =
  tb_name :: string
  tb_symbol :: string
  tb_manager :: bool

text \<open>
  The order that a bot fills in: the fields it assigns, on the default values of an order.
\<close>

definition bot_order :: "u64 \<Rightarrow> order_side \<Rightarrow> i64 \<Rightarrow> u32 \<Rightarrow> string \<Rightarrow> order" where
  "bot_order i side px q symbol = default_order\<lparr>o_order_id := i, o_side := side, o_price := px,
     o_quantity := q, o_remaining := q, o_type := LIMIT, o_symbol := strncpy zero_symbol symbol 7\<rparr>"

text \<open>The cast of a \<open>double\<close> to \<open>int64_t\<close> truncates towards zero.\<close>

definition to_i64 :: "real \<Rightarrow> i64" where
  "to_i64 x = (if 0 \<le> x then \<lfloor>x\<rfloor> else \<lceil>x\<rceil>)"

text \<open>The loop that ages the tracked orders: every time to live is decremented, and dropped at zero.\<close>

fun expire :: "int list \<Rightarrow> int list" where
  "expire [] = []"
| "expire (t # ts) = (if t - 1 \<le> 0 then expire ts else (t - 1) # expire ts)"

subsection \<open>Market maker\<close>

record market_maker = trading_bot +
  mm_base_price :: i64
  mm_spread :: i64
  mm_quantity :: u32
  mm_order_id :: u64

definition new_market_maker :: "string \<Rightarrow> string \<Rightarrow> i64 \<Rightarrow> i64 \<Rightarrow> u32 \<Rightarrow> market_maker" where
  "new_market_maker name symbol base spread q = \<lparr>tb_name = name, tb_symbol = symbol, tb_manager = False,
     mm_base_price = base, mm_spread = spread, mm_quantity = q, mm_order_id = 50000\<rparr>"

definition mm_bid_price :: "market_maker \<Rightarrow> i64" where
  "mm_bid_price b = s64 (mm_base_price b - mm_spread b sdiv 2)"

definition mm_ask_price :: "market_maker \<Rightarrow> i64" where
  "mm_ask_price b = s64 (mm_base_price b + mm_spread b sdiv 2)"

definition mm_quote :: "order_side \<Rightarrow> i64 \<Rightarrow> market_maker \<Rightarrow> market_maker \<times> order list" where
  "mm_quote side px b =
     (let i = mm_order_id b + 1
      in (b\<lparr>mm_order_id := i\<rparr>, [bot_order i side px (mm_quantity b) (tb_symbol b)]))"

text \<open>\<open>count\<close> is the function's static counter, which all market makers share.\<close>

definition mm_on_snapshot ::
  "book_snapshot \<Rightarrow> int \<Rightarrow> market_maker \<Rightarrow> int \<times> market_maker \<times> order list" where
  "mm_on_snapshot snap count b =
     (let count1 = s32 (count + 1)
      in if count1 mod 10 \<noteq> 0 then (count1, b, [])
         else
           let has_bid = bs_best_bid snap \<ge> mm_bid_price b;
               has_ask = bs_best_ask snap \<le> mm_ask_price b;
               (b1, bids) = (if has_bid then (b, []) else mm_quote BUY (mm_bid_price b) b);
               (b2, asks) = (if has_ask then (b1, []) else mm_quote SELL (mm_ask_price b) b1);
               b3 = (if bs_mid_price snap > 0 then b2\<lparr>mm_base_price := to_i64 (bs_mid_price snap)\<rparr> else b2)
           in (count1, b3, bids @ asks))"

subsection \<open>Spread bot\<close>

record spread_bot = trading_bot +
  sb_threshold :: i64
  sb_quantity :: u32
  sb_last_spread :: i64
  sb_order_id :: u64
  sb_max_open_orders :: nat
  sb_order_ttl :: int
  sb_ttls :: "int list"

definition new_spread_bot :: "string \<Rightarrow> string \<Rightarrow> i64 \<Rightarrow> u32 \<Rightarrow> spread_bot" where
  "new_spread_bot name symbol threshold q = \<lparr>tb_name = name, tb_symbol = symbol, tb_manager = False,
     sb_threshold = threshold, sb_quantity = q, sb_last_spread = 0, sb_order_id = 10000,
     sb_max_open_orders = 3, sb_order_ttl = 1000, sb_ttls = []\<rparr>"

definition sb_place :: "order_side \<Rightarrow> i64 \<Rightarrow> book_snapshot \<Rightarrow> spread_bot \<Rightarrow> spread_bot \<times> order list" where
  "sb_place side px snap b =
     (let i = sb_order_id b + 1; b1 = b\<lparr>sb_order_id := i\<rparr>
      in if length (sb_ttls b1) < sb_max_open_orders b1
         then (b1\<lparr>sb_ttls := sb_ttls b1 @ [sb_order_ttl b1]\<rparr>,
               [bot_order i side px (sb_quantity b1) (bs_symbol snap)])
         else (b1, []))"

definition sb_on_snapshot :: "book_snapshot \<Rightarrow> spread_bot \<Rightarrow> spread_bot \<times> order list" where
  "sb_on_snapshot snap b =
     (let b1 = b\<lparr>sb_ttls := expire (sb_ttls b)\<rparr>
      in if sb_last_spread b1 = 0 then (b1\<lparr>sb_last_spread := bs_spread snap\<rparr>, [])
         else
           let change = s64 (bs_spread snap - sb_last_spread b1);
               (b2, out) = (if change > sb_threshold b1 then sb_place BUY (bs_best_ask snap) snap b1
                            else if change < s64 (- sb_threshold b1)
                            then sb_place SELL (bs_best_bid snap) snap b1
                            else (b1, []))
           in (b2\<lparr>sb_last_spread := bs_spread snap\<rparr>, out))"

subsection \<open>Random walk bot\<close>

text \<open>
  The draws of one call: \<open>rand01()\<close> up to three times, and one number of the bot's own
  generator for the size of a spike.
\<close>

record draws =
  dr_first :: real
  dr_second :: real
  dr_third :: real
  dr_gen :: nat

record random_walk = trading_bot +
  rw_buy_prob :: real
  rw_sell_prob :: real
  rw_quantity :: u32
  rw_order_id :: u64
  rw_max_open_orders :: nat
  rw_order_ttl :: int
  rw_ttls :: "int list"
  rw_spike_prob :: real
  rw_spike_cooldown :: int
  rw_spike_cooldown_default :: int
  rw_spike_ttl :: int

definition new_random_walk :: "string \<Rightarrow> string \<Rightarrow> real \<Rightarrow> real \<Rightarrow> u32 \<Rightarrow> random_walk" where
  "new_random_walk name symbol buy_prob sell_prob q = \<lparr>tb_name = name, tb_symbol = symbol, tb_manager = False,
     rw_buy_prob = buy_prob, rw_sell_prob = sell_prob, rw_quantity = q, rw_order_id = 20000,
     rw_max_open_orders = 3, rw_order_ttl = 1000, rw_ttls = [], rw_spike_prob = 1 / 100,
     rw_spike_cooldown = 0, rw_spike_cooldown_default = 2000, rw_spike_ttl = 1500\<rparr>"

definition rw_place :: "order_side \<Rightarrow> i64 \<Rightarrow> book_snapshot \<Rightarrow> random_walk \<Rightarrow> random_walk \<times> order list" where
  "rw_place side px snap b =
     (if length (rw_ttls b) < rw_max_open_orders b
      then let i = rw_order_id b + 1
           in (b\<lparr>rw_order_id := i, rw_ttls := rw_ttls b @ [rw_order_ttl b]\<rparr>,
               [bot_order i side px (rw_quantity b) (bs_symbol snap)])
      else (b, []))"

text \<open>The price of the spike stays at its default, zero.\<close>

definition rw_spike :: "draws \<Rightarrow> book_snapshot \<Rightarrow> random_walk \<Rightarrow> random_walk \<times> order list" where
  "rw_spike d snap b =
     (let i = rw_order_id b + 1;
          side = (if dr_third d < 1 / 2 then BUY else SELL);
          q = rw_quantity b * (3 + of_nat (dr_gen d mod 5))
      in (b\<lparr>rw_order_id := i, rw_ttls := rw_ttls b @ [rw_spike_ttl b],
            rw_spike_cooldown := rw_spike_cooldown_default b\<rparr>,
          [(bot_order i side 0 q (bs_symbol snap))\<lparr>o_type := MARKET\<rparr>]))"

definition rw_on_snapshot :: "draws \<Rightarrow> book_snapshot \<Rightarrow> random_walk \<Rightarrow> random_walk \<times> order list" where
  "rw_on_snapshot d snap b =
     (let b1 = b\<lparr>rw_ttls := expire (rw_ttls b)\<rparr>; r = dr_first d;
          (b2, out) = (if r < rw_buy_prob b1 then rw_place BUY (bs_best_ask snap) snap b1
                       else if r < rw_buy_prob b1 + rw_sell_prob b1 then rw_place SELL (bs_best_bid snap) snap b1
                       else if dr_second d < rw_spike_prob b1 \<and> rw_spike_cooldown b1 = 0 \<and> rw_ttls b1 = []
                       then rw_spike d snap b1
                       else (b1, []))
      in (if rw_spike_cooldown b2 > 0 then b2\<lparr>rw_spike_cooldown := rw_spike_cooldown b2 - 1\<rparr> else b2, out))"

subsection \<open>Mean reversion bot\<close>

record mean_reversion = trading_bot +
  mr_lookback :: int
  mr_z_threshold :: real
  mr_quantity :: u32
  mr_prices :: "real list"
  mr_order_id :: u64
  mr_max_open_orders :: nat
  mr_order_ttl :: int
  mr_ttls :: "int list"

definition new_mean_reversion :: "string \<Rightarrow> string \<Rightarrow> int \<Rightarrow> real \<Rightarrow> u32 \<Rightarrow> mean_reversion" where
  "new_mean_reversion name symbol lookback z q = \<lparr>tb_name = name, tb_symbol = symbol, tb_manager = False,
     mr_lookback = lookback, mr_z_threshold = z, mr_quantity = q, mr_prices = [], mr_order_id = 30000,
     mr_max_open_orders = 3, mr_order_ttl = 1000, mr_ttls = []\<rparr>"

definition calculate_mean :: "mean_reversion \<Rightarrow> real" where
  "calculate_mean b = foldl (+) 0 (mr_prices b) / real (length (mr_prices b))"

definition calculate_stddev :: "real \<Rightarrow> mean_reversion \<Rightarrow> real" where
  "calculate_stddev mean b =
     sqrt (foldl (\<lambda>s p. s + (p - mean) * (p - mean)) 0 (mr_prices b) / real (length (mr_prices b)))"

definition mr_place :: "order_side \<Rightarrow> i64 \<Rightarrow> book_snapshot \<Rightarrow> mean_reversion \<Rightarrow> mean_reversion \<times> order list" where
  "mr_place side px snap b =
     (let i = mr_order_id b + 1; b1 = b\<lparr>mr_order_id := i\<rparr>
      in if length (mr_ttls b1) < mr_max_open_orders b1
         then (b1\<lparr>mr_ttls := mr_ttls b1 @ [mr_order_ttl b1]\<rparr>,
               [bot_order i side px (mr_quantity b1) (bs_symbol snap)])
         else (b1, []))"

text \<open>The window of prices; the length is compared as an unsigned 64 bit number.\<close>

definition mr_record :: "book_snapshot \<Rightarrow> mean_reversion \<Rightarrow> mean_reversion" where
  "mr_record snap b =
     (let prices = mr_prices b @ [bs_mid_price snap]
      in b\<lparr>mr_prices := (if of_nat (length prices) > (of_int (mr_lookback b) :: u64) then tl prices else prices)\<rparr>)"

definition mr_on_snapshot :: "book_snapshot \<Rightarrow> mean_reversion \<Rightarrow> mean_reversion \<times> order list" where
  "mr_on_snapshot snap b =
     (let b1 = mr_record snap (b\<lparr>mr_ttls := expire (mr_ttls b)\<rparr>)
      in if of_nat (length (mr_prices b1)) < (of_int (mr_lookback b1) :: u64) then (b1, [])
         else
           let mean = calculate_mean b1; stddev = calculate_stddev mean b1
           in if stddev < 1 / 10 ^ 6 then (b1, [])
              else
                let z_score = (bs_mid_price snap - mean) / stddev
                in if z_score > mr_z_threshold b1 then mr_place SELL (bs_best_bid snap) snap b1
                   else if z_score < - mr_z_threshold b1 then mr_place BUY (bs_best_ask snap) snap b1
                   else (b1, []))"

subsection \<open>Momentum bot\<close>

record momentum = trading_bot +
  mo_threshold :: i64
  mo_quantity :: u32
  mo_prev_price :: i64
  mo_order_id :: u64
  mo_max_open_orders :: nat
  mo_order_ttl :: int
  mo_ttls :: "int list"

definition new_momentum :: "string \<Rightarrow> string \<Rightarrow> i64 \<Rightarrow> u32 \<Rightarrow> momentum" where
  "new_momentum name symbol threshold q = \<lparr>tb_name = name, tb_symbol = symbol, tb_manager = False,
     mo_threshold = threshold, mo_quantity = q, mo_prev_price = 0, mo_order_id = 40000,
     mo_max_open_orders = 3, mo_order_ttl = 1000, mo_ttls = []\<rparr>"

definition mo_place :: "order_side \<Rightarrow> i64 \<Rightarrow> book_snapshot \<Rightarrow> momentum \<Rightarrow> momentum \<times> order list" where
  "mo_place side px snap b =
     (let i = mo_order_id b + 1; b1 = b\<lparr>mo_order_id := i\<rparr>
      in if length (mo_ttls b1) < mo_max_open_orders b1
         then (b1\<lparr>mo_ttls := mo_ttls b1 @ [mo_order_ttl b1]\<rparr>,
               [bot_order i side px (mo_quantity b1) (bs_symbol snap)])
         else (b1, []))"

definition mo_on_snapshot :: "book_snapshot \<Rightarrow> momentum \<Rightarrow> momentum \<times> order list" where
  "mo_on_snapshot snap b =
     (let b1 = b\<lparr>mo_ttls := expire (mo_ttls b)\<rparr>
      in if mo_prev_price b1 = 0 then (b1\<lparr>mo_prev_price := to_i64 (bs_mid_price snap)\<rparr>, [])
         else
           let change = to_i64 (bs_mid_price snap - real_of_int (mo_prev_price b1));
               b2 = b1\<lparr>mo_prev_price := to_i64 (bs_mid_price snap)\<rparr>
           in if change > mo_threshold b2 then mo_place BUY (bs_best_ask snap) snap b2
              else if change < s64 (- mo_threshold b2) then mo_place SELL (bs_best_bid snap) snap b2
              else (b2, []))"

subsection \<open>Dynamic dispatch\<close>

datatype bot = Market_Maker market_maker | Spread_Bot spread_bot | Random_Walk random_walk
  | Mean_Reversion mean_reversion | Momentum momentum

fun bot_on_snapshot :: "draws \<Rightarrow> book_snapshot \<Rightarrow> int \<Rightarrow> bot \<Rightarrow> int \<times> bot \<times> order list" where
  "bot_on_snapshot d snap count (Market_Maker b) =
     (case mm_on_snapshot snap count b of (count1, b1, out) \<Rightarrow> (count1, Market_Maker b1, out))"
| "bot_on_snapshot d snap count (Spread_Bot b) = (count, apfst Spread_Bot (sb_on_snapshot snap b))"
| "bot_on_snapshot d snap count (Random_Walk b) = (count, apfst Random_Walk (rw_on_snapshot d snap b))"
| "bot_on_snapshot d snap count (Mean_Reversion b) = (count, apfst Mean_Reversion (mr_on_snapshot snap b))"
| "bot_on_snapshot d snap count (Momentum b) = (count, apfst Momentum (mo_on_snapshot snap b))"

fun bot_symbol :: "bot \<Rightarrow> string" where
  "bot_symbol (Market_Maker b) = tb_symbol b"
| "bot_symbol (Spread_Bot b) = tb_symbol b"
| "bot_symbol (Random_Walk b) = tb_symbol b"
| "bot_symbol (Mean_Reversion b) = tb_symbol b"
| "bot_symbol (Momentum b) = tb_symbol b"

fun has_manager :: "bot \<Rightarrow> bool" where
  "has_manager (Market_Maker b) = tb_manager b"
| "has_manager (Spread_Bot b) = tb_manager b"
| "has_manager (Random_Walk b) = tb_manager b"
| "has_manager (Mean_Reversion b) = tb_manager b"
| "has_manager (Momentum b) = tb_manager b"

fun set_manager :: "bot \<Rightarrow> bot" where
  "set_manager (Market_Maker b) = Market_Maker (b\<lparr>tb_manager := True\<rparr>)"
| "set_manager (Spread_Bot b) = Spread_Bot (b\<lparr>tb_manager := True\<rparr>)"
| "set_manager (Random_Walk b) = Random_Walk (b\<lparr>tb_manager := True\<rparr>)"
| "set_manager (Mean_Reversion b) = Mean_Reversion (b\<lparr>tb_manager := True\<rparr>)"
| "set_manager (Momentum b) = Momentum (b\<lparr>tb_manager := True\<rparr>)"

end
