(* ===== verification/Bots_Props.thy ===== *)
theory Bots_Props
  imports Bots
begin

text \<open>
  What the bots keep to.  The four bots that track their orders share a contract, stated as a
  locale over one call of \<open>on_snapshot\<close>: a call submits at most one order, and it tracks each
  order it submits.  The bound on the orders of a stretch of snapshots is proved from the
  contract once and interpreted for the four classes.
\<close>

subsection \<open>Tracked orders\<close>

fun bot_run :: "('i \<Rightarrow> 'b \<Rightarrow> 'b \<times> order list) \<Rightarrow> 'i list \<Rightarrow> 'b \<Rightarrow> 'b \<times> order list" where
  "bot_run step [] b = (b, [])"
| "bot_run step (i # is) b =
     (case step i b of (b1, out) \<Rightarrow> case bot_run step is b1 of (b2, outs) \<Rightarrow> (b2, out @ outs))"

lemma bot_run_append:
  "bot_run step (xs @ ys) b =
     (case bot_run step xs b of (b1, out) \<Rightarrow> case bot_run step ys b1 of (b2, outs) \<Rightarrow> (b2, out @ outs))"
  by (induction xs arbitrary: b) (auto split: prod.splits)

lemma bot_run_Cons:
  "bot_run step (i # is) b = (fst (bot_run step is (fst (step i b))),
     snd (step i b) @ snd (bot_run step is (fst (step i b))))"
  by (simp split: prod.splits)

declare bot_run.simps(2) [simp del]

text \<open>Ageing keeps exactly the entries that have more than one snapshot to live.\<close>

lemma expire_filter: "expire ts = map (\<lambda>t. t - 1) (filter (\<lambda>t. 1 < t) ts)"
  by (induction ts) auto

lemma length_expire: "length (expire ts) \<le> length ts"
  by (simp add: expire_filter)

lemma expire_above:
  "1 \<le> c \<Longrightarrow> length (filter (\<lambda>t. c - 1 < t) (expire ts)) = length (filter (\<lambda>t. c < t) ts)"
  by (induction ts) auto

locale order_tracker =
  fixes step :: "'i \<Rightarrow> 'b \<Rightarrow> 'b \<times> order list"
    and tracked :: "'b \<Rightarrow> int list"
    and sane :: "'b \<Rightarrow> bool"
  assumes sane_step: "sane b \<Longrightarrow> sane (fst (step i b))"
    and step_cases: "sane b \<Longrightarrow>
      snd (step i b) = [] \<and> tracked (fst (step i b)) = expire (tracked b) \<or>
      (\<exists>x t. snd (step i b) = [x] \<and> length (expire (tracked b)) < 3 \<and> 1000 \<le> t \<and>
         tracked (fst (step i b)) = expire (tracked b) @ [t])"
begin

lemma sane_run: "sane b \<Longrightarrow> sane (fst (bot_run step is b))"
  by (induction "is" arbitrary: b) (simp_all add: bot_run_Cons sane_step)

lemma tracked_le:
  "\<lbrakk>sane b; length (tracked b) \<le> 3\<rbrakk> \<Longrightarrow> length (tracked (fst (bot_run step is b))) \<le> 3"
proof (induction "is" arbitrary: b)
  case (Cons i "is")
  have "length (tracked (fst (step i b))) \<le> 3"
    using step_cases [OF Cons.prems(1), of i] Cons.prems(2) length_expire [of "tracked b"] by auto
  then show ?case using Cons.IH sane_step [OF Cons.prems(1), of i] by (simp add: bot_run_Cons)
qed simp

lemma window_tracked:
  assumes "sane b" "length is \<le> 1000"
  shows "length (snd (bot_run step is b))
    \<le> length (filter (\<lambda>t. 1000 - int (length is) < t) (tracked (fst (bot_run step is b))))"
  using assms(2)
proof (induction "is" rule: rev_induct)
  case (snoc i "is")
  obtain b1 out where r: "bot_run step is b = (b1, out)" by fastforce
  have sane: "sane b1" using sane_run [OF assms(1), of "is"] by (simp add: r)
  let ?c = "1000 - int (length is)"
  have le: "length out \<le> length (filter (\<lambda>t. ?c < t) (tracked b1))"
    using snoc.IH snoc.prems by (simp add: r)
  have c: "1 \<le> ?c" using snoc.prems by simp
  have eq: "1000 - int (length (is @ [i])) = ?c - 1" by simp
  have "length (out @ snd (step i b1)) \<le> length (filter (\<lambda>t. ?c - 1 < t) (tracked (fst (step i b1))))"
    using step_cases [OF sane, of i] le expire_above [OF c, of "tracked b1"] by auto
  then show ?case unfolding eq by (simp add: bot_run_append bot_run_Cons r split_def)
qed simp

lemma window_bound:
  assumes "sane b" "length (tracked b) \<le> 3" "length js \<le> 1000"
  shows "length (snd (bot_run step js (fst (bot_run step is b)))) \<le> 3"
proof -
  let ?b = "fst (bot_run step is b)"
  have b: "sane ?b" "length (tracked ?b) \<le> 3"
    using sane_run tracked_le assms(1,2) by blast+
  have "length (snd (bot_run step js ?b)) \<le> length (tracked (fst (bot_run step js ?b)))"
    using window_tracked [OF b(1) assms(3)] length_filter_le order_trans by blast
  then show ?thesis using tracked_le [OF b, of js] by linarith
qed

end

subsection \<open>The four classes\<close>

definition sb_sane :: "spread_bot \<Rightarrow> bool" where
  "sb_sane b \<longleftrightarrow> sb_max_open_orders b = 3 \<and> sb_order_ttl b = 1000"

definition rw_sane :: "random_walk \<Rightarrow> bool" where
  "rw_sane b \<longleftrightarrow> rw_max_open_orders b = 3 \<and> rw_order_ttl b = 1000 \<and> rw_spike_ttl b = 1500"

definition mr_sane :: "mean_reversion \<Rightarrow> bool" where
  "mr_sane b \<longleftrightarrow> mr_max_open_orders b = 3 \<and> mr_order_ttl b = 1000"

definition mo_sane :: "momentum \<Rightarrow> bool" where
  "mo_sane b \<longleftrightarrow> mo_max_open_orders b = 3 \<and> mo_order_ttl b = 1000"

lemmas sane_defs = sb_sane_def rw_sane_def mr_sane_def mo_sane_def

lemmas place_defs = sb_place_def rw_place_def rw_spike_def mr_place_def mo_place_def

interpretation spread: order_tracker sb_on_snapshot sb_ttls sb_sane
  by unfold_locales (auto simp: sb_on_snapshot_def place_defs sane_defs Let_def)

interpretation walk: order_tracker "\<lambda>(d, snap). rw_on_snapshot d snap" rw_ttls rw_sane
  by unfold_locales
    (auto simp: rw_on_snapshot_def place_defs sane_defs Let_def split: if_splits prod.splits)

interpretation reversion: order_tracker mr_on_snapshot mr_ttls mr_sane
  by unfold_locales (auto simp: mr_on_snapshot_def mr_record_def place_defs sane_defs Let_def)

interpretation mom: order_tracker mo_on_snapshot mo_ttls mo_sane
  by unfold_locales (auto simp: mo_on_snapshot_def place_defs sane_defs Let_def)

lemma sane_new [simp]:
  "sb_sane (new_spread_bot name symbol threshold q)" "sb_ttls (new_spread_bot name symbol threshold q) = []"
  "rw_sane (new_random_walk name symbol bp sp q)" "rw_ttls (new_random_walk name symbol bp sp q) = []"
  "mr_sane (new_mean_reversion name symbol lookback z q)" "mr_ttls (new_mean_reversion name symbol lookback z q) = []"
  "mo_sane (new_momentum name symbol threshold q)" "mo_ttls (new_momentum name symbol threshold q) = []"
  by (simp_all add: sane_defs new_spread_bot_def new_random_walk_def new_mean_reversion_def new_momentum_def)

text \<open>
  C24: a tracking bot is bounded over time.  Whatever snapshots and random draws a spread, random
  walk, mean reversion or momentum bot has seen before, over the next thousand snapshots it
  submits at most three orders.  (The bound is on submissions per stretch of snapshots: an entry
  expires after a thousand snapshots whether or not its order still rests, so the number of
  orders that are open at once is not bounded.)
\<close>

theorem bots_submit_at_most_three:
  assumes "length later \<le> 1000"
  shows "length (snd (bot_run sb_on_snapshot (map snd later)
        (fst (bot_run sb_on_snapshot (map snd earlier) (new_spread_bot name symbol threshold q))))) \<le> 3 \<and>
    length (snd (bot_run (\<lambda>(d, snap). rw_on_snapshot d snap) later
        (fst (bot_run (\<lambda>(d, snap). rw_on_snapshot d snap) earlier (new_random_walk name symbol bp sp q))))) \<le> 3 \<and>
    length (snd (bot_run mr_on_snapshot (map snd later)
        (fst (bot_run mr_on_snapshot (map snd earlier) (new_mean_reversion name symbol lookback z q))))) \<le> 3 \<and>
    length (snd (bot_run mo_on_snapshot (map snd later)
        (fst (bot_run mo_on_snapshot (map snd earlier) (new_momentum name symbol threshold q))))) \<le> 3"
  using assms by (intro conjI spread.window_bound walk.window_bound reversion.window_bound mom.window_bound) simp_all

theorem bots_submit_at_most_three_witness:
  "length (snd (bot_run mo_on_snapshot (replicate 1000 (default_snapshot\<lparr>bs_mid_price := 100\<rparr>))
     (new_momentum ''Mom'' ''AAPL'' 15 100))) \<le> 3"
  using bots_submit_at_most_three [of "replicate 1000 (undefined, default_snapshot\<lparr>bs_mid_price := 100\<rparr>)"
      "[]" "''Mom''" "''AAPL''" 15 100]
  by simp

subsection \<open>The submitted orders\<close>

lemma bot_order_simps [simp]:
  "o_status (bot_order i side px q s) = NEW" "o_filled (bot_order i side px q s) = 0"
  "o_remaining (bot_order i side px q s) = q" "o_quantity (bot_order i side px q s) = q"
  "o_type (bot_order i side px q s) = LIMIT" "o_side (bot_order i side px q s) = side"
  "o_price (bot_order i side px q s) = px" "o_order_id (bot_order i side px q s) = i"
  "o_symbol (bot_order i side px q s) = strncpy zero_symbol s 7"
  by (simp_all add: bot_order_def default_order_def)

fun is_maker :: "bot \<Rightarrow> bool" where
  "is_maker (Market_Maker b) = True"
| "is_maker b = False"

definition takes_touch :: "book_snapshot \<Rightarrow> order \<Rightarrow> bool" where
  "takes_touch snap x \<longleftrightarrow> o_status x = NEW \<and> o_filled x = 0 \<and> o_remaining x = o_quantity x \<and>
     o_symbol x = strncpy zero_symbol (bs_symbol snap) 7 \<and>
     (o_type x = MARKET \<or> o_type x = LIMIT \<and> o_price x = (if is_buy x then bs_best_ask snap else bs_best_bid snap))"

lemma takes_touch_bot_order [simp]:
  "takes_touch snap (bot_order i BUY (bs_best_ask snap) q (bs_symbol snap))"
  "takes_touch snap (bot_order i SELL (bs_best_bid snap) q (bs_symbol snap))"
  "takes_touch snap (bot_order i side px q (bs_symbol snap)\<lparr>o_type := MARKET\<rparr>)"
  by (simp_all add: takes_touch_def is_buy_def)

lemma place_takes_touch:
  "list_all (takes_touch snap) (snd (sb_place BUY (bs_best_ask snap) snap s))"
  "list_all (takes_touch snap) (snd (sb_place SELL (bs_best_bid snap) snap s))"
  "list_all (takes_touch snap) (snd (rw_place BUY (bs_best_ask snap) snap w))"
  "list_all (takes_touch snap) (snd (rw_place SELL (bs_best_bid snap) snap w))"
  "list_all (takes_touch snap) (snd (rw_spike d snap w))"
  "list_all (takes_touch snap) (snd (mr_place BUY (bs_best_ask snap) snap r))"
  "list_all (takes_touch snap) (snd (mr_place SELL (bs_best_bid snap) snap r))"
  "list_all (takes_touch snap) (snd (mo_place BUY (bs_best_ask snap) snap m))"
  "list_all (takes_touch snap) (snd (mo_place SELL (bs_best_bid snap) snap m))"
  by (simp_all add: place_defs Let_def)

lemma snd_on_snapshot:
  "snd (sb_on_snapshot snap s) \<in> {[], snd (sb_place BUY (bs_best_ask snap) snap (s\<lparr>sb_ttls := expire (sb_ttls s)\<rparr>)),
      snd (sb_place SELL (bs_best_bid snap) snap (s\<lparr>sb_ttls := expire (sb_ttls s)\<rparr>))}"
  "\<exists>w'. snd (rw_on_snapshot d snap w) \<in> {[], snd (rw_place BUY (bs_best_ask snap) snap w'),
      snd (rw_place SELL (bs_best_bid snap) snap w'), snd (rw_spike d snap w')}"
  "\<exists>r'. snd (mr_on_snapshot snap r) \<in> {[], snd (mr_place BUY (bs_best_ask snap) snap r'),
      snd (mr_place SELL (bs_best_bid snap) snap r')}"
  "\<exists>m'. snd (mo_on_snapshot snap m) \<in> {[], snd (mo_place BUY (bs_best_ask snap) snap m'),
      snd (mo_place SELL (bs_best_bid snap) snap m')}"
     apply (simp add: sb_on_snapshot_def Let_def split_def)
    apply (rule exI [of _ "w\<lparr>rw_ttls := expire (rw_ttls w)\<rparr>"]) apply (simp add: rw_on_snapshot_def Let_def split_def)
   apply (rule exI [of _ "mr_record snap (r\<lparr>mr_ttls := expire (mr_ttls r)\<rparr>)"])
   apply (simp add: mr_on_snapshot_def Let_def)
  apply (rule exI [of _ "m\<lparr>mo_ttls := expire (mo_ttls m), mo_prev_price := to_i64 (bs_mid_price snap)\<rparr>"])
  apply (simp add: mo_on_snapshot_def Let_def)
  done

lemma tracker_out: "\<not> is_maker b \<Longrightarrow> list_all (takes_touch snap) (snd (snd (bot_on_snapshot d snap count b)))"
proof (cases b)
  case (Spread_Bot s)
  then show ?thesis using snd_on_snapshot(1) [of snap s] place_takes_touch by auto
next
  case (Random_Walk w)
  then show ?thesis using snd_on_snapshot(2) [of d snap w] place_takes_touch by auto
next
  case (Mean_Reversion r)
  then show ?thesis using snd_on_snapshot(3) [of snap r] place_takes_touch by auto
next
  case (Momentum m)
  then show ?thesis using snd_on_snapshot(4) [of snap m] place_takes_touch by auto
qed simp

text \<open>
  What a tracking bot submits.  Every order is new, unfilled and complete, carries the
  symbol of the snapshot, and is either a market order or a limit order that takes the other
  side at its best: a buy at the best ask of the snapshot, a sell at its best bid.  So these
  bots never add liquidity unless the book has moved since the snapshot.
\<close>

theorem bots_take_the_touch:
  assumes "\<not> is_maker b"
  shows "list_all (takes_touch snap) (snd (snd (bot_on_snapshot d snap count b)))"
  using assms by (rule tracker_out)

text \<open>A momentum bot buys at the ask after the mid price has risen by 100.\<close>

theorem bots_take_the_touch_witness:
  "\<exists>x. snd (snd (bot_on_snapshot \<lparr>dr_first = 0, dr_second = 0, dr_third = 0, dr_gen = 0\<rparr>
        (default_snapshot\<lparr>bs_best_bid := 10095, bs_best_ask := 10105, bs_mid_price := 10100\<rparr>) 0
        (Momentum ((new_momentum ''Mom'' ''AAPL'' 15 100)\<lparr>mo_prev_price := 10000\<rparr>)))) = [x] \<and>
     o_order_id x = 40001 \<and> o_price x = 10105 \<and>
     takes_touch (default_snapshot\<lparr>bs_best_bid := 10095, bs_best_ask := 10105, bs_mid_price := 10100\<rparr>) x"
  using bots_take_the_touch [of "Momentum ((new_momentum ''Mom'' ''AAPL'' 15 100)\<lparr>mo_prev_price := 10000\<rparr>)"
      "default_snapshot\<lparr>bs_best_bid := 10095, bs_best_ask := 10105, bs_mid_price := 10100\<rparr>"
      "\<lparr>dr_first = 0, dr_second = 0, dr_third = 0, dr_gen = 0\<rparr>" 0]
  by (simp add: new_momentum_def mo_on_snapshot_def mo_place_def to_i64_def)

end
