(* ===== verification/Bot_Manager.thy ===== *)
theory Bot_Manager
  imports Bots_Props "HOL-Library.AList"
begin

text \<open>
  The bot manager (\<open>include/velox/sim/strategy/bot_manager.hpp\<close>,
  \<open>src/sim/strategy/bot_manager.cpp\<close>) and \<open>TradingBot::submit_order\<close>
  (\<open>src/sim/strategy/bot.cpp\<close>).  The queues of the lock-free library are a parameter; the bots
  are owned by a vector and listed per symbol by their positions in it.  The hash map of the
  order queues is an association list, so that \<open>orders_queued\<close> can walk it.
\<close>

record ('oq, 'cq) bot_manager =
  bm_bots :: "bot list"
  bm_by_symbol :: "string \<rightharpoonup> nat list"
  bm_order_queue :: 'oq
  bm_cancel_queue :: 'cq
  bm_order_queues :: "(string \<times> 'oq) list"

definition new_bot_manager :: "'oq \<Rightarrow> 'cq \<Rightarrow> ('oq, 'cq) bot_manager" where
  "new_bot_manager oq cq = \<lparr>bm_bots = [], bm_by_symbol = Map.empty, bm_order_queue = oq,
     bm_cancel_queue = cq, bm_order_queues = []\<rparr>"

definition register_bot :: "bot \<Rightarrow> ('oq, 'cq) bot_manager \<Rightarrow> ('oq, 'cq) bot_manager" where
  "register_bot b m =
     (let symbol = bot_symbol b;
          old = (case bm_by_symbol m symbol of None \<Rightarrow> [] | Some is \<Rightarrow> is)
      in m\<lparr>bm_by_symbol := (bm_by_symbol m)(symbol \<mapsto> old @ [length (bm_bots m)]),
           bm_bots := bm_bots m @ [set_manager b]\<rparr>)"

text \<open>An order goes to the queue of its symbol, which is created when there is none.\<close>

definition push_order ::
  "('oq, order) queue_ops \<Rightarrow> 'oq \<Rightarrow> order \<Rightarrow> ('oq, 'cq) bot_manager \<Rightarrow> ('oq, 'cq) bot_manager" where
  "push_order Q fresh x m =
     (let symbol = cstr (o_symbol x)
      in case map_of (bm_order_queues m) symbol of
           None \<Rightarrow> m\<lparr>bm_order_queues := (symbol, snd (q_push Q x fresh)) # bm_order_queues m\<rparr>
         | Some q \<Rightarrow> m\<lparr>bm_order_queues := AList.update symbol (snd (q_push Q x q)) (bm_order_queues m)\<rparr>)"

definition submit_bot_order ::
  "('oq, order) queue_ops \<Rightarrow> 'oq \<Rightarrow> bot \<Rightarrow> order \<Rightarrow> ('oq, 'cq) bot_manager \<Rightarrow> ('oq, 'cq) bot_manager" where
  "submit_bot_order Q fresh b x m = (if has_manager b then push_order Q fresh x m else m)"

text \<open>
  The bots of the symbol see the snapshot one after the other; \<open>ds\<close> holds the random draws of
  each bot, \<open>count\<close> is the static counter of the market makers.
\<close>

fun dispatch_bots ::
  "('oq, order) queue_ops \<Rightarrow> 'oq \<Rightarrow> (nat \<Rightarrow> draws) \<Rightarrow> book_snapshot \<Rightarrow> nat list \<Rightarrow> int \<times> ('oq, 'cq) bot_manager
    \<Rightarrow> int \<times> ('oq, 'cq) bot_manager" where
  "dispatch_bots Q fresh ds snap [] cm = cm"
| "dispatch_bots Q fresh ds snap (i # is) (count, m) =
     (case bot_on_snapshot (ds i) snap count (bm_bots m ! i) of (count1, b1, out) \<Rightarrow>
        dispatch_bots Q fresh ds snap is
          (count1, fold (submit_bot_order Q fresh b1) out (m\<lparr>bm_bots := (bm_bots m)[i := b1]\<rparr>)))"

definition manager_on_snapshot ::
  "('oq, order) queue_ops \<Rightarrow> 'oq \<Rightarrow> (nat \<Rightarrow> draws) \<Rightarrow> book_snapshot \<Rightarrow> int \<times> ('oq, 'cq) bot_manager
    \<Rightarrow> int \<times> ('oq, 'cq) bot_manager" where
  "manager_on_snapshot Q fresh ds snap cm =
     (case bm_by_symbol (snd cm) (cstr (bs_symbol snap)) of
        None \<Rightarrow> cm
      | Some is \<Rightarrow> dispatch_bots Q fresh ds snap is cm)"

definition pop_order_for_symbol ::
  "('oq, order) queue_ops \<Rightarrow> string \<Rightarrow> ('oq, 'cq) bot_manager \<Rightarrow> order option \<times> ('oq, 'cq) bot_manager" where
  "pop_order_for_symbol Q symbol m =
     (case map_of (bm_order_queues m) symbol of
        None \<Rightarrow> (None, m)
      | Some q \<Rightarrow> (case q_pop Q q of (opt, q1) \<Rightarrow>
          (opt, m\<lparr>bm_order_queues := AList.update symbol q1 (bm_order_queues m)\<rparr>)))"

definition push_cancel ::
  "('cq, u64) queue_ops \<Rightarrow> u64 \<Rightarrow> ('oq, 'cq) bot_manager \<Rightarrow> ('oq, 'cq) bot_manager" where
  "push_cancel CQ order_id m = m\<lparr>bm_cancel_queue := snd (q_push CQ order_id (bm_cancel_queue m))\<rparr>"

definition pop_cancel ::
  "('cq, u64) queue_ops \<Rightarrow> ('oq, 'cq) bot_manager \<Rightarrow> u64 option \<times> ('oq, 'cq) bot_manager" where
  "pop_cancel CQ m = (case q_pop CQ (bm_cancel_queue m) of (opt, q) \<Rightarrow> (opt, m\<lparr>bm_cancel_queue := q\<rparr>))"

definition bot_count :: "('oq, 'cq) bot_manager \<Rightarrow> nat" where
  "bot_count m = length (bm_bots m)"

definition orders_queued :: "('oq, order) queue_ops \<Rightarrow> ('cq, u64) queue_ops \<Rightarrow> ('oq, 'cq) bot_manager \<Rightarrow> u64" where
  "orders_queued Q CQ m =
     foldl (\<lambda>sum p. sum + of_nat (q_size Q (snd p))) 0 (bm_order_queues m)
     + of_nat (q_size CQ (bm_cancel_queue m))"

subsection \<open>The abstract view\<close>

text \<open>
  What the manager promises: a list of waiting orders per symbol.  \<open>poll_bots\<close> shows a snapshot
  to some bots and collects what they submit.
\<close>

definition waiting :: "('oq \<Rightarrow> order list) \<Rightarrow> ('oq, 'cq) bot_manager \<Rightarrow> string \<Rightarrow> order list" where
  "waiting contents m symbol = (case map_of (bm_order_queues m) symbol of None \<Rightarrow> [] | Some q \<Rightarrow> contents q)"

fun poll_bots ::
  "(nat \<Rightarrow> draws) \<Rightarrow> book_snapshot \<Rightarrow> nat list \<Rightarrow> int \<times> bot list \<Rightarrow> (int \<times> bot list) \<times> order list" where
  "poll_bots ds snap [] cb = (cb, [])"
| "poll_bots ds snap (i # is) (count, bots) =
     (case bot_on_snapshot (ds i) snap count (bots ! i) of (count1, b1, out) \<Rightarrow>
        apsnd (\<lambda>outs. out @ outs) (poll_bots ds snap is (count1, bots[i := b1])))"

text \<open>
  Well-formed managers: every listed position is in range, lists are disjoint and without
  repetition, and a bot is listed under its symbol, which fits an order's symbol field.
\<close>

definition manager_ok :: "('oq, 'cq) bot_manager \<Rightarrow> bool" where
  "manager_ok m \<longleftrightarrow> (\<forall>s is. bm_by_symbol m s = Some is \<longrightarrow> distinct is \<and>
     (\<forall>i \<in> set is. i < length (bm_bots m) \<and> bot_symbol (bm_bots m ! i) = s \<and> has_manager (bm_bots m ! i)))"

lemma bot_symbol_set_manager [simp]: "bot_symbol (set_manager b) = bot_symbol b" "has_manager (set_manager b)"
  by (cases b; simp)+

lemma manager_ok_new: "manager_ok (new_bot_manager oq cq)"
  by (simp add: manager_ok_def new_bot_manager_def)

lemma manager_ok_register: "manager_ok m \<Longrightarrow> manager_ok (register_bot b m)"
  unfolding manager_ok_def register_bot_def Let_def
  by (auto simp: nth_append split: option.splits if_splits) fastforce+

lemma bot_on_snapshot_base:
  assumes "bot_on_snapshot d snap count b = (count', b', out)"
  shows "bot_symbol b' = bot_symbol b" "has_manager b' = has_manager b"
  using assms
  by (cases b; force simp: mm_on_snapshot_def mm_quote_def sb_on_snapshot_def rw_on_snapshot_def
      mr_on_snapshot_def mr_record_def mo_on_snapshot_def place_defs Let_def
      split: prod.splits if_splits)+

subsection \<open>Queueing orders\<close>

lemma waiting_push:
  assumes "spsc_queue Q contents cap" "contents fresh = []"
  shows "waiting contents (push_order Q fresh x m) s =
    (if s = cstr (o_symbol x) \<and> length (waiting contents m s) < cap then waiting contents m s @ [x]
     else waiting contents m s)"
  using spsc_queueD(2) [OF assms(1)] assms(2)
  by (auto simp: waiting_def push_order_def Let_def update_conv' split: option.splits)

lemma push_order_other [simp]:
  "bm_bots (push_order Q fresh x m) = bm_bots m" "bm_by_symbol (push_order Q fresh x m) = bm_by_symbol m"
  "bm_cancel_queue (push_order Q fresh x m) = bm_cancel_queue m"
  by (simp_all add: push_order_def Let_def split: option.split)

lemma waiting_bots [simp]: "waiting contents (m\<lparr>bm_bots := bs\<rparr>) s = waiting contents m s"
  by (simp add: waiting_def)

lemma fold_submit_other [simp]:
  "bm_bots (fold (submit_bot_order Q fresh b) xs m) = bm_bots m"
  "bm_by_symbol (fold (submit_bot_order Q fresh b) xs m) = bm_by_symbol m"
  "bm_cancel_queue (fold (submit_bot_order Q fresh b) xs m) = bm_cancel_queue m"
  by (induction xs arbitrary: m) (simp_all add: submit_bot_order_def)

lemma take_take_append: "take n (take n xs @ ys) = take n (xs @ ys)"
  by (cases "length xs \<le> n") auto

lemma fold_submit:
  assumes "spsc_queue Q contents cap" "contents fresh = []" "has_manager b"
    "\<forall>x \<in> set xs. cstr (o_symbol x) = s" "length (waiting contents m s) \<le> cap"
  shows "waiting contents (fold (submit_bot_order Q fresh b) xs m) s' =
    (if s' = s then take cap (waiting contents m s @ xs) else waiting contents m s')"
  using assms(4,5)
proof (induction xs arbitrary: m)
  case (Cons x xs)
  let ?m = "push_order Q fresh x m"
  have w: "waiting contents ?m s' = (if s' = s then take cap (waiting contents m s @ [x]) else waiting contents m s')" for s'
    using waiting_push [OF assms(1,2), of x m s'] Cons.prems by auto
  have "length (waiting contents ?m s) \<le> cap" by (simp add: w)
  then show ?case
    using Cons.IH [of ?m] Cons.prems(1) assms(3)
    by (simp add: submit_bot_order_def w take_take_append del: take_append)
qed simp

text \<open>What a bot submits on a snapshot of its symbol carries that symbol.\<close>

lemma out_symbol:
  assumes "bot_on_snapshot d snap count b = (count', b', out)" "bot_symbol b = cstr (bs_symbol snap)"
    "length (cstr (bs_symbol snap)) \<le> 7" "x \<in> set out"
  shows "cstr (o_symbol x) = cstr (bs_symbol snap)"
proof -
  have c: "cstr (strncpy zero_symbol t 7) = take 7 (cstr t)" for t
    by (rule cstr_strncpy_7) (simp_all add: zero_symbol_def)
  have idem: "cstr (cstr t) = cstr t" for t by (rule cstr_id) (rule cstr_no_NUL)
  show ?thesis
  proof (cases "is_maker b")
    case True
    then obtain k where k: "b = Market_Maker k" by (cases b) auto
    have "o_symbol x = strncpy zero_symbol (tb_symbol k) 7"
      using assms(1,4) by (auto simp: k mm_on_snapshot_def mm_quote_def Let_def split: prod.splits if_splits)
    then show ?thesis using assms(2,3) by (simp add: k c idem)
  next
    case False
    have "list_all (takes_touch snap) out"
      using tracker_out [OF False, of snap d count] by (simp add: assms(1))
    then show ?thesis using assms(3,4) by (simp add: list_all_iff takes_touch_def c)
  qed
qed

lemma dispatch_polls:
  assumes Q: "spsc_queue Q contents cap" "contents fresh = []" and len: "length (cstr (bs_symbol snap)) \<le> 7"
  shows "\<lbrakk>distinct is; \<forall>i \<in> set is. i < length (bm_bots m) \<and>
      bot_symbol (bm_bots m ! i) = cstr (bs_symbol snap) \<and> has_manager (bm_bots m ! i);
      length (waiting contents m (cstr (bs_symbol snap))) \<le> cap;
      dispatch_bots Q fresh ds snap is (count, m) = (count1, m1);
      poll_bots ds snap is (count, bm_bots m) = ((count2, bots), outs)\<rbrakk>
    \<Longrightarrow> count1 = count2 \<and> bm_bots m1 = bots \<and> bm_by_symbol m1 = bm_by_symbol m \<and>
      length bots = length (bm_bots m) \<and>
      (\<forall>i. bot_symbol (bots ! i) = bot_symbol (bm_bots m ! i) \<and> has_manager (bots ! i) = has_manager (bm_bots m ! i)) \<and>
      (\<forall>i. i \<notin> set is \<longrightarrow> bots ! i = bm_bots m ! i) \<and>
      (\<forall>s. waiting contents m1 s = (if s = cstr (bs_symbol snap) then take cap (waiting contents m s @ outs)
         else waiting contents m s))"
proof (induction "is" arbitrary: count m outs)
  case Nil
  then show ?case by auto
next
  case (Cons i "is")
  obtain c b out where b: "bot_on_snapshot (ds i) snap count (bm_bots m ! i) = (c, b, out)"
    by (metis prod_cases3)
  let ?m = "fold (submit_bot_order Q fresh b) out (m\<lparr>bm_bots := (bm_bots m)[i := b]\<rparr>)"
  let ?s = "cstr (bs_symbol snap)"
  have i: "i < length (bm_bots m)" "bot_symbol (bm_bots m ! i) = ?s" "has_manager (bm_bots m ! i)"
    using Cons.prems(2) by simp_all
  note base = bot_on_snapshot_base [OF b]
  have w: "waiting contents ?m s = (if s = ?s then take cap (waiting contents m s @ out) else waiting contents m s)" for s
    using fold_submit [OF Q, of b out ?s "m\<lparr>bm_bots := (bm_bots m)[i := b]\<rparr>" s]
      out_symbol [OF b i(2) len] base(2) i(3) Cons.prems(3) by auto
  obtain outs' where p: "poll_bots ds snap is (c, (bm_bots m)[i := b]) = ((count2, bots), outs')" "outs = out @ outs'"
    using Cons.prems(5) b by (cases "poll_bots ds snap is (c, (bm_bots m)[i := b])") auto
  have d: "dispatch_bots Q fresh ds snap is (c, ?m) = (count1, m1)" using Cons.prems(4) b by simp
  have "length (waiting contents ?m ?s) \<le> cap" by (simp add: w)
  then have IH: "count1 = count2 \<and> bm_bots m1 = bots \<and> bm_by_symbol m1 = bm_by_symbol ?m \<and>
      length bots = length (bm_bots ?m) \<and>
      (\<forall>j. bot_symbol (bots ! j) = bot_symbol (bm_bots ?m ! j) \<and> has_manager (bots ! j) = has_manager (bm_bots ?m ! j)) \<and>
      (\<forall>j. j \<notin> set is \<longrightarrow> bots ! j = bm_bots ?m ! j) \<and>
      (\<forall>s. waiting contents m1 s = (if s = ?s then take cap (waiting contents ?m s @ outs') else waiting contents ?m s))"
    using Cons.prems(1,2) d p(1) base by (intro Cons.IH) (auto simp: nth_list_update)
  then show ?case
    using base i Cons.prems(1)
    by (simp add: w p(2) take_take_append nth_list_update del: take_append)
qed

lemma waiting_pop:
  assumes "spsc_queue Q contents cap"
  shows "fst (pop_order_for_symbol Q s m) = (case waiting contents m s of [] \<Rightarrow> None | x # _ \<Rightarrow> Some x)"
    and "waiting contents (snd (pop_order_for_symbol Q s m)) s' =
      (if s' = s then tl (waiting contents m s) else waiting contents m s')"
  using spsc_queueD(3,4) [OF assms]
  by (auto simp: waiting_def pop_order_for_symbol_def update_conv' split: option.splits prod.splits)
    (metis fst_conv snd_conv)+

text \<open>
  C19: distribution of a snapshot.  A snapshot of a symbol is shown to the bots registered for
  that symbol, in the order of their registration, and what they submit waits behind what was
  waiting for that symbol, in order, cut off at the capacity of the queue.  No other bot and no
  other symbol's orders change, and the manager stays well formed.  Popping then takes the
  oldest waiting order of the symbol and leaves the others in place.
\<close>

theorem snapshot_orders_wait_in_order:
  assumes "spsc_queue Q contents cap" "contents fresh = []" "manager_ok m"
    "length (cstr (bs_symbol snap)) \<le> 7" "length (waiting contents m (cstr (bs_symbol snap))) \<le> cap"
    "bm_by_symbol m (cstr (bs_symbol snap)) = Some is"
    "poll_bots ds snap is (count, bm_bots m) = ((count', bots), outs)"
  shows "\<exists>m'. manager_on_snapshot Q fresh ds snap (count, m) = (count', m') \<and> bm_bots m' = bots \<and>
    manager_ok m' \<and>
    (\<forall>s. waiting contents m' s = (if s = cstr (bs_symbol snap) then take cap (waiting contents m s @ outs)
       else waiting contents m s)) \<and>
    (\<forall>i. i \<notin> set is \<longrightarrow> bm_bots m' ! i = bm_bots m ! i) \<and>
    fst (pop_order_for_symbol Q (cstr (bs_symbol snap)) m') =
      (case waiting contents m' (cstr (bs_symbol snap)) of [] \<Rightarrow> None | x # _ \<Rightarrow> Some x) \<and>
    (\<forall>s. waiting contents (snd (pop_order_for_symbol Q (cstr (bs_symbol snap)) m')) s =
      (if s = cstr (bs_symbol snap) then tl (waiting contents m' s) else waiting contents m' s))"
proof -
  obtain c m' where d: "dispatch_bots Q fresh ds snap is (count, m) = (c, m')" by fastforce
  have "distinct is" "\<forall>i \<in> set is. i < length (bm_bots m) \<and>
      bot_symbol (bm_bots m ! i) = cstr (bs_symbol snap) \<and> has_manager (bm_bots m ! i)"
    using assms(3,6) by (simp_all add: manager_ok_def)
  note r = dispatch_polls [OF assms(1,2,4) this assms(5) d assms(7)]
  have "manager_on_snapshot Q fresh ds snap (count, m) = (count', m')"
    using r by (simp add: manager_on_snapshot_def assms(6) d)
  moreover have "manager_ok m'" using r assms(3) by (simp add: manager_ok_def)
  ultimately show ?thesis using r waiting_pop [OF assms(1), of "cstr (bs_symbol snap)" m']
    by (intro exI [of _ m']) (simp del: take_append)
qed

text \<open>One momentum bot on \<open>AAPL\<close> that sees the price rise.\<close>

theorem snapshot_orders_wait_in_order_witness:
  "\<exists>m' x. manager_on_snapshot (list_queue 65535) [] (\<lambda>_. undefined)
       (default_snapshot\<lparr>bs_symbol := ''AAPL'' @ replicate 4 NUL, bs_best_ask := 10105, bs_mid_price := 10100\<rparr>)
       (0, register_bot (Momentum (new_momentum ''Mom'' ''AAPL'' 15 100\<lparr>mo_prev_price := 10000\<rparr>))
             (new_bot_manager [] [] :: (order list, u64 list) bot_manager)) = (0, m') \<and>
     fst (pop_order_for_symbol (list_queue 65535) ''AAPL'' m') = Some x \<and> o_price x = 10105"
proof -
  let ?b = "Momentum (new_momentum ''Mom'' ''AAPL'' 15 100\<lparr>mo_prev_price := 10000\<rparr>)"
  let ?m = "register_bot ?b (new_bot_manager [] []) :: (order list, u64 list) bot_manager"
  let ?snap = "default_snapshot\<lparr>bs_symbol := ''AAPL'' @ replicate 4 NUL, bs_best_ask := 10105, bs_mid_price := 10100\<rparr>"
  have c: "cstr (''AAPL'' @ replicate 4 NUL) = ''AAPL''" by (simp add: cstr_def NUL_def numeral_eq_Suc)
  have ok: "manager_ok ?m" by (rule manager_ok_register) (rule manager_ok_new)
  have b: "bm_bots ?m = [set_manager ?b]" "bm_by_symbol ?m ''AAPL'' = Some [0]" "waiting (\<lambda>q. q) ?m s = []" for s
    by (simp_all add: register_bot_def new_bot_manager_def waiting_def new_momentum_def)
  obtain bots where p: "poll_bots (\<lambda>_. undefined) ?snap [0] (0, bm_bots ?m)
      = ((0, bots), [bot_order 40001 BUY 10105 100 (bs_symbol ?snap)])"
    unfolding b by (simp add: new_momentum_def mo_on_snapshot_def mo_place_def to_i64_def)
  show ?thesis
    using snapshot_orders_wait_in_order [OF list_queue_ok [of 65535] refl ok, of ?snap "[0]" "\<lambda>_. undefined" 0 0 bots]
      p b c by (auto simp del: replicate.simps)
qed

end
