(* ===== verification/Market_State_Store.thy ===== *)
theory Market_State_Store
  imports Decimal
begin

text \<open>
  The file with the last prices (\<open>include/velox/sim/env/market_state_store.hpp\<close>): one line
  \<open>symbol=price\<close> per symbol.  The content of the file is \<open>None\<close> when it cannot be opened.  An
  \<open>unordered_map\<close> is a map when it is read into, and the list of its entries, in the
  unspecified order of its iteration, when it is written.
\<close>

type_synonym price_map = "string \<rightharpoonup> i64"

definition LF :: char where
  "LF = CHR 0x0A"

text \<open>The lines that \<open>std::getline\<close> yields.\<close>

fun get_lines :: "string \<Rightarrow> string list" where
  "get_lines [] = []"
| "get_lines (c # cs) =
     (let line = takeWhile (\<lambda>c. c \<noteq> LF) (c # cs)
      in line # get_lines (drop (Suc (length line)) (c # cs)))"

declare get_lines.simps [simp del]

definition read_line :: "price_map \<Rightarrow> string \<Rightarrow> price_map" where
  "read_line prices line =
     (if line = [] then prices
      else if CHR ''='' \<notin> set line then prices
      else
        let symbol = takeWhile (\<lambda>c. c \<noteq> CHR ''='') line;
            raw_value = drop (Suc (length symbol)) line
        in if symbol = [] then prices
           else (case stoll raw_value of
                   Inl _ \<Rightarrow> prices | Inr parsed \<Rightarrow> prices(symbol \<mapsto> parsed)))"

definition add_default :: "price_map \<Rightarrow> price_map \<Rightarrow> string \<Rightarrow> price_map" where
  "add_default defaults prices symbol =
     (if prices symbol = None
      then case defaults symbol of None \<Rightarrow> prices | Some p \<Rightarrow> prices(symbol \<mapsto> p)
      else prices)"

definition read_market_state :: "string option \<Rightarrow> string list \<Rightarrow> price_map \<Rightarrow> price_map" where
  "read_market_state file symbols defaults =
     (case file of None \<Rightarrow> defaults
      | Some content \<Rightarrow>
          foldl (add_default defaults) (foldl read_line defaults (get_lines content)) symbols)"

definition write_line :: "string \<times> i64 \<Rightarrow> string" where
  "write_line e = fst e @ ''='' @ int_to_string (snd e) @ [LF]"

text \<open>The file is truncated first; when it cannot be opened it stays as it was.\<close>

definition write_market_state :: "bool \<Rightarrow> (string \<times> i64) list \<Rightarrow> string option \<Rightarrow> string option" where
  "write_market_state opened prices file =
     (if \<not> opened then file else Some (concat (map write_line prices)))"

subsection \<open>Reading back\<close>

definition line_of :: "string \<times> i64 \<Rightarrow> string" where
  "line_of e = fst e @ (CHR ''='' # int_to_string (snd e))"

lemma write_line_eq: "write_line e = line_of e @ [LF]"
  by (simp add: write_line_def line_of_def)

lemma get_lines_line: "LF \<notin> set l \<Longrightarrow> get_lines (l @ LF # rest) = l # get_lines rest"
proof -
  assume l: "LF \<notin> set l"
  have t: "takeWhile (\<lambda>c. c \<noteq> LF) (l @ LF # rest) = l"
    using l by (subst takeWhile_append2) auto
  obtain c cs where c: "l @ LF # rest = c # cs" by (cases "l @ LF # rest") auto
  have "get_lines (c # cs) = l # get_lines (drop (Suc (length l)) (l @ LF # rest))"
    by (subst get_lines.simps) (simp only: c [symmetric] t Let_def)
  moreover have "drop (Suc (length l)) (l @ LF # rest) = rest" by simp
  ultimately show ?thesis by (simp only: c)
qed

text \<open>A symbol that survives: not empty, without the delimiter and line breaks.\<close>

definition storable :: "string \<times> i64 \<Rightarrow> bool" where
  "storable e \<longleftrightarrow> fst e \<noteq> [] \<and> CHR ''='' \<notin> set (fst e) \<and> LF \<notin> set (fst e) \<and> in_i64 (snd e)"

lemma LF_not_in_number: "LF \<notin> set (int_to_string i)"
  using to_string_clean [of LF i] by (auto simp: LF_def is_digit_def)

lemma read_written_line:
  assumes "storable e"
  shows "read_line prices (line_of e) = prices(fst e \<mapsto> snd e)"
proof -
  have "takeWhile (\<lambda>c. c \<noteq> CHR ''='') (line_of e) = fst e"
    using assms unfolding line_of_def by (subst takeWhile_append2) (auto simp: storable_def)
  moreover have "drop (Suc (length (fst e))) (line_of e) = int_to_string (snd e)"
    "line_of e \<noteq> []" "CHR ''='' \<in> set (line_of e)"
    by (simp_all add: line_of_def)
  ultimately show ?thesis
    using assms by (simp add: read_line_def storable_def Let_def)
qed

lemma get_lines_written:
  assumes "\<forall>e \<in> set es. storable e"
  shows "get_lines (concat (map write_line es)) = map line_of es"
  using assms
proof (induction es)
  case (Cons e es)
  have "LF \<notin> set (line_of e)"
    using Cons.prems LF_not_in_number by (simp add: storable_def line_of_def) (simp add: LF_def)
  then show ?case using Cons by (simp add: write_line_eq get_lines_line)
qed (simp add: get_lines.simps)

lemma fold_written_lines:
  assumes "\<forall>e \<in> set es. storable e"
  shows "foldl read_line prices (map line_of es)
    = prices ++ map_of (rev es)"
  using assms
proof (induction es arbitrary: prices)
  case (Cons e es)
  then show ?case
    using read_written_line [of e prices]
    by (cases e) (simp add: map_add_upd_left fun_upd_def map_add_def fun_eq_iff split: option.split)
qed simp

lemma add_default_nothing: "(\<forall>k. defaults k \<noteq> None \<longrightarrow> prices k \<noteq> None) \<Longrightarrow> foldl (add_default defaults) prices symbols = prices"
  by (induction symbols) (auto simp: add_default_def split: option.split)

lemma read_written:
  assumes "\<forall>e \<in> set entries. storable e" "distinct (map fst entries)"
  shows "read_market_state (write_market_state True entries file) symbols defaults
      = defaults ++ map_of entries"
proof -
  have "map_of (rev entries) = map_of entries"
    using assms(2) by (subst map_of_inject_set) (simp_all add: rev_map [symmetric])
  moreover have "foldl (add_default defaults) (defaults ++ map_of entries) symbols = defaults ++ map_of entries"
    by (rule add_default_nothing) (simp add: map_add_None)
  ultimately show ?thesis
    by (simp add: read_market_state_def write_market_state_def get_lines_written [OF assms(1)]
        fold_written_lines [OF assms(1)])
qed

text \<open>Whatever a file contains, what is read from it can be written again.\<close>

definition storable_map :: "price_map \<Rightarrow> bool" where
  "storable_map m \<longleftrightarrow> (\<forall>k v. m k = Some v \<longrightarrow> storable (k, v))"

lemma storable_map_upd: "storable_map m \<Longrightarrow> storable (k, v) \<Longrightarrow> storable_map (m(k \<mapsto> v))"
  by (simp add: storable_map_def)

lemma get_lines_clean: "l \<in> set (get_lines s) \<Longrightarrow> LF \<notin> set l"
proof (induction s rule: get_lines.induct)
  case (2 c cs)
  let ?l = "takeWhile (\<lambda>c. c \<noteq> LF) (c # cs)"
  have "LF \<notin> set ?l" using set_takeWhileD by fastforce
  moreover have "l = ?l \<or> l \<in> set (get_lines (drop (Suc (length ?l)) (c # cs)))"
    using "2.prems" by (subst (asm) get_lines.simps) (simp add: Let_def)
  ultimately show ?case using "2.IH" [OF refl] by blast
qed (simp add: get_lines.simps)

lemma read_line_storable:
  assumes "LF \<notin> set line" "storable_map prices"
  shows "storable_map (read_line prices line)"
proof -
  let ?k = "takeWhile (\<lambda>c. c \<noteq> CHR ''='') line"
  have "CHR ''='' \<notin> set ?k" "LF \<notin> set ?k" using assms(1) set_takeWhileD by fastforce+
  then have "storable (?k, v)" if "?k \<noteq> []" "stoll r = Inr v" for r v
    using that by (auto simp: storable_def stoll_def Let_def split: option.splits if_splits)
  then show ?thesis
    using assms(2) by (auto simp: read_line_def Let_def storable_map_upd split: sum.split)
qed

lemma read_lines_storable:
  "\<lbrakk>\<forall>l \<in> set ls. LF \<notin> set l; storable_map prices\<rbrakk> \<Longrightarrow> storable_map (foldl read_line prices ls)"
  by (induction ls arbitrary: prices) (simp_all add: read_line_storable)

lemma add_default_storable: "storable_map defaults \<Longrightarrow> storable_map prices \<Longrightarrow> storable_map (add_default defaults prices s)"
  by (auto simp: add_default_def storable_map_upd split: option.split) (simp add: storable_map_def)

lemma add_defaults_storable:
  "storable_map defaults \<Longrightarrow> storable_map prices \<Longrightarrow> storable_map (foldl (add_default defaults) prices symbols)"
  by (induction symbols arbitrary: prices) (simp_all add: add_default_storable)

lemma read_storable: "storable_map defaults \<Longrightarrow> storable_map (read_market_state content symbols defaults)"
  using add_defaults_storable [OF _ read_lines_storable] get_lines_clean
  by (auto simp: read_market_state_def split: option.split)

lemma read_keeps_defaults:
  assumes "defaults k \<noteq> None"
  shows "read_market_state file symbols defaults k \<noteq> None"
proof -
  have "read_line p l k \<noteq> None" if "p k \<noteq> None" for p l
    using that by (auto simp: read_line_def Let_def split: sum.splits)
  then have "foldl read_line p ls k \<noteq> None" if "p k \<noteq> None" for p ls
    using that by (induction ls arbitrary: p) auto
  moreover have "foldl (add_default defaults) p ss k \<noteq> None" if "p k \<noteq> None" for p ss
    using that by (induction ss arbitrary: p) (auto simp: add_default_def split: option.split)
  ultimately show ?thesis using assms by (auto simp: read_market_state_def split: option.split)
qed

text \<open>
  C29: saved prices are found again.  Reading the file that \<open>write_market_state\<close> has written
  gives, for every symbol that was saved, the saved price, negative ones included, and for
  every other symbol its default; for entries with distinct symbols without \<open>=\<close> and line
  breaks, in whatever order the hash map yields them.  Without a file all prices are defaults.
\<close>

theorem market_state_round_trip:
  assumes "\<forall>e \<in> set entries. storable e" "distinct (map fst entries)"
  shows "read_market_state (write_market_state True entries file) symbols defaults
      = defaults ++ map_of entries \<and>
    read_market_state None symbols defaults = defaults"
  using read_written [OF assms] by (simp add: read_market_state_def)

theorem market_state_round_trip_witness:
  "read_market_state (write_market_state True [(''AAPL'', 17500), (''MSFT'', - 3)] None) [''META'']
     [''META'' \<mapsto> 30000] ''MSFT'' = Some (- 3)"
  using market_state_round_trip [of "[(''AAPL'', 17500), (''MSFT'', - 3)]" None "[''META'']" "[''META'' \<mapsto> 30000]"]
  by (simp add: storable_def in_i64_def LF_def)

end
