(* ===== verification/Main_Loop.thy ===== *)
theory Main_Loop
  imports Bot_Manager Trading_Props Market_State_Store
begin

text \<open>
  The threads of the main program (\<open>src/main.cpp\<close>): the set-up of symbols and bots, one
  iteration of a snapshot thread, the routing of cancels, the price callback and the shutdown.
  What runs in one thread between two sleeps is one function here; thread creation, sleeping,
  signals and console output are not modelled.
\<close>

subsection \<open>Set-up\<close>

definition symbols :: "string list" where
  "symbols = [''AAPL'', ''MSFT'', ''GOOGL'', ''AMZN'', ''META'']"

definition default_initial_prices :: price_map where
  "default_initial_prices = [''AAPL'' \<mapsto> 17500, ''MSFT'' \<mapsto> 33000, ''GOOGL'' \<mapsto> 12500,
     ''AMZN'' \<mapsto> 13500, ''META'' \<mapsto> 30000]"

definition main_engines :: "'o \<Rightarrow> 'o symbol_engine list" where
  "main_engines queue = map (\<lambda>s. new_symbol_engine s queue) symbols"

text \<open>The five bots of a symbol, with the default arguments of their constructors.\<close>

definition symbol_bots :: "string \<Rightarrow> bot list" where
  "symbol_bots s =
     [Market_Maker (new_market_maker (''MM_'' @ s) s 10000 100 500),
      Spread_Bot (new_spread_bot (''Spread_'' @ s) s 5 100),
      Random_Walk (new_random_walk (''RW_'' @ s) s (3 / 10) (2 / 10) 100),
      Mean_Reversion (new_mean_reversion (''MR_'' @ s) s 20 2 100),
      Momentum (new_momentum (''Mom_'' @ s) s 15 100)]"

definition main_manager :: "'oq \<Rightarrow> 'cq \<Rightarrow> ('oq, 'cq) bot_manager" where
  "main_manager oq cq = fold (\<lambda>s. fold register_bot (symbol_bots s)) symbols (new_bot_manager oq cq)"

subsection \<open>A snapshot thread\<close>

text \<open>
  The order that was popped is copied into a pooled object and reset; then it is submitted, and
  the handle is kept whether or not the engine's queue took it.
\<close>

definition activate :: "order \<Rightarrow> order" where
  "activate x = x\<lparr>o_remaining := o_quantity x, o_filled := 0, o_status := NEW\<rparr>"

record ('p, 'oq, 'cq, 'o) thread_state =
  th_manager :: "('oq, 'cq) bot_manager"
  th_store :: store
  th_pool :: 'p
  th_storage :: "addr list"
  th_engine :: "'o symbol_engine"

definition take_order ::
  "'p pool_ops \<Rightarrow> ('o, addr) queue_ops \<Rightarrow> order \<Rightarrow> ('p, 'oq, 'cq, 'o) thread_state
    \<Rightarrow> ('p, 'oq, 'cq, 'o) thread_state" where
  "take_order P OQ tmp t =
     (case p_acquire P (th_pool t) of
        (None, pool) \<Rightarrow> t\<lparr>th_pool := pool\<rparr>
      | (Some a, pool) \<Rightarrow> t\<lparr>th_pool := pool, th_store := (th_store t)(a := activate tmp),
           th_engine := snd (on_market_order OQ (Some a) (th_engine t)),
           th_storage := th_storage t @ [a]\<rparr>)"

partial_function (option) take_orders ::
  "('oq, order) queue_ops \<Rightarrow> 'p pool_ops \<Rightarrow> ('o, addr) queue_ops \<Rightarrow> string
    \<Rightarrow> ('p, 'oq, 'cq, 'o) thread_state \<Rightarrow> ('p, 'oq, 'cq, 'o) thread_state option" where
  "take_orders Q P OQ symbol t =
     (case pop_order_for_symbol Q symbol (th_manager t) of
        (None, m) \<Rightarrow> Some (t\<lparr>th_manager := m\<rparr>)
      | (Some tmp, m) \<Rightarrow> take_orders Q P OQ symbol (take_order P OQ tmp (t\<lparr>th_manager := m\<rparr>)))"

text \<open>
  The sweep moves the handles of unfinished orders to a new vector; the handles that are left
  behind die with the old one.
\<close>

definition sweep_storage ::
  "'p pool_ops \<Rightarrow> ('p, 'oq, 'cq, 'o) thread_state \<Rightarrow> ('p, 'oq, 'cq, 'o) thread_state" where
  "sweep_storage P t =
     (let unfinished = (\<lambda>a. o_status (th_store t a) = NEW \<or> o_status (th_store t a) = PARTIAL)
      in t\<lparr>th_storage := filter unfinished (th_storage t),
           th_pool := fold (p_drop P) (filter (\<lambda>a. \<not> unfinished a) (th_storage t)) (th_pool t)\<rparr>)"

text \<open>One iteration: update and show the snapshot, take the bots' orders, sweep.\<close>

definition snapshot_cycle ::
  "('oq, order) queue_ops \<Rightarrow> 'oq \<Rightarrow> 'p pool_ops \<Rightarrow> ('o, addr) queue_ops \<Rightarrow> (nat \<Rightarrow> draws) \<Rightarrow> string
    \<Rightarrow> snapshot_manager \<times> int \<times> ('p, 'oq, 'cq, 'o) thread_state
    \<Rightarrow> (snapshot_manager \<times> int \<times> ('p, 'oq, 'cq, 'o) thread_state) res option" where
  "snapshot_cycle Q fresh P OQ ds symbol = (\<lambda>(sm, count, t).
     case poll_snapshot (sy_order_book (th_engine t)) sm of
       Inl e \<Rightarrow> Some (Inl e)
     | Inr (r, sm1) \<Rightarrow>
         let (count1, m1) = (case r of None \<Rightarrow> (count, th_manager t)
               | Some snap \<Rightarrow> manager_on_snapshot Q fresh ds snap (count, th_manager t))
         in map_option (\<lambda>t1. Inr (sm1, count1, sweep_storage P t1))
              (take_orders Q P OQ symbol (t\<lparr>th_manager := m1\<rparr>)))"

subsection \<open>Cancels\<close>

text \<open>A cancel is offered to the engines in order, until one accepts it.\<close>

fun route_cancel ::
  "u64 \<Rightarrow> ('p, 'q) trading \<Rightarrow> 'o symbol_engine list \<Rightarrow> (('p, 'q) trading \<times> 'o symbol_engine list) res" where
  "route_cancel cancel_id w [] = Inr (w, [])"
| "route_cancel cancel_id w (eng # engines) =
     res_bind (sy_cancel_order cancel_id w eng) (\<lambda>(ok, w1, eng1).
       if ok then Inr (w1, eng1 # engines)
       else res_bind (route_cancel cancel_id w1 engines) (\<lambda>(w2, engines1). Inr (w2, eng1 # engines1)))"

partial_function (option) drain_cancels ::
  "('cq, u64) queue_ops \<Rightarrow> ('oq, 'cq) bot_manager \<Rightarrow> ('p, 'q) trading \<Rightarrow> 'o symbol_engine list
    \<Rightarrow> (('oq, 'cq) bot_manager \<times> ('p, 'q) trading \<times> 'o symbol_engine list) res option" where
  "drain_cancels CQ m w engines =
     (case pop_cancel CQ m of
        (None, m1) \<Rightarrow> Some (Inr (m1, w, engines))
      | (Some cancel_id, m1) \<Rightarrow>
          (case route_cancel cancel_id w engines of
             Inl e \<Rightarrow> Some (Inl e)
           | Inr (w1, engines1) \<Rightarrow> drain_cancels CQ m1 w1 engines1))"

subsection \<open>Prices and shutdown\<close>

text \<open>The callback stores the mid price of a tick and rewrites the file.\<close>

definition on_price ::
  "bool \<Rightarrow> string \<Rightarrow> i64 \<Rightarrow> i64 \<Rightarrow> (string \<times> i64) list \<times> string option \<Rightarrow> (string \<times> i64) list \<times> string option" where
  "on_price opened symbol bid ask = (\<lambda>(prices, file).
     let mid_price = s64 (bid + ask) sdiv 2;
         prices1 = AList.update symbol mid_price prices
     in (prices1, write_market_state opened prices1 file))"

definition persist_prices ::
  "bool \<Rightarrow> price_map \<Rightarrow> (string \<times> i64) list \<Rightarrow> string option \<Rightarrow> (string \<times> i64) list \<times> string option" where
  "persist_prices opened initial_prices prices file =
     (let prices1 = foldl (\<lambda>ps s. if map_of ps s = None
            then AList.update s (case initial_prices s of None \<Rightarrow> 0 | Some p \<Rightarrow> p) ps else ps) prices symbols
      in (prices1, write_market_state opened prices1 file))"

text \<open>
  The pool and the handles of a snapshot thread are locals of its lambda.  When the thread has
  ended they are destroyed, and a pointer to one of their orders dangles: \<open>gone\<close> is the set of
  these orders.  The first thing a match cycle does with an order of its queue is to read it, so
  a cycle that pops an order that is gone faults.  (No more is checked: the makers that the order
  would meet are reached only through the order.)
\<close>

partial_function (option) late_match_cycle ::
  "addr set \<Rightarrow> 'p pool_ops \<Rightarrow> ('q, addr) queue_ops \<Rightarrow> ('o, addr) queue_ops \<Rightarrow> ('p, 'q) trading \<Rightarrow> 'o engine
    \<Rightarrow> (('p, 'q) trading \<times> 'o engine) res option" where
  "late_match_cycle gone P Q OQ w e =
     (case q_pop OQ (me_queue e) of
        (None, q) \<Rightarrow> Some (Inr (w, e\<lparr>me_queue := q\<rparr>))
      | (Some a, q) \<Rightarrow>
          if a \<in> gone then Some (Inl Dangling_Pointer)
          else Option.bind (process_order P Q a w (e\<lparr>me_queue := q\<rparr>))
            (\<lambda>r. case r of Inl err \<Rightarrow> Some (Inl err)
                  | Inr (w1, e1) \<Rightarrow> late_match_cycle gone P Q OQ w1 e1))"

fun late_cycles ::
  "nat \<Rightarrow> addr set \<Rightarrow> 'p pool_ops \<Rightarrow> ('q, addr) queue_ops \<Rightarrow> ('o, addr) queue_ops \<Rightarrow> ('p, 'q) trading
    \<Rightarrow> 'o symbol_engine \<Rightarrow> (('p, 'q) trading \<times> 'o symbol_engine) res option" where
  "late_cycles 0 gone P Q OQ w s = Some (Inr (w, s))"
| "late_cycles (Suc n) gone P Q OQ w s =
     Option.bind (late_match_cycle gone P Q OQ w (sy_engine s))
       (\<lambda>r. case r of Inl err \<Rightarrow> Some (Inl err)
             | Inr (w1, e1) \<Rightarrow> late_cycles n gone P Q OQ w1 (s\<lparr>sy_engine := e1\<rparr>))"

definition late_drain ::
  "addr set \<Rightarrow> 'p pool_ops \<Rightarrow> ('q, addr) queue_ops \<Rightarrow> ('o, addr) queue_ops \<Rightarrow> ('p, 'q) trading
    \<Rightarrow> 'o symbol_engine \<Rightarrow> (('p, 'q) trading \<times> 'o symbol_engine) res option" where
  "late_drain gone P Q OQ w s = late_cycles 100 gone P Q OQ w s"

text \<open>The final drain of all engines.\<close>

fun drain_all ::
  "addr set \<Rightarrow> 'p pool_ops \<Rightarrow> ('q, addr) queue_ops \<Rightarrow> ('o, addr) queue_ops \<Rightarrow> ('p, 'q) trading
    \<Rightarrow> 'o symbol_engine list \<Rightarrow> (('p, 'q) trading \<times> 'o symbol_engine list) res option" where
  "drain_all gone P Q OQ w [] = Some (Inr (w, []))"
| "drain_all gone P Q OQ w (eng # engines) =
     Option.bind (late_drain gone P Q OQ w eng) (\<lambda>r. case r of Inl e \<Rightarrow> Some (Inl e)
       | Inr (w1, eng1) \<Rightarrow> map_option (\<lambda>r1. res_bind r1 (\<lambda>(w2, engines1). Inr (w2, eng1 # engines1)))
           (drain_all gone P Q OQ w1 engines))"

text \<open>With nothing gone, a late cycle is a match cycle.\<close>

lemma late_match_cycle_alive:
  fixes P :: "'p pool_ops" and Q :: "('q, addr) queue_ops" and OQ :: "('o, addr) queue_ops"
  assumes r: "late_match_cycle {} P Q OQ w e = Some r"
  shows "run_match_cycle P Q OQ w e = Some r"
proof -
  let ?P = "\<lambda>(((((gone :: addr set, P :: 'p pool_ops), Q :: ('q, addr) queue_ops), OQ :: ('o, addr) queue_ops),
      w :: ('p, 'q) trading), e :: 'o engine) r. gone = {} \<longrightarrow> run_match_cycle P Q OQ w e = Some r"
  have "?P ((((({}, P), Q), OQ), w), e) r"
  proof (rule late_match_cycle.raw_induct [where Pa = ?P, OF _ r], goal_cases)
    case (1 f gone P Q OQ w e r)
    have IH: "run_match_cycle P Q OQ w1 e1 = Some r1" if "f {} P Q OQ w1 e1 = Some r1" for P Q OQ w1 e1 r1
      using 1(1) [OF that] by simp
    show ?case
      unfolding prod.case
      by (intro impI, subst run_match_cycle.simps)
        (use 1(2) IH in \<open>auto split: prod.splits option.splits sum.splits Option.bind_splits\<close>)
  qed
  then show ?thesis by simp
qed

text \<open>A queue whose first order is gone faults; an empty one is left as it is.\<close>

lemma late_match_cycle_gone:
  assumes "spsc_queue OQ contents cap" "contents (me_queue e) = a # as" "a \<in> gone"
  shows "late_match_cycle gone P Q OQ w e = Some (Inl Dangling_Pointer)"
  using spsc_queueD(3) [OF assms(1), of "me_queue e"] assms(2,3)
  by (subst late_match_cycle.simps) (auto split: prod.splits)

lemma late_match_cycle_empty:
  assumes "spsc_queue OQ contents cap" "contents (me_queue e) = []"
  shows "\<exists>q. late_match_cycle gone P Q OQ w e = Some (Inr (w, e\<lparr>me_queue := q\<rparr>)) \<and> contents q = []"
  using spsc_queueD(3,4) [OF assms(1), of "me_queue e"] assms(2)
  by (subst late_match_cycle.simps) (auto split: prod.splits)

lemma late_cycles_empty:
  assumes "spsc_queue OQ contents cap"
  shows "contents (me_queue (sy_engine s)) = [] \<Longrightarrow>
    \<exists>s'. late_cycles n gone P Q OQ w s = Some (Inr (w, s')) \<and> contents (me_queue (sy_engine s')) = []"
proof (induction n arbitrary: s)
  case (Suc n)
  obtain q where "late_match_cycle gone P Q OQ w (sy_engine s) = Some (Inr (w, (sy_engine s)\<lparr>me_queue := q\<rparr>))"
    "contents q = []"
    using late_match_cycle_empty [OF assms Suc.prems] by blast
  then show ?case using Suc.IH [of "s\<lparr>sy_engine := (sy_engine s)\<lparr>me_queue := q\<rparr>\<rparr>"] by simp
qed simp

text \<open>So the drain of engines whose queued orders are all gone returns only if all queues are empty.\<close>

lemma drain_all_gone:
  assumes OQ: "spsc_queue OQ contents cap"
  shows "\<forall>e \<in> set es. set (contents (me_queue (sy_engine e))) \<subseteq> gone \<Longrightarrow>
    if \<forall>e \<in> set es. contents (me_queue (sy_engine e)) = []
    then \<exists>es'. drain_all gone P Q OQ w es = Some (Inr (w, es'))
    else drain_all gone P Q OQ w es = Some (Inl Dangling_Pointer)"
proof (induction es)
  case (Cons e es)
  show ?case
  proof (cases "contents (me_queue (sy_engine e))")
    case Nil
    obtain e1 where "late_drain gone P Q OQ w e = Some (Inr (w, e1))"
      unfolding late_drain_def using late_cycles_empty [OF OQ Nil] by blast
    then show ?thesis using Cons Nil by (auto split: if_splits)
  next
    case (Cons a as)
    then have "a \<in> gone" using Cons.prems by auto
    then have "late_match_cycle gone P Q OQ w (sy_engine e) = Some (Inl Dangling_Pointer)"
      by (rule late_match_cycle_gone [OF OQ Cons])
    then have "late_drain gone P Q OQ w e = Some (Inl Dangling_Pointer)"
      by (simp add: late_drain_def numeral_eq_Suc)
    then show ?thesis using Cons by simp
  qed
qed simp

end
