(* ===== verification/Market_Sim.thy ===== *)
theory Market_Sim
  imports Bots Matching_Engine_Props "HOL-Library.AList" "HOL-Library.Signed_Division"
begin

text \<open>
  The market simulator (\<open>include/velox/sim/env/market_sim.hpp\<close>, \<open>src/sim/env/market_sim.cpp\<close>):
  the random walk of the prices and the two resting orders per symbol that it keeps in the
  published book.  The random draws are inputs of a tick; the order pool of the lock-free
  library is a parameter; the hash map of the active orders is an association list.  A tick
  may end in an exception or in a fault.
\<close>

datatype sim_error = Pool_Exhausted | Sim_Fault fault

definition lift_fault :: "'a res \<Rightarrow> sim_error + 'a" where
  "lift_fault r = map_sum Sim_Fault id r"

definition sim_bind :: "sim_error + 'a \<Rightarrow> ('a \<Rightarrow> sim_error + 'b) \<Rightarrow> sim_error + 'b" where
  "sim_bind m f = (case m of Inl e \<Rightarrow> Inl e | Inr x \<Rightarrow> f x)"

lemma sim_bind_simps [simp]: "sim_bind (Inl e) f = Inl e" "sim_bind (Inr x) f = f x"
  by (simp_all add: sim_bind_def)

lemma lift_fault_simps [simp]: "lift_fault (Inl e) = Inl (Sim_Fault e)" "lift_fault (Inr x) = Inr x"
  by (simp_all add: lift_fault_def)

subsection \<open>State\<close>

text \<open>The handles of the two resting orders of a symbol; a moved-from handle is empty.\<close>

record active_orders =
  ao_bid :: "addr option"
  ao_ask :: "addr option"

record symbol_orders =
  so_bid_order_id :: u64
  so_ask_order_id :: u64
  so_bid_price :: i64
  so_ask_price :: i64

record 'p simulator =
  ms_initial_prices :: "string \<rightharpoonup> i64"
  ms_default_initial_price :: i64
  ms_volatility :: i64
  ms_min_spread :: i64
  ms_max_spread :: i64
  ms_resting_quantity :: int
  ms_symbol_orders :: "string \<rightharpoonup> symbol_orders"
  ms_active_orders :: "(string \<times> active_orders) list"
  ms_pool :: 'p
  ms_next_order_id :: u64
  ms_running :: bool

definition new_simulator ::
  "(string \<rightharpoonup> i64) \<Rightarrow> i64 \<Rightarrow> i64 \<Rightarrow> i64 \<Rightarrow> u32 \<Rightarrow> 'p \<Rightarrow> 'p simulator" where
  "new_simulator prices volatility min_spread max_spread q pool =
     \<lparr>ms_initial_prices = prices, ms_default_initial_price = 10000, ms_volatility = volatility,
      ms_min_spread = min_spread, ms_max_spread = max_spread, ms_resting_quantity = sint q,
      ms_symbol_orders = Map.empty, ms_active_orders = [], ms_pool = pool,
      ms_next_order_id = 1000000, ms_running = False\<rparr>"

definition get_initial_price :: "string \<Rightarrow> 'p simulator \<Rightarrow> i64" where
  "get_initial_price symbol sim =
     (case ms_initial_prices sim symbol of Some p \<Rightarrow> p | None \<Rightarrow> ms_default_initial_price sim)"

subsection \<open>Prices\<close>

text \<open>\<open>volatility\<close> and the distribution are behind the draw \<open>delta\<close>.\<close>

definition next_price :: "i64 \<Rightarrow> real \<Rightarrow> i64" where
  "next_price current delta =
     (let p = s64 (current + to_i64 delta);
          p = (if p < 100 then 100 else p)
      in if p > 1000000 then 1000000 else p)"

definition quote :: "i64 \<Rightarrow> i64 \<Rightarrow> i64 \<times> i64" where
  "quote new_price spread =
     (let bid = s64 (new_price - spread sdiv 2); ask = s64 (new_price + spread sdiv 2)
      in (if bid < 1 then 1 else bid, if ask > 999999 then 999999 else ask))"

subsection \<open>Resting orders\<close>

text \<open>
  The fields that are assigned on an object of the pool; the others keep what they were, the
  order type among them.
\<close>

definition resting_order :: "u64 \<Rightarrow> order_side \<Rightarrow> i64 \<Rightarrow> int \<Rightarrow> string \<Rightarrow> order \<Rightarrow> order" where
  "resting_order i side px q symbol x = x\<lparr>o_order_id := i, o_side := side, o_price := px,
     o_quantity := word_of_int q, o_remaining := word_of_int q, o_filled := 0, o_status := NEW,
     o_symbol := strncpy (o_symbol x) symbol 7\<rparr>"

definition drop_handle :: "'p pool_ops \<Rightarrow> addr option \<Rightarrow> 'p \<Rightarrow> 'p" where
  "drop_handle P h p = (case h of None \<Rightarrow> p | Some a \<Rightarrow> p_drop P a p)"

definition drop_active :: "'p pool_ops \<Rightarrow> active_orders option \<Rightarrow> 'p \<Rightarrow> 'p" where
  "drop_active P old p =
     (case old of None \<Rightarrow> p | Some ao \<Rightarrow> drop_handle P (ao_bid ao) (drop_handle P (ao_ask ao) p))"

text \<open>
  Acquiring and adding the two orders, common to \<open>initialize_resting_orders\<close> and
  \<open>update_resting_orders\<close>: the result is the store, the book and the simulator, or the state at
  the failure of the first acquisition.  The second test of the code asks for the bid's handle
  again, so an exhausted pool is met with a null pointer for the ask.
\<close>

definition place_quotes ::
  "'p pool_ops \<Rightarrow> string \<Rightarrow> i64 \<Rightarrow> i64 \<Rightarrow> store \<times> order_book \<times> 'p simulator
    \<Rightarrow> sim_error + (bool \<times> store \<times> order_book \<times> 'p simulator)" where
  "place_quotes P symbol bid_price ask_price = (\<lambda>(st, b, sim).
     case p_acquire P (ms_pool sim) of
       (None, p) \<Rightarrow> Inr (False, st, b, sim\<lparr>ms_pool := p\<rparr>)
     | (Some bid_order, p) \<Rightarrow>
         let bid_id = ms_next_order_id sim + 1; q = ms_resting_quantity sim;
             st1 = upd bid_order (resting_order bid_id BUY bid_price q symbol) st
         in sim_bind (lift_fault (add_order st1 (Some bid_order) b)) (\<lambda>(_, b1).
              case p_acquire P p of
                (None, p1) \<Rightarrow> Inl (Sim_Fault Null_Pointer)
              | (Some ask_order, p1) \<Rightarrow>
                  let ask_id = bid_id + 1;
                      st2 = upd ask_order (resting_order ask_id SELL ask_price q symbol) st1
                  in sim_bind (lift_fault (add_order st2 (Some ask_order) b1)) (\<lambda>(_, b2).
                       let old = map_of (ms_active_orders sim) symbol;
                           active = \<lparr>ao_bid = Some bid_order, ao_ask = Some ask_order\<rparr>;
                           orders = \<lparr>so_bid_order_id = ask_id - 1, so_ask_order_id = ask_id,
                             so_bid_price = bid_price, so_ask_price = ask_price\<rparr>
                       in Inr (True, st2, b2, sim\<lparr>ms_next_order_id := ask_id,
                            ms_active_orders := AList.update symbol active (ms_active_orders sim),
                            ms_pool := drop_active P old p1,
                            ms_symbol_orders := (ms_symbol_orders sim)(symbol \<mapsto> orders)\<rparr>))))"

text \<open>At the start an exhausted pool is an exception.\<close>

definition initialize_resting_orders ::
  "'p pool_ops \<Rightarrow> string \<Rightarrow> i64 \<Rightarrow> store \<times> order_book \<times> 'p simulator
    \<Rightarrow> sim_error + (store \<times> order_book \<times> 'p simulator)" where
  "initialize_resting_orders P symbol initial_price s =
     sim_bind (place_quotes P symbol (s64 (initial_price - 10)) (s64 (initial_price + 10)) s)
       (\<lambda>(ok, s1). if ok then Inr s1 else Inl Pool_Exhausted)"

text \<open>In an update it is reported, and the book is left without the symbol's quotes.\<close>

definition update_resting_orders ::
  "'p pool_ops \<Rightarrow> string \<Rightarrow> i64 \<Rightarrow> i64 \<Rightarrow> store \<times> order_book \<times> 'p simulator
    \<Rightarrow> sim_error + (store \<times> order_book \<times> 'p simulator)" where
  "update_resting_orders P symbol bid_price ask_price = (\<lambda>(st, b, sim).
     case ms_symbol_orders sim symbol of
       None \<Rightarrow> Inr (st, b, sim)
     | Some orders \<Rightarrow>
         if so_bid_price orders = bid_price \<and> so_ask_price orders = ask_price then Inr (st, b, sim)
         else
           sim_bind (lift_fault (cancel_order (so_bid_order_id orders) st b)) (\<lambda>(_, st1, b1).
           sim_bind (lift_fault (cancel_order (so_ask_order_id orders) st1 b1)) (\<lambda>(_, st2, b2).
           sim_bind (place_quotes P symbol bid_price ask_price (st2, b2, sim)) (\<lambda>(_, s3). Inr s3))))"

definition clear_resting_orders :: "'p pool_ops \<Rightarrow> 'p simulator \<Rightarrow> 'p simulator" where
  "clear_resting_orders P sim = sim\<lparr>ms_pool := foldl (\<lambda>p e. drop_active P (Some (snd e)) p) (ms_pool sim) (ms_active_orders sim),
     ms_active_orders := [], ms_symbol_orders := Map.empty\<rparr>"

definition stop_simulator :: "'p pool_ops \<Rightarrow> 'p simulator \<Rightarrow> 'p simulator" where
  "stop_simulator P sim = clear_resting_orders P (sim\<lparr>ms_running := False\<rparr>)"

subsection \<open>The simulation loop\<close>

text \<open>
  The state of the simulator's thread: the prices of the walk, and the prices at the last
  update of the resting orders (a static map of the loop).  A missing entry reads as zero.
\<close>

record 'p sim_state =
  ss_store :: store
  ss_sim :: "'p simulator"
  ss_current :: "string \<rightharpoonup> i64"
  ss_last_update :: "string \<rightharpoonup> i64"

definition price_of :: "(string \<rightharpoonup> i64) \<Rightarrow> string \<Rightarrow> i64" where
  "price_of m s = (case m s of None \<Rightarrow> 0 | Some p \<Rightarrow> p)"

definition start_symbol ::
  "'p pool_ops \<Rightarrow> 'p sim_state \<times> 'o symbol_engine \<Rightarrow> sim_error + ('p sim_state \<times> 'o symbol_engine)" where
  "start_symbol P = (\<lambda>(s, e).
     let symbol = cstr (sy_symbol e); initial_price = get_initial_price symbol (ss_sim s)
     in sim_bind (initialize_resting_orders P symbol initial_price (ss_store s, sy_book e, ss_sim s))
          (\<lambda>(st, b, sim). Inr (s\<lparr>ss_store := st, ss_sim := sim,
             ss_current := (ss_current s)(symbol \<mapsto> initial_price)\<rparr>, e\<lparr>sy_book := b\<rparr>)))"

text \<open>One symbol's part of a tick, with its draws; the result includes the callback's arguments.\<close>

definition tick_symbol ::
  "'p pool_ops \<Rightarrow> real \<Rightarrow> i64 \<Rightarrow> 'p sim_state \<times> 'o symbol_engine
    \<Rightarrow> sim_error + ((i64 \<times> i64) \<times> 'p sim_state \<times> 'o symbol_engine)" where
  "tick_symbol P delta spread = (\<lambda>(s, e).
     let symbol = cstr (sy_symbol e);
         new_price = next_price (price_of (ss_current s) symbol) delta;
         (bid, ask) = quote new_price spread;
         s1 = s\<lparr>ss_current := (ss_current s)(symbol \<mapsto> new_price)\<rparr>;
         e1 = sy_set_market_price bid ask e
     in if \<bar>new_price - price_of (ss_last_update s) symbol\<bar> > 10
        then sim_bind (update_resting_orders P symbol bid ask (ss_store s1, sy_book e1, ss_sim s1))
               (\<lambda>(st, b, sim). Inr ((bid, ask), s1\<lparr>ss_store := st, ss_sim := sim,
                  ss_last_update := (ss_last_update s1)(symbol \<mapsto> new_price)\<rparr>, e1\<lparr>sy_book := b\<rparr>))
        else Inr ((bid, ask), s1, e1))"

text \<open>The start of the thread: the engines get their first quotes one after the other.\<close>

fun start_all ::
  "'p pool_ops \<Rightarrow> 'p sim_state \<Rightarrow> 'o symbol_engine list
    \<Rightarrow> sim_error + ('p sim_state \<times> 'o symbol_engine list)" where
  "start_all P s [] = Inr (s, [])"
| "start_all P s (e # es) =
     sim_bind (start_symbol P (s, e)) (\<lambda>(s1, e1).
       sim_bind (start_all P s1 es) (\<lambda>(s2, es1). Inr (s2, e1 # es1)))"

text \<open>
  The price callback acts on the engine and on the state \<open>'c\<close> of its owner; an empty
  \<open>std::function\<close> is \<open>None\<close>.
\<close>

type_synonym ('o, 'c) price_callback =
  "'o symbol_engine \<Rightarrow> i64 \<Rightarrow> i64 \<Rightarrow> 'c \<Rightarrow> 'o symbol_engine \<times> 'c"

definition call_back ::
  "('o, 'c) price_callback option \<Rightarrow> 'o symbol_engine \<Rightarrow> i64 \<Rightarrow> i64 \<Rightarrow> 'c \<Rightarrow> 'o symbol_engine \<times> 'c" where
  "call_back cb e bid ask c = (case cb of None \<Rightarrow> (e, c) | Some f \<Rightarrow> f e bid ask c)"

text \<open>A whole tick over the engines, with one pair of draws for each.\<close>

fun tick_all ::
  "'p pool_ops \<Rightarrow> ('o, 'c) price_callback option \<Rightarrow> (real \<times> i64) list \<Rightarrow> 'p sim_state \<times> 'c
    \<Rightarrow> 'o symbol_engine list \<Rightarrow> sim_error + (('p sim_state \<times> 'c) \<times> 'o symbol_engine list)" where
  "tick_all P cb ((delta, spread) # ds) (s, c) (e # es) =
     sim_bind (tick_symbol P delta spread (s, e)) (\<lambda>((bid, ask), s1, e1).
       case call_back cb e1 bid ask c of (e2, c1) \<Rightarrow>
         sim_bind (tick_all P cb ds (s1, c1) es) (\<lambda>(sc, es2). Inr (sc, e2 # es2)))"
| "tick_all P cb ds sc es = Inr (sc, es)"

end
