(* ===== verification/Program.thy ===== *)
theory Program
  imports Main_Loop Market_Sim Decimal
begin

text \<open>
  The whole program (\<open>src/main.cpp\<close>): its objects in one record, one pass of each of its
  threads as a function on that record, the start and the shutdown, and the runs of the
  program as a step relation.  A pass is what a thread does between two sleeps or yields;
  a run interleaves whole passes of all threads in any order.
\<close>

subsection \<open>State\<close>

text \<open>The operations of the lock-free library, and a queue as it is constructed.\<close>

record ('g, 'q, 'o, 'oq, 'cq, 'p) library =
  lib_report_pool :: "'g pool_ops"
  lib_report_queue :: "('q, addr) queue_ops"
  lib_order_queue :: "('o, addr) queue_ops"
  lib_bot_queue :: "('oq, order) queue_ops"
  lib_cancel_queue :: "('cq, u64) queue_ops"
  lib_order_pool :: "'p pool_ops"
  lib_new_bot_queue :: 'oq

text \<open>What the lambda of a snapshot thread owns.\<close>

record 'p snapshot_thread =
  st_symbol :: string
  st_manager :: snapshot_manager
  st_pool :: 'p
  st_storage :: "addr list"

text \<open>
  The locals of \<open>main\<close>, the static counter of the market makers, and the state of the
  simulator's thread; \<open>pg_started\<close> says that it has placed the first quotes, \<open>pg_running\<close> is
  \<open>g_running\<close>.
\<close>

record ('g, 'q, 'o, 'oq, 'cq, 'p) program =
  pg_trading :: "('g, 'q) trading"
  pg_engines :: "'o symbol_engine list"
  pg_bots :: "('oq, 'cq) bot_manager"
  pg_count :: int
  pg_threads :: "'p snapshot_thread list"
  pg_sim :: "'p simulator"
  pg_current :: "string \<rightharpoonup> i64"
  pg_last_update :: "string \<rightharpoonup> i64"
  pg_started :: bool
  pg_running :: bool
  pg_prices :: "(string \<times> i64) list"
  pg_file :: "string option"

definition main_gateway :: "nat \<Rightarrow> 'q \<Rightarrow> 'g \<Rightarrow> (addr \<Rightarrow> exec_report) \<Rightarrow> ('g, 'q) gateway" where
  "main_gateway num_workers queue pool objects = (add_worker queue ^^ num_workers) (new_gateway pool True objects)"

definition main_threads :: "'p list \<Rightarrow> 'p snapshot_thread list" where
  "main_threads bot_pools = map2 (\<lambda>s pool. \<lparr>st_symbol = s, st_manager = new_snapshot_manager 5,
     st_pool = pool, st_storage = []\<rparr>) symbols bot_pools"

definition main_trading :: "store \<Rightarrow> ('g, 'q) gateway \<Rightarrow> ('g, 'q) trading" where
  "main_trading st gateway = \<lparr>tr_store = st, tr_risk = Some new_risk_manager,
     tr_gateway = Some gateway, tr_positions = Some Map.empty\<rparr>"

text \<open>
  The set-up.  \<open>prices\<close> are the entries of the map that \<open>read_market_state\<close> returns, in the
  order of the copy's iteration.
\<close>

definition program_start ::
  "('g, 'q) gateway \<Rightarrow> 'o \<Rightarrow> 'oq \<Rightarrow> 'cq \<Rightarrow> 'p list \<Rightarrow> 'p \<Rightarrow> store \<Rightarrow> string option \<Rightarrow> (string \<times> i64) list
    \<Rightarrow> ('g, 'q, 'o, 'oq, 'cq, 'p) program" where
  "program_start gateway order_queue bot_queue cancel_queue bot_pools sim_pool st file prices =
     \<lparr>pg_trading = main_trading st gateway, pg_engines = main_engines order_queue,
      pg_bots = main_manager bot_queue cancel_queue, pg_count = 0, pg_threads = main_threads bot_pools,
      pg_sim = new_simulator (map_of prices) 50 5 50 500 sim_pool,
      pg_current = Map.empty, pg_last_update = Map.empty, pg_started = False, pg_running = True,
      pg_prices = prices, pg_file = file\<rparr>"

subsection \<open>Worker and cancel threads\<close>

definition worker_pass ::
  "('g, 'q, 'o, 'oq, 'cq, 'p) library \<Rightarrow> nat \<Rightarrow> ('g, 'q, 'o, 'oq, 'cq, 'p) program
    \<Rightarrow> ('g, 'q, 'o, 'oq, 'cq, 'p) program res option" where
  "worker_pass L i s =
     map_option (\<lambda>r. res_bind r (\<lambda>(w, e). Inr (s\<lparr>pg_trading := w, pg_engines := (pg_engines s)[i := e]\<rparr>)))
       (sy_run_match_cycle (lib_report_pool L) (lib_report_queue L) (lib_order_queue L)
          (pg_trading s) (pg_engines s ! i))"

definition cancel_pass ::
  "('g, 'q, 'o, 'oq, 'cq, 'p) library \<Rightarrow> ('g, 'q, 'o, 'oq, 'cq, 'p) program
    \<Rightarrow> ('g, 'q, 'o, 'oq, 'cq, 'p) program res option" where
  "cancel_pass L s =
     map_option (\<lambda>r. res_bind r (\<lambda>(m, w, es). Inr (s\<lparr>pg_bots := m, pg_trading := w, pg_engines := es\<rparr>)))
       (drain_cancels (lib_cancel_queue L) (pg_bots s) (pg_trading s) (pg_engines s))"

subsection \<open>Snapshot threads\<close>

fun find_engine :: "string \<Rightarrow> 'o symbol_engine list \<Rightarrow> nat option" where
  "find_engine symbol [] = None"
| "find_engine symbol (pe # engines) =
     (if symbol = cstr (sy_symbol pe) then Some 0 else map_option Suc (find_engine symbol engines))"

text \<open>The view of a snapshot thread: its locals, and the shared objects it works on.\<close>

definition thread_view ::
  "('g, 'q, 'o, 'oq, 'cq, 'p) program \<Rightarrow> nat \<Rightarrow> 'p snapshot_thread \<Rightarrow> ('p, 'oq, 'cq, 'o) thread_state" where
  "thread_view s k t = \<lparr>th_manager = pg_bots s, th_store = tr_store (pg_trading s), th_pool = st_pool t,
     th_storage = st_storage t, th_engine = pg_engines s ! k\<rparr>"

definition put_view ::
  "nat \<Rightarrow> nat \<Rightarrow> snapshot_manager \<times> int \<times> ('p, 'oq, 'cq, 'o) thread_state
    \<Rightarrow> ('g, 'q, 'o, 'oq, 'cq, 'p) program \<Rightarrow> ('g, 'q, 'o, 'oq, 'cq, 'p) program" where
  "put_view i k = (\<lambda>(sm, count, th) s. s\<lparr>pg_trading := (pg_trading s)\<lparr>tr_store := th_store th\<rparr>,
     pg_engines := (pg_engines s)[k := th_engine th], pg_bots := th_manager th, pg_count := count,
     pg_threads := (pg_threads s)[i := (pg_threads s ! i)\<lparr>st_manager := sm, st_pool := th_pool th,
       st_storage := th_storage th\<rparr>]\<rparr>)"

text \<open>A thread whose symbol has no engine leaves its loop.\<close>

definition snapshot_pass ::
  "('g, 'q, 'o, 'oq, 'cq, 'p) library \<Rightarrow> (nat \<Rightarrow> draws) \<Rightarrow> nat \<Rightarrow> ('g, 'q, 'o, 'oq, 'cq, 'p) program
    \<Rightarrow> ('g, 'q, 'o, 'oq, 'cq, 'p) program res option" where
  "snapshot_pass L ds i s =
     (let t = pg_threads s ! i in
      case find_engine (st_symbol t) (pg_engines s) of
        None \<Rightarrow> Some (Inr s)
      | Some k \<Rightarrow>
          map_option (\<lambda>r. res_bind r (\<lambda>x. Inr (put_view i k x s)))
            (snapshot_cycle (lib_bot_queue L) (lib_new_bot_queue L) (lib_order_pool L) (lib_order_queue L)
               ds (st_symbol t) (st_manager t, pg_count s, thread_view s k t)))"

subsection \<open>The simulator's thread\<close>

definition sim_view :: "('g, 'q, 'o, 'oq, 'cq, 'p) program \<Rightarrow> 'p sim_state" where
  "sim_view s = \<lparr>ss_store = tr_store (pg_trading s), ss_sim = pg_sim s, ss_current = pg_current s,
     ss_last_update = pg_last_update s\<rparr>"

definition put_sim ::
  "'p sim_state \<Rightarrow> 'o symbol_engine list \<Rightarrow> ('g, 'q, 'o, 'oq, 'cq, 'p) program
    \<Rightarrow> ('g, 'q, 'o, 'oq, 'cq, 'p) program" where
  "put_sim x es s = s\<lparr>pg_trading := (pg_trading s)\<lparr>tr_store := ss_store x\<rparr>, pg_engines := es,
     pg_sim := ss_sim x, pg_current := ss_current x, pg_last_update := ss_last_update x\<rparr>"

definition start_pass ::
  "('g, 'q, 'o, 'oq, 'cq, 'p) library \<Rightarrow> ('g, 'q, 'o, 'oq, 'cq, 'p) program
    \<Rightarrow> sim_error + ('g, 'q, 'o, 'oq, 'cq, 'p) program" where
  "start_pass L s =
     sim_bind (start_all (lib_order_pool L) ((sim_view s)\<lparr>ss_sim := (pg_sim s)\<lparr>ms_running := True\<rparr>\<rparr>) (pg_engines s))
       (\<lambda>(x, es). Inr ((put_sim x es s)\<lparr>pg_started := True\<rparr>))"

text \<open>
  The callback of the main program leaves the engine alone; \<open>opened\<close> says for which symbols
  the file could be opened in this tick.
\<close>

definition price_logger ::
  "(string \<Rightarrow> bool) \<Rightarrow> ('o, (string \<times> i64) list \<times> string option) price_callback" where
  "price_logger opened e bid ask c =
     (let symbol = cstr (sy_symbol e) in (e, on_price (opened symbol) symbol bid ask c))"

definition tick_pass ::
  "('g, 'q, 'o, 'oq, 'cq, 'p) library \<Rightarrow> (string \<Rightarrow> bool) \<Rightarrow> (real \<times> i64) list
    \<Rightarrow> ('g, 'q, 'o, 'oq, 'cq, 'p) program \<Rightarrow> sim_error + ('g, 'q, 'o, 'oq, 'cq, 'p) program" where
  "tick_pass L opened ds s =
     sim_bind (tick_all (lib_order_pool L) (Some (price_logger opened)) ds
         (sim_view s, pg_prices s, pg_file s) (pg_engines s))
       (\<lambda>((x, prices, file), es). Inr ((put_sim x es s)\<lparr>pg_prices := prices, pg_file := file\<rparr>))"

text \<open>The spreads come from a uniform distribution between the two limits of the simulator.\<close>

definition sim_draws :: "('g, 'q, 'o, 'oq, 'cq, 'p) program \<Rightarrow> (real \<times> i64) list \<Rightarrow> bool" where
  "sim_draws s ds \<longleftrightarrow> length ds = length (pg_engines s) \<and>
     (\<forall>(delta, spread) \<in> set ds. ms_min_spread (pg_sim s) \<le> spread \<and> spread \<le> ms_max_spread (pg_sim s))"

subsection \<open>Runs and shutdown\<close>

text \<open>The trading time in minutes; \<open>std::stoi\<close> may throw.\<close>

definition trading_minutes :: "string list \<Rightarrow> conversion_error + int" where
  "trading_minutes argv = (if length argv > 1 then stoi (argv ! 1) else Inr 10)"

text \<open>A signal, or the end of the trading time, clears the flag that every loop reads.\<close>

definition stop_running ::
  "('g, 'q, 'o, 'oq, 'cq, 'p) program \<Rightarrow> ('g, 'q, 'o, 'oq, 'cq, 'p) program" where
  "stop_running s = s\<lparr>pg_running := False\<rparr>"

text \<open>
  The threads of the workers, the snapshots and the cancels run while \<open>pg_running\<close> holds, the
  simulator while its own flag does.
\<close>

inductive program_step ::
  "('g, 'q, 'o, 'oq, 'cq, 'p) library \<Rightarrow> ('g, 'q, 'o, 'oq, 'cq, 'p) program
    \<Rightarrow> ('g, 'q, 'o, 'oq, 'cq, 'p) program \<Rightarrow> bool" for L where
  Worker: "\<lbrakk>pg_running s; i < length (pg_engines s); worker_pass L i s = Some (Inr s')\<rbrakk> \<Longrightarrow> program_step L s s'"
| Snapshot: "\<lbrakk>pg_running s; i < length (pg_threads s); snapshot_pass L ds i s = Some (Inr s')\<rbrakk> \<Longrightarrow> program_step L s s'"
| Cancels: "\<lbrakk>pg_running s; cancel_pass L s = Some (Inr s')\<rbrakk> \<Longrightarrow> program_step L s s'"
| Start: "\<lbrakk>\<not> pg_started s; start_pass L s = Inr s'\<rbrakk> \<Longrightarrow> program_step L s s'"
| Tick: "\<lbrakk>pg_started s; ms_running (pg_sim s); sim_draws s ds; tick_pass L opened ds s = Inr s'\<rbrakk> \<Longrightarrow> program_step L s s'"
| Stop: "program_step L s (stop_running s)"

text \<open>
  The shutdown, with the loops of the other threads at their end: the prices are written, the
  simulator stops, the snapshot threads end, the cancel thread takes what is left, and the
  engines are drained.
\<close>

definition close_market ::
  "('g, 'q, 'o, 'oq, 'cq, 'p) library \<Rightarrow> bool \<Rightarrow> ('g, 'q, 'o, 'oq, 'cq, 'p) program
    \<Rightarrow> ('g, 'q, 'o, 'oq, 'cq, 'p) program" where
  "close_market L opened s =
     (case persist_prices opened (ms_initial_prices (pg_sim s)) (pg_prices s) (pg_file s) of
        (prices, file) \<Rightarrow> s\<lparr>pg_prices := prices, pg_file := file,
           pg_sim := stop_simulator (lib_order_pool L) (pg_sim s)\<rparr>)"

text \<open>
  When the snapshot threads are joined, their locals have been destroyed, \<open>bot_pool\<close> and
  \<open>bot_storage\<close> among them: the orders whose handles the threads held are gone.  (So are the free
  objects of the pools; that no engine still points to one of those is part of \<open>engine_owns\<close>.)
  Cancels that the cancel thread would still find are not checked against these orders: nothing in
  the program pushes a cancel, and \<open>program_owns\<close> keeps its queue empty in every run.
\<close>

definition dead_orders :: "('g, 'q, 'o, 'oq, 'cq, 'p) program \<Rightarrow> addr set" where
  "dead_orders s = (\<Union>t \<in> set (pg_threads s). set (st_storage t))"

definition shutdown ::
  "('g, 'q, 'o, 'oq, 'cq, 'p) library \<Rightarrow> bool \<Rightarrow> ('g, 'q, 'o, 'oq, 'cq, 'p) program
    \<Rightarrow> ('g, 'q, 'o, 'oq, 'cq, 'p) program res option" where
  "shutdown L opened s =
     Option.bind (cancel_pass L (close_market L opened s)) (\<lambda>r. case r of Inl err \<Rightarrow> Some (Inl err)
       | Inr s1 \<Rightarrow> map_option (\<lambda>r1. res_bind r1 (\<lambda>(w, es). Inr (s1\<lparr>pg_trading := w, pg_engines := es\<rparr>)))
           (drain_all (dead_orders s1) (lib_report_pool L) (lib_report_queue L) (lib_order_queue L)
              (pg_trading s1) (pg_engines s1)))"

text \<open>The line of the final statistics for each symbol.\<close>

definition final_stats :: "('g, 'q, 'o, 'oq, 'cq, 'p) program \<Rightarrow> (string \<times> u64 \<times> u64 \<times> u64) list" where
  "final_stats s = map (\<lambda>e. let st = get_stats (sy_engine e) in (cstr (sy_symbol e),
     es_orders_matched st, es_orders_rejected st, es_orders_partially_filled st)) (pg_engines s)"

end
