(* ===== verification/Main_Props.thy ===== *)
theory Main_Props
  imports Main_Loop
begin

text \<open>
  What the loops of the main program do: the orders of the bots reach the engine, the cancel
  thread's routing, and the market makers under the shared counter.
\<close>

subsection \<open>From the bots to the engine\<close>

lemma take_orders_done:
  assumes "spsc_queue Q contents cap" "waiting contents (th_manager t) symbol = []"
  shows "\<exists>m. take_orders Q P OQ symbol t = Some (t\<lparr>th_manager := m\<rparr>) \<and>
    (\<forall>s. waiting contents m s = waiting contents (th_manager t) s)"
proof -
  let ?r = "pop_order_for_symbol Q symbol (th_manager t)"
  have "fst ?r = None" "\<And>s. waiting contents (snd ?r) s = waiting contents (th_manager t) s"
    using waiting_pop [OF assms(1), of symbol "th_manager t"] assms(2) by simp_all
  then show ?thesis by (cases ?r) (auto simp: take_orders.simps)
qed

lemma take_orders_runs:
  assumes Q: "spsc_queue Q contents cap" and OQ: "spsc_queue OQ ocontents ocap" and P: "object_pool P free"
  shows "\<lbrakk>waiting contents (th_manager t) symbol = xs; finite (free (th_pool t));
      length xs \<le> card (free (th_pool t));
      length (ocontents (me_queue (sy_engine (th_engine t)))) + length xs \<le> ocap\<rbrakk>
    \<Longrightarrow> \<exists>t' as. take_orders Q P OQ symbol t = Some t' \<and> length as = length xs \<and> distinct as \<and>
      set as \<subseteq> free (th_pool t) \<and> free (th_pool t') = free (th_pool t) - set as \<and>
      map (th_store t') as = map activate xs \<and>
      (\<forall>a. a \<notin> set as \<longrightarrow> th_store t' a = th_store t a) \<and>
      th_storage t' = th_storage t @ as \<and>
      ocontents (me_queue (sy_engine (th_engine t'))) = ocontents (me_queue (sy_engine (th_engine t))) @ as \<and>
      (\<forall>s. waiting contents (th_manager t') s = (if s = symbol then [] else waiting contents (th_manager t) s))"
proof (induction xs arbitrary: t)
  case Nil
  then obtain m where "take_orders Q P OQ symbol t = Some (t\<lparr>th_manager := m\<rparr>)"
    "\<forall>s. waiting contents m s = waiting contents (th_manager t) s"
    using take_orders_done [OF Q] by blast
  then show ?case using Nil by (intro exI [of _ "t\<lparr>th_manager := m\<rparr>"] exI [of _ "[]"]) auto
next
  case (Cons x xs)
  let ?r = "pop_order_for_symbol Q symbol (th_manager t)"
  obtain m where pop: "?r = (Some x, m)"
    "\<And>s. waiting contents m s = (if s = symbol then xs else waiting contents (th_manager t) s)"
    using waiting_pop [OF Q, of symbol "th_manager t"] Cons.prems(1) by (cases ?r) auto
  obtain a pool where acq: "p_acquire P (th_pool t) = (Some a, pool)"
    using object_poolD(3) [OF P] Cons.prems(2,3) by (cases "p_acquire P (th_pool t)"; cases "fst (p_acquire P (th_pool t))") auto
  note a = object_poolD(1,2) [OF P acq]
  let ?t = "take_order P OQ x (t\<lparr>th_manager := m\<rparr>)"
  have q: "ocontents (me_queue (sy_engine (th_engine ?t))) = ocontents (me_queue (sy_engine (th_engine t))) @ [a]"
    using spsc_queueD(2) [OF OQ, of a "me_queue (sy_engine (th_engine t))"] Cons.prems(4)
    by (auto simp: take_order_def acq on_market_order_def submit_order_def split: prod.splits)
  have t: "th_pool ?t = pool" "th_store ?t = (th_store t)(a := activate x)" "th_storage ?t = th_storage t @ [a]"
    "th_manager ?t = m"
    by (simp_all add: take_order_def acq)
  have pre: "waiting contents (th_manager ?t) symbol = xs" "finite (free (th_pool ?t))"
    "length xs \<le> card (free (th_pool ?t))"
    "length (ocontents (me_queue (sy_engine (th_engine ?t)))) + length xs \<le> ocap"
    using Cons.prems a by (simp_all add: t q pop(2) card_Diff_singleton)
  obtain t' as where "take_orders Q P OQ symbol ?t = Some t' \<and> length as = length xs \<and> distinct as \<and>
      set as \<subseteq> free (th_pool ?t) \<and> free (th_pool t') = free (th_pool ?t) - set as \<and>
      map (th_store t') as = map activate xs \<and>
      (\<forall>b. b \<notin> set as \<longrightarrow> th_store t' b = th_store ?t b) \<and>
      th_storage t' = th_storage ?t @ as \<and>
      ocontents (me_queue (sy_engine (th_engine t'))) = ocontents (me_queue (sy_engine (th_engine ?t))) @ as \<and>
      (\<forall>s. waiting contents (th_manager t') s = (if s = symbol then [] else waiting contents (th_manager ?t) s))"
    using Cons.IH [OF pre] by blast
  note IH = this [unfolded t q]
  have "take_orders Q P OQ symbol t = Some t'" using IH pop(1) by (simp add: take_orders.simps [of _ _ _ _ t])
  moreover have "a \<notin> set as" using IH a by blast
  ultimately show ?case
    using IH a pop(2) by (intro exI [of _ t'] exI [of _ "a # as"]) auto
qed

lemma sweep_simps:
  "th_storage (sweep_storage P t) = filter (\<lambda>a. is_active (th_store t a)) (th_storage t)"
  "th_store (sweep_storage P t) = th_store t" "th_engine (sweep_storage P t) = th_engine t"
  "th_manager (sweep_storage P t) = th_manager t"
  by (simp_all add: sweep_storage_def Let_def is_active_def)

lemma free_drops:
  assumes "object_pool P free"
  shows "free (fold (p_drop P) as p) = free p \<union> set as"
  by (induction as arbitrary: p) (auto simp: object_poolD(4) [OF assms])

lemma activate_active [simp]: "is_active (activate x)"
  by (simp add: activate_def is_active_def)

text \<open>
  C18: from the bots to the engine.  When the pool has an object for every waiting order of the
  symbol and the engine's queue has room, the loop of a snapshot thread ends; it puts every
  waiting order, reset to unfilled, into an object of its own that was free, queues the objects
  at the engine in the order in which the orders were submitted, and leaves no order of the
  symbol waiting and those of the other symbols alone.  The sweep then keeps exactly the
  handles of the unfinished orders, the new ones among them, and returns the others to the pool.
\<close>

theorem bot_orders_reach_the_engine:
  assumes "spsc_queue Q contents cap" "spsc_queue OQ ocontents ocap" "object_pool P free"
    "waiting contents (th_manager t) symbol = xs" "finite (free (th_pool t))"
    "length xs \<le> card (free (th_pool t))"
    "length (ocontents (me_queue (sy_engine (th_engine t)))) + length xs \<le> ocap"
    "set (th_storage t) \<inter> free (th_pool t) = {}"
  shows "\<exists>t' as. map_option (sweep_storage P) (take_orders Q P OQ symbol t) = Some t' \<and>
    distinct as \<and> set as \<subseteq> free (th_pool t) \<and> map (th_store t') as = map activate xs \<and>
    ocontents (me_queue (sy_engine (th_engine t'))) = ocontents (me_queue (sy_engine (th_engine t))) @ as \<and>
    th_storage t' = filter (\<lambda>a. is_active (th_store t a)) (th_storage t) @ as \<and>
    free (th_pool t') = (free (th_pool t) - set as) \<union> {a \<in> set (th_storage t). \<not> is_active (th_store t a)} \<and>
    (\<forall>s. waiting contents (th_manager t') s = (if s = symbol then [] else waiting contents (th_manager t) s))"
proof -
  obtain t1 as where t1: "take_orders Q P OQ symbol t = Some t1" "length as = length xs" "distinct as"
      "set as \<subseteq> free (th_pool t)" "free (th_pool t1) = free (th_pool t) - set as"
      "map (th_store t1) as = map activate xs" "\<forall>a. a \<notin> set as \<longrightarrow> th_store t1 a = th_store t a"
      "th_storage t1 = th_storage t @ as"
      "ocontents (me_queue (sy_engine (th_engine t1))) = ocontents (me_queue (sy_engine (th_engine t))) @ as"
      "\<forall>s. waiting contents (th_manager t1) s = (if s = symbol then [] else waiting contents (th_manager t) s)"
    using take_orders_runs [OF assms(1-7)] by blast
  have old: "th_store t1 a = th_store t a" if "a \<in> set (th_storage t)" for a
    using that t1(4,7) assms(8) by blast
  have new: "is_active (th_store t1 a)" if "a \<in> set as" for a
  proof -
    have "th_store t1 a \<in> set (map activate xs)" using that t1(6) by (metis image_eqI set_map)
    then show ?thesis by auto
  qed
  have f: "filter (\<lambda>a. is_active (th_store t1 a)) (th_storage t)
      = filter (\<lambda>a. is_active (th_store t a)) (th_storage t)"
    using old by (intro filter_cong) auto
  have "free (th_pool (sweep_storage P t1))
      = (free (th_pool t) - set as) \<union> {a \<in> set (th_storage t1). \<not> is_active (th_store t1 a)}"
    by (simp add: sweep_storage_def Let_def free_drops [OF assms(3)] t1(5) is_active_def)
  also have "{a \<in> set (th_storage t1). \<not> is_active (th_store t1 a)}
      = {a \<in> set (th_storage t). \<not> is_active (th_store t a)}"
    using old new by (auto simp: t1(8))
  finally have fr: "free (th_pool (sweep_storage P t1))
      = (free (th_pool t) - set as) \<union> {a \<in> set (th_storage t). \<not> is_active (th_store t a)}" .
  have "th_storage (sweep_storage P t1) = filter (\<lambda>a. is_active (th_store t a)) (th_storage t) @ as"
    using new by (simp only: sweep_simps t1(8) filter_append f) simp
  then show ?thesis
    using t1(3,4,6,9,10) fr
    by (intro exI [of _ "sweep_storage P t1"] exI [of _ as]) (simp only: t1(1) option.map sweep_simps simp_thms)
qed

text \<open>A thread with one waiting order, a finished order in its storage and two free objects.\<close>

definition demo_thread :: "(addr list, order list, u64 list, addr list) thread_state" where
  "demo_thread = \<lparr>th_manager = (new_bot_manager [] [])\<lparr>bm_order_queues :=
       [(''AAPL'', [bot_order 40001 BUY 10105 100 ''AAPL''])]\<rparr>,
     th_store = (\<lambda>_. default_order)(5 := default_order\<lparr>o_status := FILLED\<rparr>), th_pool = [7, 8],
     th_storage = [5], th_engine = new_symbol_engine ''AAPL'' []\<rparr>"

theorem bot_orders_reach_the_engine_witness:
  "\<exists>t' a. map_option (sweep_storage stack_pool)
       (take_orders (list_queue 65535) stack_pool (list_queue 65535) ''AAPL'' demo_thread) = Some t' \<and>
     th_storage t' = [a] \<and> a \<in> {7, 8} \<and> o_order_id (th_store t' a) = 40001 \<and>
     me_queue (sy_engine (th_engine t')) = [a] \<and> 5 \<in> set (th_pool t')"
proof -
  have d: "waiting (\<lambda>q. q) (th_manager demo_thread) ''AAPL'' = [bot_order 40001 BUY 10105 100 ''AAPL'']"
    "th_pool demo_thread = [7, 8]" "th_storage demo_thread = [5]" "\<not> is_active (th_store demo_thread 5)"
    "me_queue (sy_engine (th_engine demo_thread)) = []"
    by (simp_all add: demo_thread_def waiting_def new_symbol_engine_def new_engine_def is_active_def)
  show ?thesis
    using bot_orders_reach_the_engine [OF list_queue_ok [of 65535] list_queue_ok [of 65535] stack_pool_ok d(1)]
    by (simp add: d) (use d(4) in \<open>auto simp: map_eq_Cons_conv activate_def\<close>)
qed

text \<open>
  C31: filled makers are never released.  Matching does not touch the status of a resting order,
  however completely it fills it; so while an accepted order is processed every other order
  keeps its status, and the sweep of a snapshot thread keeps the handle of each order that was
  active before.  Only the order that is processed last can become FILLED: the handle of an
  order that rests and is filled later stays in the vector, and its object is lost to the pool.
\<close>

theorem filled_makers_are_never_released:
  assumes "object_pool P free" "engine_inv free w e" "processable w e a" "check_risk w a"
    "b \<noteq> a" "is_active (tr_store w b)"
  shows "\<exists>w' e'. process_order P Q a w e = Some (Inr (w', e')) \<and>
    o_status (tr_store w' b) = o_status (tr_store w b) \<and>
    o_filled (tr_store w' b) + o_remaining (tr_store w' b) = o_filled (tr_store w b) + o_remaining (tr_store w b) \<and>
    (\<forall>t. th_store t = tr_store w' \<and> b \<in> set (th_storage t) \<longrightarrow> b \<in> set (th_storage (sweep_storage BP t)))"
proof -
  let ?x = "convert_market (tr_store w a)"
  let ?opp = "side_book (tr_store w) (me_book e) (\<not> is_buy ?x)"
  obtain w' e' where r: "process_order P Q a w e = Some (Inr (w', e'))"
    and st: "tr_store w' = upd a final_status (apply_fills a
      (trades (is_buy ?x) (o_price ?x) (o_remaining ?x) ?opp) ((tr_store w)(a := ?x)))"
    by (rule process_accepted [OF assms(1-4), where Q = Q]) simp
  have b: "o_status (tr_store w' b) = o_status (tr_store w b)"
    "o_filled (tr_store w' b) + o_remaining (tr_store w' b) = o_filled (tr_store w b) + o_remaining (tr_store w b)"
    using assms(5) by (simp_all add: st)
  then have "is_active (tr_store w' b)" using assms(6) by (simp add: is_active_def)
  then show ?thesis using r b by (intro exI [of _ w'] exI [of _ e']) (simp add: sweep_simps)
qed

theorem filled_makers_are_never_released_witness:
  "\<exists>w' e'. process_order stack_pool (list_queue 4) 30 demo_trading demo_engine = Some (Inr (w', e')) \<and>
     o_status (tr_store w' 10) = NEW \<and>
     (\<forall>t. th_store t = tr_store w' \<and> 10 \<in> set (th_storage t) \<longrightarrow> 10 \<in> set (th_storage (sweep_storage stack_pool t)))"
proof -
  have "is_active (tr_store demo_trading 10)" "o_status (tr_store demo_trading 10) = NEW"
    by (simp_all add: demo_trading_def demo_store_def demo_order_def default_order_def is_active_def)
  then show ?thesis
    using filled_makers_are_never_released [OF stack_pool_ok demo_engine_inv demo_processable demo_check_risk,
        of 10 "list_queue 4" stack_pool] by auto
qed

subsection \<open>Cancels\<close>

lemma cancel_unknown:
  "ob_index (me_book (sy_engine eng)) i = None \<Longrightarrow> sy_cancel_order i w eng = Inr (False, w, eng)"
  by (simp add: sy_cancel_order_def engine_cancel_def cancel_order_def)

lemma route_cancel_pre:
  "\<lbrakk>\<forall>eng \<in> set pre. ob_index (me_book (sy_engine eng)) i = None; sy_cancel_order i w eng = Inr (True, w1, eng1)\<rbrakk>
    \<Longrightarrow> route_cancel i w (pre @ eng # post) = Inr (w1, pre @ eng1 # post)"
  by (induction pre) (simp_all add: cancel_unknown)

text \<open>
  A cancel takes the first engine that knows the id.  Order ids are only unique within one
  bot: the bots of a class start from the same number for every symbol, so two engines may both
  hold an order of the same id.  The cancel thread asks the engines in order and stops at the
  first one that knows the id: the order there is cancelled and leaves its book, and all other
  engines stay as they are, whichever of the orders the cancel was meant for.
\<close>

theorem cancel_takes_first_engine:
  assumes "\<forall>e \<in> set pre. ob_index (me_book (sy_engine e)) i = None"
    "book_inv (tr_store w) (me_book (sy_engine eng))" "ob_index (me_book (sy_engine eng)) i = Some loc"
    "ob_p2l (me_book (sy_engine eng)) (loc_price loc) \<noteq> None"
  shows "\<exists>w1 eng1. route_cancel i w (pre @ eng # post) = Inr (w1, pre @ eng1 # post) \<and>
    o_order_id (tr_store w (loc_order loc)) = i \<and>
    tr_store w1 = upd (loc_order loc) cancel (tr_store w) \<and> tr_positions w1 = tr_positions w \<and>
    sy_book eng1 = sy_book eng \<and> book_inv (tr_store w1) (me_book (sy_engine eng1)) \<and>
    (\<forall>s. side_book (tr_store w1) (me_book (sy_engine eng1)) s
       = filter (\<lambda>x. entry_order x \<noteq> loc_order loc) (side_book (tr_store w) (me_book (sy_engine eng)) s))"
proof -
  let ?a = "loc_order loc"
  obtain b where b: "cancel_order i (tr_store w) (me_book (sy_engine eng)) = Inr (True, upd ?a cancel (tr_store w), b)"
    "book_inv (upd ?a cancel (tr_store w)) b"
    "\<forall>s. side_book (upd ?a cancel (tr_store w)) b s
       = filter (\<lambda>x. entry_order x \<noteq> ?a) (side_book (tr_store w) (me_book (sy_engine eng)) s)"
    using cancel_order_ok [OF assms(2-4)] by metis
  let ?w = "w\<lparr>tr_store := upd ?a cancel (tr_store w)\<rparr>"
  let ?eng = "eng\<lparr>sy_engine := (sy_engine eng)\<lparr>me_book := b\<rparr>\<rparr>"
  have "sy_cancel_order i w eng = Inr (True, ?w, ?eng)"
    using b(1) by (simp add: sy_cancel_order_def engine_cancel_def)
  then have "route_cancel i w (pre @ eng # post) = Inr (?w, pre @ ?eng # post)"
    by (rule route_cancel_pre [OF assms(1)])
  moreover have "o_order_id (tr_store w ?a) = i"
    using assms(2,3) book_index_entry(1) by (auto simp: book_inv_def book_ok_def)
  ultimately show ?thesis using b by (intro exI [of _ ?w] exI [of _ ?eng]) simp
qed

text \<open>Two engines that both hold an order with the id 11: the second one keeps it.\<close>

theorem cancel_takes_first_engine_witness:
  "\<exists>w1 e1. let e = \<lparr>sy_book = new_book ''ABC'', sy_engine = demo_engine\<rparr>
     in route_cancel 11 demo_trading [new_symbol_engine ''XYZ'' [], e, e]
          = Inr (w1, [new_symbol_engine ''XYZ'' [], e1, e]) \<and>
        side_book (tr_store w1) (me_book (sy_engine e1)) False = [((101, 20), 7)]"
proof -
  have "ob_index demo_book 11 = Some \<lparr>loc_price = 100, loc_is_bid = False, loc_order = 10\<rparr>"
    "ob_p2l demo_book 100 \<noteq> None"
    by (simp_all add: demo_book_eq)
  then show ?thesis
    using cancel_takes_first_engine [of "[new_symbol_engine ''XYZ'' []]" 11 demo_trading
        "\<lparr>sy_book = new_book ''ABC'', sy_engine = demo_engine\<rparr>"
        "\<lparr>loc_price = 100, loc_is_bid = False, loc_order = 10\<rparr>"
        "[\<lparr>sy_book = new_book ''ABC'', sy_engine = demo_engine\<rparr>]"] demo_inv
    by (fastforce simp: Let_def demo_sides entry_order_def demo_parts new_symbol_engine_def new_engine_def new_book_def)
qed

end
