(* ===== verification/Store_Frame.thy ===== *)
theory Store_Frame
  imports Main_Props
begin

text \<open>
  What an engine may touch.  Without any precondition, every operation of the order book and of
  the engine changes only orders that it can reach (those in its levels, its index and its
  queue), and of those only status and quantities; the symbol, the side and the price that an
  order was submitted with are never changed by a match.
\<close>

subsection \<open>What is reachable\<close>

definition level_addrs :: "price_level \<Rightarrow> addr set" where
  "level_addrs pl = {a. \<exists>i. pl_buffer pl i = Some a}"

definition book_addrs :: "order_book \<Rightarrow> addr set" where
  "book_addrs b = (\<Union>pl \<in> ran (ob_heap b). level_addrs pl) \<union> loc_order ` ran (ob_index b)"

lemma level_addrsI [intro]: "pl_buffer pl i = Some a \<Longrightarrow> a \<in> level_addrs pl"
  by (auto simp: level_addrs_def)

lemma level_addrs_simps [simp]:
  "level_addrs (pl\<lparr>pl_size := n\<rparr>) = level_addrs pl" "level_addrs (pl\<lparr>pl_total := q\<rparr>) = level_addrs pl"
  "level_addrs (new_level p) = {}"
  by (simp_all add: level_addrs_def new_level_def)

lemma level_addrs_clear: "level_addrs (clear_head pl) \<subseteq> level_addrs pl"
  by (auto simp: level_addrs_def clear_head_def split: if_splits)

lemma level_addrs_push: "level_addrs (push_slot a pl) \<subseteq> insert a (level_addrs pl)"
  by (auto simp: level_addrs_def push_slot_def split: if_splits)

lemma level_addrs_add: "level_addrs (level_add_order st (Some a) pl) \<subseteq> insert a (level_addrs pl)"
  using level_addrs_push [of a pl] by (auto simp: level_add_order_def)

lemma advance_addrs: "level_addrs (advance st pl) \<subseteq> level_addrs pl"
proof (induction st pl rule: advance.induct)
  case (1 st pl)
  then show ?case
    using level_addrs_clear [of pl] by (subst advance.simps) (auto split: if_splits)
qed

subsection \<open>What may change\<close>

definition same_order :: "order \<Rightarrow> order \<Rightarrow> bool" where
  "same_order x y \<longleftrightarrow> o_order_id y = o_order_id x \<and> o_symbol y = o_symbol x \<and> o_side y = o_side x \<and>
     o_type y = o_type x \<and> o_price y = o_price x \<and> o_quantity y = o_quantity x \<and>
     o_filled y + o_remaining y = o_filled x + o_remaining x"

definition store_step :: "addr set \<Rightarrow> store \<Rightarrow> store \<Rightarrow> bool" where
  "store_step A st st' \<longleftrightarrow> (\<forall>a. a \<notin> A \<longrightarrow> st' a = st a) \<and> (\<forall>a. same_order (st a) (st' a))"

lemma same_order_refl [simp, intro]: "same_order x x"
  by (simp add: same_order_def)

lemma same_order_trans: "same_order x y \<Longrightarrow> same_order y z \<Longrightarrow> same_order x z"
  by (simp add: same_order_def)

lemma store_step_refl [simp, intro]: "store_step A st st"
  by (simp add: store_step_def)

lemma store_step_trans: "store_step A s t \<Longrightarrow> store_step A t u \<Longrightarrow> store_step A s u"
  by (auto simp: store_step_def intro: same_order_trans)

lemma store_step_mono: "store_step A s t \<Longrightarrow> A \<subseteq> B \<Longrightarrow> store_step B s t"
  by (auto simp: store_step_def)

lemma store_step_upd: "a \<in> A \<Longrightarrow> same_order (st a) (f (st a)) \<Longrightarrow> store_step A st (upd a f st)"
  by (auto simp: store_step_def upd_def)

lemma store_step_cancel: "a \<in> A \<Longrightarrow> store_step A st (upd a cancel st)"
  by (rule store_step_upd) (simp_all add: same_order_def cancel_def)

lemma store_step_fill:
  "a \<in> A \<Longrightarrow> inc \<in> A \<Longrightarrow> store_step A st (apply_fill a inc q st)"
  by (cases "a = inc")
    (simp_all add: store_step_def apply_fill_def upd_def same_order_def take_remaining_def add_filled_def)

subsection \<open>Price levels\<close>

lemma advance_price: "pl_price (advance st pl) = pl_price pl"
proof (induction st pl rule: advance.induct)
  case (1 st pl)
  then show ?case by (subst advance.simps) (simp add: level_simps)
qed

lemma remove_order_frame:
  assumes "remove_order st (Some a) pl = (st', pl')"
  shows "store_step {a} st st'" "level_addrs pl' \<subseteq> level_addrs pl" "pl_price pl' = pl_price pl"
  using assms advance_price advance_addrs [of "upd a cancel st" "pl\<lparr>pl_total := pl_total pl - o_remaining (upd a cancel st a)\<rparr>"]
  by (auto simp: remove_order_def Let_def store_step_cancel split: if_splits)

lemma match_loop_frame:
  assumes "match_loop inc st pl fs = Some r"
  shows "store_step (insert inc (level_addrs pl)) st (fst r) \<and> level_addrs (fst (snd r)) \<subseteq> level_addrs pl \<and>
    pl_price (fst (snd r)) = pl_price pl"
proof (rule match_loop.raw_induct [where P = "\<lambda>inc st pl fs r.
    store_step (insert inc (level_addrs pl)) st (fst r) \<and> level_addrs (fst (snd r)) \<subseteq> level_addrs pl \<and>
    pl_price (fst (snd r)) = pl_price pl",
    OF _ assms], goal_cases)
  case (1 f inc st pl fs r)
  let ?pl = "advance st pl"
  have sub: "level_addrs ?pl \<subseteq> level_addrs pl" "level_addrs (clear_head ?pl) \<subseteq> level_addrs pl"
    using advance_addrs [of st pl] level_addrs_clear [of ?pl] by auto
  have px: "pl_price ?pl = pl_price pl" by (rule advance_price)
  have IH: "store_step (insert inc (level_addrs pl)) st' (fst r) \<and> level_addrs (fst (snd r)) \<subseteq> level_addrs pl \<and>
      pl_price (fst (snd r)) = pl_price pl"
    if "f inc st' pl' fs' = Some r" "level_addrs pl' \<subseteq> level_addrs pl" "pl_price pl' = pl_price pl" for st' pl' fs'
    using 1(1) [OF that(1)] that(2,3) by (auto intro: store_step_mono)
  show ?case
  proof (cases "o_remaining (st inc) = 0 \<or> pl_head ?pl = pl_tail ?pl")
    case True
    then have "r = (st, pl, fs) \<or> r = (st, ?pl, fs)" using 1(2) by (cases "o_remaining (st inc) = 0") simp_all
    then show ?thesis using sub(1) px by auto
  next
    case False
    show ?thesis
    proof (cases "pl_buffer ?pl (pl_head ?pl)")
      case None
      then show ?thesis using 1(2) False sub(2) px IH by (auto simp: Let_def level_simps)
    next
      case (Some a)
      let ?q = "min (o_remaining (st a)) (o_remaining (st inc))"
      let ?st = "apply_fill a inc ?q st"
      have a: "a \<in> level_addrs pl" using Some sub(1) by blast
      have fill: "store_step (insert inc (level_addrs pl)) st ?st"
        using a by (intro store_step_fill) auto
      let ?pl2 = "?pl\<lparr>pl_total := pl_total ?pl - ?q\<rparr>"
      let ?pl3 = "if o_remaining (?st a) = 0 then (clear_head ?pl2)\<lparr>pl_size := pl_size ?pl2 - 1\<rparr> else ?pl2"
      have pop: "level_addrs ?pl3 \<subseteq> level_addrs pl" "pl_price ?pl3 = pl_price pl"
        using level_addrs_clear [of ?pl2] sub(1) px by (auto simp: level_simps)
      show ?thesis
      proof (cases "\<not> is_active (st a) \<or> o_remaining (st a) = 0")
        case True
        then show ?thesis using 1(2) False Some sub(2) px IH by (auto simp: Let_def level_simps)
      next
        case act: False
        then have q: "?q \<noteq> 0" using False by (simp add: min_def)
        have "(if o_remaining (?st inc) = 0 then Some (?st, ?pl3, fs @ [\<lparr>fill_order = a, fill_quantity = ?q,
            fill_price = o_price (st inc)\<rparr>]) else f inc ?st ?pl3 (fs @ [\<lparr>fill_order = a, fill_quantity = ?q,
            fill_price = o_price (st inc)\<rparr>])) = Some r"
          using 1(2) False Some act q by (simp add: Let_def)
        then show ?thesis
          using fill pop IH [OF _ pop] by (auto split: if_splits intro: store_step_trans [OF fill])
      qed
    qed
  qed
qed

lemma match_order_frame:
  assumes "match_order (Some inc) st pl fs = Some (p, st', pl', fs')"
  shows "store_step (insert inc (level_addrs pl)) st st'" "level_addrs pl' \<subseteq> level_addrs pl" "pl_price pl' = pl_price pl"
  using assms by (auto simp: match_order_def split: if_splits dest!: match_loop_frame)

subsection \<open>Order books\<close>

lemma book_addrs_simps [simp]:
  "book_addrs (set_levels s ls b) = book_addrs b" "book_addrs (set_depth s d b) = book_addrs b"
  "book_addrs (b\<lparr>ob_p2l := m\<rparr>) = book_addrs b" "book_addrs (b\<lparr>ob_best_bid := x\<rparr>) = book_addrs b"
  "book_addrs (b\<lparr>ob_best_ask := x\<rparr>) = book_addrs b" "book_addrs (bump_sequence b) = book_addrs b"
  "book_addrs (set_market_price x y b) = book_addrs b" "book_addrs (new_book symbol) = {}"
  by (simp_all add: book_addrs_def set_levels_def set_depth_def bump_sequence_def set_market_price_def new_book_def)

lemma ran_updD: "y \<in> ran (m(k := v)) \<Longrightarrow> y \<in> ran m \<or> v = Some y"
  by (auto simp: ran_def split: if_splits)

lemma book_addrs_set_level: "book_addrs (set_level l pl b) \<subseteq> book_addrs b \<union> level_addrs pl"
  by (auto simp: book_addrs_def set_level_def dest!: ran_updD)

lemma book_addrs_delete_level: "book_addrs (delete_level l b) \<subseteq> book_addrs b"
  by (auto simp: book_addrs_def delete_level_def dest!: ran_updD)

lemma book_addrs_index: "book_addrs (b\<lparr>ob_index := (ob_index b)(i := None)\<rparr>) \<subseteq> book_addrs b"
  by (auto simp: book_addrs_def dest!: ran_updD)

lemma book_addrs_index_order: "book_addrs (index_order st a b) \<subseteq> insert a (book_addrs b)"
  by (auto simp: book_addrs_def index_order_def dest!: ran_updD)

lemma deref_addrs: "deref b l = Inr pl \<Longrightarrow> level_addrs pl \<subseteq> book_addrs b"
  by (auto simp: deref_def book_addrs_def ran_def split: option.splits)

lemma index_addr: "ob_index b i = Some loc \<Longrightarrow> loc_order loc \<in> book_addrs b"
  by (auto simp: book_addrs_def ran_def)

lemma insert_level_addrs: "insert_level l s b = Inr b' \<Longrightarrow> book_addrs b' = book_addrs b"
  by (auto simp: insert_level_def Let_def res_bind_Inr_iff)

lemma alloc_level_addrs: "alloc_level p b = (l, b') \<Longrightarrow> book_addrs b' \<subseteq> book_addrs b"
  by (auto simp: alloc_level_def book_addrs_def dest!: ran_updD)

lemma get_level_addrs: "get_level p s b = Inr (l, b') \<Longrightarrow> book_addrs b' \<subseteq> book_addrs b"
  using alloc_level_addrs [of p b] insert_level_addrs
  by (cases "alloc_level p b") (fastforce simp: get_level_def res_bind_Inr_iff split: option.splits)

lemma update_best_addrs: "update_best_prices b = Inr b' \<Longrightarrow> book_addrs b' = book_addrs b"
  by (auto simp: update_best_prices_def Let_def res_bind_Inr_iff)

lemma remove_level_addrs: "remove_level l s b = Inr b' \<Longrightarrow> book_addrs b' = book_addrs b"
  by (auto simp: remove_level_def Let_def res_bind_Inr_iff)

text \<open>Putting an order at a level, common to adding and resting.\<close>

lemma put_addrs:
  assumes "get_level p s b = Inr (l, b1)" "deref b1 l = Inr pl"
  shows "book_addrs (set_level l (level_add_order st (Some a) pl) b1) \<subseteq> insert a (book_addrs b)"
  using get_level_addrs [OF assms(1)] deref_addrs [OF assms(2)] level_addrs_add [of st a pl]
    book_addrs_set_level [of l "level_add_order st (Some a) pl" b1] by blast

lemma add_order_addrs:
  assumes "add_order st (Some a) b = Inr (r, b')"
  shows "book_addrs b' \<subseteq> insert a (book_addrs b)"
proof -
  obtain l b1 pl b5 where "get_level (o_price (st a)) (is_buy (st a)) b = Inr (l, b1)" "deref b1 l = Inr pl"
    "update_best_prices (set_depth (is_buy (st a)) (depth_of (is_buy (st a))
        (index_order st a (set_level l (level_add_order st (Some a) pl) b1)) + o_remaining (st a))
        (index_order st a (set_level l (level_add_order st (Some a) pl) b1))) = Inr b5" "b' = bump_sequence b5"
    using assms by (auto simp: add_order_def Let_def res_bind_Inr_iff)
  then show ?thesis
    using put_addrs [of "o_price (st a)" "is_buy (st a)" b l b1 pl st a] update_best_addrs
      book_addrs_index_order [of st a "set_level l (level_add_order st (Some a) pl) b1"] by fastforce
qed

lemma rest_order_addrs:
  assumes "rest_order s a st b = Inr b'"
  shows "book_addrs b' \<subseteq> insert a (book_addrs b)"
proof -
  obtain l b1 pl where "get_level (o_price (st a)) s b = Inr (l, b1)" "deref b1 l = Inr pl"
    "b' = index_order st a (set_depth s (depth_of s (set_level l (level_add_order st (Some a) pl) b1)
        + o_remaining (st a)) (set_level l (level_add_order st (Some a) pl) b1))"
    using assms by (auto simp: rest_order_def Let_def res_bind_Inr_iff)
  then show ?thesis
    using put_addrs [of "o_price (st a)" s b l b1 pl st a] book_addrs_index_order by fastforce
qed

lemma cancel_order_frame:
  assumes "cancel_order i st b = Inr (r, st', b')"
  shows "store_step (book_addrs b) st st'" "book_addrs b' \<subseteq> book_addrs b"
proof -
  have "store_step (book_addrs b) st st' \<and> book_addrs b' \<subseteq> book_addrs b"
  proof (cases "ob_index b i")
    case None
    then show ?thesis using assms by (simp add: cancel_order_def)
  next
    case (Some loc)
    note loc = this and la = index_addr [OF Some]
    show ?thesis
    proof (cases "find_level b (loc_price loc) (loc_is_bid loc)")
      case None
      then show ?thesis using assms loc book_addrs_index [of b i] by (auto simp: cancel_order_def)
    next
      case (Some l)
      then obtain level where d: "deref b l = Inr level"
        using assms loc by (auto simp: cancel_order_def res_bind_Inr_iff)
      obtain st1 level1 where r: "remove_order st (Some (loc_order loc)) level = (st1, level1)" by fastforce
      let ?b = "set_depth (loc_is_bid loc) (depth_of (loc_is_bid loc) (set_level l level1 b)
          - o_remaining (st1 (loc_order loc))) (set_level l level1 b)"
      obtain b4 b6 where b4: "(if level_empty level1 then res_bind (remove_level l (loc_is_bid loc) ?b)
            (\<lambda>b3. Inr (delete_level l b3)) else Inr ?b) = Inr b4"
        "update_best_prices (b4\<lparr>ob_index := (ob_index b4)(i := None)\<rparr>) = Inr b6"
        "st' = upd (loc_order loc) cancel st1" "b' = bump_sequence b6"
        using assms loc Some d r by (auto simp: cancel_order_def Let_def res_bind_Inr_iff)
      have "store_step (book_addrs b) st st1"
        using store_step_mono [OF remove_order_frame(1) [OF r]] la by simp
      then have "store_step (book_addrs b) st st'"
        using store_step_cancel [OF la] b4(3) by (auto intro: store_step_trans)
      moreover have "book_addrs ?b \<subseteq> book_addrs b"
        using book_addrs_set_level [of l level1 b] deref_addrs [OF d] remove_order_frame(2) [OF r] by auto
      then have "book_addrs b4 \<subseteq> book_addrs b"
        using b4(1) book_addrs_delete_level [of l] remove_level_addrs
        by (fastforce simp: res_bind_Inr_iff split: if_splits)
      ultimately show ?thesis
        using update_best_addrs [OF b4(2)] book_addrs_index [of b4 i] b4(4) by auto
    qed
  qed
  then show "store_step (book_addrs b) st st'" "book_addrs b' \<subseteq> book_addrs b" by blast+
qed

lemma sweep_frame:
  assumes "sweep s inc st b fs = Some (Inr (st', b', fs'))"
  shows "store_step (insert inc (book_addrs b)) st st'" "book_addrs b' \<subseteq> book_addrs b"
proof -
  let ?P = "\<lambda>s inc st b (fs :: fill_rec list) (r :: (store \<times> order_book \<times> fill_rec list) res). \<forall>st' b' (fs' :: fill_rec list). r = Inr (st', b', fs') \<longrightarrow>
    store_step (insert inc (book_addrs b)) st st' \<and> book_addrs b' \<subseteq> book_addrs b"
  have "?P s inc st b fs (Inr (st', b', fs'))"
  proof (rule sweep.raw_induct [where P = ?P, OF _ assms], goal_cases)
    case (1 f s inc st b fs r)
    show ?case
    proof (cases "\<exists>l ls level. levels_of (\<not> s) b = l # ls \<and> o_remaining (st inc) \<noteq> 0 \<and> deref b l = Inr level \<and>
        \<not> beyond_limit s level (st inc)")
      case False
      then show ?thesis using 1(2) by (auto split: list.splits if_splits sum.splits)
    next
      case True
      then obtain l ls level where l: "levels_of (\<not> s) b = l # ls" "o_remaining (st inc) \<noteq> 0" "deref b l = Inr level"
        "\<not> beyond_limit s level (st inc)" by blast
      then obtain q st1 level1 fs1 where m: "match_order (Some inc) st level fs = Some (q, st1, level1, fs1)"
        using 1(2) by (auto split: Option.bind_splits)
      let ?b = "set_depth (\<not> s) (depth_of (\<not> s) (set_level l level1 b) - (pl_total level - pl_total level1)) (set_level l level1 b)"
      let ?b3 = "if level_empty level1 then pop_level (\<not> s) l level1 ?b else ?b"
      have "f s inc st1 ?b3 fs1 = Some r" using 1(2) l m by (simp add: Let_def)
      note IH = 1(1) [OF this]
      have d: "level_addrs level \<subseteq> book_addrs b" by (rule deref_addrs [OF l(3)])
      have b: "book_addrs ?b \<subseteq> book_addrs b"
        using book_addrs_set_level [of l level1 b] match_order_frame(2) [OF m] d by auto
      have "book_addrs (pop_level (\<not> s) l level1 ?b) \<subseteq> book_addrs ?b"
        using book_addrs_delete_level by (fastforce simp: pop_level_def)
      then have b3: "book_addrs ?b3 \<subseteq> book_addrs b" using b by auto
      have st: "store_step (insert inc (book_addrs b)) st st1"
        using store_step_mono [OF match_order_frame(1) [OF m]] d by blast
      show ?thesis
      proof (intro allI impI)
        fix st' b' fs' assume "r = Inr (st', b', fs')"
        then have r: "store_step (insert inc (book_addrs ?b3)) st1 st'" "book_addrs b' \<subseteq> book_addrs ?b3"
          using IH by blast+
        have "store_step (insert inc (book_addrs b)) st1 st'"
          using store_step_mono [OF r(1)] b3 by blast
        then show "store_step (insert inc (book_addrs b)) st st' \<and> book_addrs b' \<subseteq> book_addrs b"
          using store_step_trans [OF st] r(2) b3 by blast
      qed
    qed
  qed
  then show "store_step (insert inc (book_addrs b)) st st'" "book_addrs b' \<subseteq> book_addrs b" by blast+
qed

lemma book_match_frame:
  assumes "book_match (Some a) st b fs = Some (Inr (p, st', b', fs'))"
  shows "store_step (insert a (book_addrs b)) st st'" "book_addrs b' \<subseteq> insert a (book_addrs b)"
proof -
  have "store_step (insert a (book_addrs b)) st st' \<and> book_addrs b' \<subseteq> insert a (book_addrs b)"
  proof (cases "o_remaining (st a) = 0")
    case True
    then show ?thesis using assms by (auto simp: book_match_def)
  next
    case False
    then obtain b1 fs1 b2 b3 where "sweep (is_buy (st a)) a st b fs = Some (Inr (st', b1, fs1))"
      "(if o_remaining (st' a) > 0 then rest_order (is_buy (st a)) a st' b1 else Inr b1) = Inr b2"
      "update_best_prices b2 = Inr b3" "b' = bump_sequence b3"
      using assms by (auto simp: book_match_def Let_def res_bind_Inr_iff split: Option.bind_splits)
    then show ?thesis
      using sweep_frame [of "is_buy (st a)" a st b fs st' b1 fs1] rest_order_addrs [of "is_buy (st a)" a st' b1 b2]
        update_best_addrs [of b2 b3]
      by (auto split: if_splits)
  qed
  then show "store_step (insert a (book_addrs b)) st st'" "book_addrs b' \<subseteq> insert a (book_addrs b)" by blast+
qed

subsection \<open>Engines\<close>

definition engine_addrs :: "('o \<Rightarrow> addr list) \<Rightarrow> 'o engine \<Rightarrow> addr set" where
  "engine_addrs contents e = book_addrs (me_book e) \<union> set (contents (me_queue e))"

lemma store_step_untouched: "store_step A st st' \<Longrightarrow> untouched A st st'"
  by (simp add: store_step_def untouched_def)

lemma untouched_upd: "a \<in> A \<Longrightarrow> untouched A st (upd a f st)"
  by (simp add: untouched_def upd_def)

lemma send_fill_store: "send_fill P Q a q p w = Inr w' \<Longrightarrow> tr_store w' = tr_store w"
  by (auto simp: send_fill_def res_bind_Inr_iff split: option.splits)

lemma settle_frame:
  assumes "settle P Q a fills w e = Inr (w', e')"
  shows "untouched {a} (tr_store w) (tr_store w')" "me_book e' = me_book e" "me_queue e' = me_queue e"
  using assms
  by (auto simp: settle_def Let_def res_bind_Inr_iff untouched_upd split: if_splits dest!: send_fill_store)

lemma reject_frame:
  assumes "reject_order P Q a w e = Inr (w', e')"
  shows "untouched {a} (tr_store w) (tr_store w')" "me_book e' = me_book e" "me_queue e' = me_queue e"
  using assms
  by (auto simp: reject_order_def Let_def res_bind_Inr_iff untouched_upd split: option.splits)

lemma process_order_frame:
  assumes "process_order P Q a w e = Some (Inr (w', e'))"
  shows "untouched (insert a (book_addrs (me_book e))) (tr_store w) (tr_store w')"
    "book_addrs (me_book e') \<subseteq> insert a (book_addrs (me_book e))" "me_queue e' = me_queue e"
proof -
  let ?A = "insert a (book_addrs (me_book e))" and ?st = "upd a convert_market (tr_store w)"
  have "untouched ?A (tr_store w) (tr_store w') \<and> book_addrs (me_book e') \<subseteq> ?A \<and> me_queue e' = me_queue e"
  proof (cases "check_risk w a")
    case False
    then have r: "reject_order P Q a w e = Inr (w', e')" using assms by (simp add: process_order_def)
    show ?thesis using reject_frame [OF r] untouched_mono [OF reject_frame(1) [OF r], of ?A] by auto
  next
    case True
    then obtain p st1 b fills where m: "book_match (Some a) ?st (me_book e) [] = Some (Inr (p, st1, b, fills))"
      "settle P Q a fills (w\<lparr>tr_store := st1\<rparr>) (e\<lparr>me_book := b\<rparr>) = Inr (w', e')"
      using assms by (auto simp: process_order_def Let_def res_bind_Inr_iff split: Option.bind_splits)
    have "untouched ?A (tr_store w) ?st" by (rule untouched_upd) simp
    moreover have "untouched ?A ?st st1" by (rule store_step_untouched [OF book_match_frame(1) [OF m(1)]])
    moreover have "untouched ?A st1 (tr_store w')"
      using untouched_mono [OF settle_frame(1) [OF m(2)], of ?A] by simp
    ultimately show ?thesis
      using settle_frame(2,3) [OF m(2)] book_match_frame(2) [OF m(1)] by (auto intro: untouched_trans)
  qed
  then show "untouched ?A (tr_store w) (tr_store w')" "book_addrs (me_book e') \<subseteq> ?A" "me_queue e' = me_queue e"
    by blast+
qed

lemma engine_cancel_frame:
  assumes "engine_cancel i w e = Inr (r, w', e')"
  shows "untouched (book_addrs (me_book e)) (tr_store w) (tr_store w')"
    "engine_addrs contents e' \<subseteq> engine_addrs contents e"
  using assms cancel_order_frame [of i "tr_store w" "me_book e" r "tr_store w'" "me_book e'"]
  by (auto simp: engine_cancel_def res_bind_Inr_iff engine_addrs_def intro: store_step_untouched)

lemma submit_order_addrs:
  assumes "spsc_queue OQ contents cap"
  shows "engine_addrs contents (snd (submit_order OQ (Some a) e)) \<subseteq> insert a (engine_addrs contents e)"
  using spsc_queueD(2) [OF assms, of a "me_queue e"]
  by (auto simp: submit_order_def engine_addrs_def split: prod.splits if_splits)

lemma run_match_cycle_frame:
  fixes P :: "'p pool_ops" and Q :: "('q, addr) queue_ops" and OQ :: "('o, addr) queue_ops"
  assumes Q: "spsc_queue OQ contents cap" and r: "run_match_cycle P Q OQ w e = Some (Inr (w', e'))"
  shows "untouched (engine_addrs contents e) (tr_store w) (tr_store w')"
    "engine_addrs contents e' \<subseteq> engine_addrs contents e"
proof -
  let ?P = "\<lambda>(P :: 'p pool_ops) (Q :: ('q, addr) queue_ops) (OQ :: ('o, addr) queue_ops) w e
      (r :: (('p, 'q) trading \<times> 'o engine) res). spsc_queue OQ contents cap \<longrightarrow> (\<forall>w' e'. r = Inr (w', e') \<longrightarrow>
    untouched (engine_addrs contents e) (tr_store w) (tr_store w') \<and>
    engine_addrs contents e' \<subseteq> engine_addrs contents e)"
  let ?C = "\<lambda>((((P, Q), OQ), w), e). ?P P Q OQ w e"
  have "?C ((((P, Q), OQ), w), e) (Inr (w', e'))"
  proof (rule run_match_cycle.raw_induct [where Pa = ?C, OF _ r], goal_cases)
    case (1 f P Q OQ w e r)
    obtain p q where pop: "q_pop OQ (me_queue e) = (p, q)" by fastforce
    show ?case unfolding prod.case
    proof (intro impI allI)
      fix w' e' assume Q: "spsc_queue OQ contents cap" and r: "r = Inr (w', e')"
      note c = spsc_queueD(3,4) [OF Q, of "me_queue e"]
      show "untouched (engine_addrs contents e) (tr_store w) (tr_store w') \<and>
          engine_addrs contents e' \<subseteq> engine_addrs contents e"
      proof (cases p)
        case None
        then show ?thesis using 1(2) pop r c by (auto simp: engine_addrs_def split: list.splits)
      next
        case (Some a)
        then have c: "contents (me_queue e) = a # contents q" using pop c by (auto split: list.splits)
        obtain w1 e1 where step: "process_order P Q a w (e\<lparr>me_queue := q\<rparr>) = Some (Inr (w1, e1))"
          "f P Q OQ w1 e1 = Some (Inr (w', e'))"
          using 1(2) pop Some r by (auto split: Option.bind_splits sum.splits)
        note p = process_order_frame [OF step(1)]
        have sub: "insert a (book_addrs (me_book e)) \<subseteq> engine_addrs contents e"
          "engine_addrs contents e1 \<subseteq> engine_addrs contents e"
          using p(2,3) by (auto simp: engine_addrs_def c)
        have "untouched (engine_addrs contents e) (tr_store w) (tr_store w1)"
          using untouched_mono [OF p(1)] sub(1) by simp
        moreover have IH: "untouched (engine_addrs contents e1) (tr_store w1) (tr_store w')"
          "engine_addrs contents e' \<subseteq> engine_addrs contents e1"
          using 1(1) [OF step(2)] Q unfolding prod.case by blast+
        moreover have "untouched (engine_addrs contents e) (tr_store w1) (tr_store w')"
          by (rule untouched_mono [OF IH(1) sub(2)])
        ultimately show ?thesis
          using sub(2) by (blast intro: untouched_trans)
      qed
    qed
  qed
  then show "untouched (engine_addrs contents e) (tr_store w) (tr_store w')"
    "engine_addrs contents e' \<subseteq> engine_addrs contents e" using Q unfolding prod.case by blast+
qed

subsection \<open>Threads\<close>

lemma sy_cycle_frame:
  assumes "spsc_queue OQ contents cap" "sy_run_match_cycle P Q OQ w e = Some (Inr (w', e'))"
  shows "untouched (engine_addrs contents (sy_engine e)) (tr_store w) (tr_store w')"
    "engine_addrs contents (sy_engine e') \<subseteq> engine_addrs contents (sy_engine e)" "sy_book e' = sy_book e"
proof -
  obtain e1 where c: "run_match_cycle P Q OQ w (sy_engine e) = Some (Inr (w', e1))" "e' = e\<lparr>sy_engine := e1\<rparr>"
    using assms(2) by (auto simp: sy_run_match_cycle_def res_bind_Inr_iff)
  then show "untouched (engine_addrs contents (sy_engine e)) (tr_store w) (tr_store w')"
    "engine_addrs contents (sy_engine e') \<subseteq> engine_addrs contents (sy_engine e)" "sy_book e' = sy_book e"
    using run_match_cycle_frame [OF assms(1) c(1)] c(2) by simp_all
qed

text \<open>Cancels are routed over all engines.\<close>

definition engines_addrs :: "('o \<Rightarrow> addr list) \<Rightarrow> 'o symbol_engine list \<Rightarrow> addr set" where
  "engines_addrs contents es = (\<Union>e \<in> set es. engine_addrs contents (sy_engine e))"

lemma engines_addrs_simps [simp]:
  "engines_addrs contents [] = {}"
  "engines_addrs contents (e # es) = engine_addrs contents (sy_engine e) \<union> engines_addrs contents es"
  "engines_addrs contents (es @ es') = engines_addrs contents es \<union> engines_addrs contents es'"
  by (simp_all add: engines_addrs_def)

lemma sy_cancel_frame:
  assumes "sy_cancel_order i w e = Inr (r, w', e')"
  shows "untouched (engine_addrs contents (sy_engine e)) (tr_store w) (tr_store w')"
    "engine_addrs contents (sy_engine e') \<subseteq> engine_addrs contents (sy_engine e)" "sy_book e' = sy_book e"
proof -
  obtain e1 where c: "engine_cancel i w (sy_engine e) = Inr (r, w', e1)" "e' = e\<lparr>sy_engine := e1\<rparr>"
    using assms by (auto simp: sy_cancel_order_def res_bind_Inr_iff)
  show "untouched (engine_addrs contents (sy_engine e)) (tr_store w) (tr_store w')"
    using untouched_mono [OF engine_cancel_frame(1) [OF c(1)]] by (simp add: engine_addrs_def)
  show "engine_addrs contents (sy_engine e') \<subseteq> engine_addrs contents (sy_engine e)" "sy_book e' = sy_book e"
    using engine_cancel_frame(2) [OF c(1)] c(2) by simp_all
qed

lemma route_cancel_frame:
  "route_cancel i w es = Inr (w', es') \<Longrightarrow>
    untouched (engines_addrs contents es) (tr_store w) (tr_store w') \<and>
    engines_addrs contents es' \<subseteq> engines_addrs contents es \<and> map sy_book es' = map sy_book es"
proof (induction es arbitrary: w w' es')
  case (Cons e es)
  obtain r w1 e1 where c: "sy_cancel_order i w e = Inr (r, w1, e1)"
    using Cons.prems by (auto simp: res_bind_Inr_iff)
  note f = sy_cancel_frame(1,2) [OF c, of contents] sy_cancel_frame(3) [OF c]
  have u: "untouched (engines_addrs contents (e # es)) (tr_store w) (tr_store w1)"
    using untouched_mono [OF f(1)] by simp
  show ?case
  proof (cases r)
    case True
    then show ?thesis using Cons.prems c f u by auto
  next
    case False
    then obtain es1 where r: "route_cancel i w1 es = Inr (w', es1)" "es' = e1 # es1"
      using Cons.prems c by (auto simp: res_bind_Inr_iff)
    have "untouched (engines_addrs contents (e # es)) (tr_store w1) (tr_store w')"
      using Cons.IH [OF r(1)] by (auto intro: untouched_mono)
    then show ?thesis using Cons.IH [OF r(1)] r(2) f u by (auto intro: untouched_trans)
  qed
qed simp

lemma drain_cancels_frame:
  assumes "drain_cancels CQ m w es = Some (Inr (m', w', es'))"
  shows "untouched (engines_addrs contents es) (tr_store w) (tr_store w') \<and>
    engines_addrs contents es' \<subseteq> engines_addrs contents es \<and> map sy_book es' = map sy_book es"
proof -
  let ?P = "\<lambda>CQ m w es r. \<forall>m' w' es'. r = Inr (m', w', es') \<longrightarrow>
    untouched (engines_addrs contents es) (tr_store w) (tr_store w') \<and>
    engines_addrs contents es' \<subseteq> engines_addrs contents es \<and> map sy_book es' = map sy_book es"
  have "?P CQ m w es (Inr (m', w', es') :: _ res)"
  proof (rule drain_cancels.raw_induct [where P = ?P, OF _ assms], goal_cases)
    case (1 f CQ m w es r)
    obtain p m1 where pop: "pop_cancel CQ m = (p, m1)" by fastforce
    show ?case
    proof (intro allI impI)
      fix m' w' es' assume r: "r = Inr (m', w', es')"
      show "untouched (engines_addrs contents es) (tr_store w) (tr_store w') \<and>
        engines_addrs contents es' \<subseteq> engines_addrs contents es \<and> map sy_book es' = map sy_book es"
      proof (cases p)
        case None
        then show ?thesis using 1(2) pop r by simp
      next
        case (Some i)
        then obtain w1 es1 where s: "route_cancel i w es = Inr (w1, es1)" "f CQ m1 w1 es1 = Some r"
          using 1(2) pop r by (auto split: sum.splits)
        note a = route_cancel_frame [OF s(1), of contents] and b = 1(1) [OF s(2), rule_format, OF r]
        have "untouched (engines_addrs contents es) (tr_store w1) (tr_store w')"
          using a b by (auto intro: untouched_mono)
        then show ?thesis using a b by (auto intro: untouched_trans)
      qed
    qed
  qed
  then show ?thesis by blast
qed

text \<open>A snapshot thread: the objects of its pool, its handles and its engine.\<close>

definition thread_addrs ::
  "('p \<Rightarrow> addr set) \<Rightarrow> ('o \<Rightarrow> addr list) \<Rightarrow> ('p, 'oq, 'cq, 'o) thread_state \<Rightarrow> addr set" where
  "thread_addrs free contents t =
     free (th_pool t) \<union> set (th_storage t) \<union> engine_addrs contents (sy_engine (th_engine t))"

lemma acquire_free:
  assumes "object_pool P free" "p_acquire P p = (r, p')"
  shows "free p' \<subseteq> free p" "r = Some a \<Longrightarrow> a \<in> free p"
  using assms(1) [unfolded object_pool_def, THEN conjunct1, rule_format, of p] assms(2)
  by (auto split: option.splits)

lemma take_order_frame:
  assumes "object_pool P free" "spsc_queue OQ contents cap"
  shows "untouched (thread_addrs free contents t) (th_store t) (th_store (take_order P OQ x t))"
    "thread_addrs free contents (take_order P OQ x t) \<subseteq> thread_addrs free contents t"
    "sy_book (th_engine (take_order P OQ x t)) = sy_book (th_engine t)"
proof -
  obtain r p where acq: "p_acquire P (th_pool t) = (r, p)" by fastforce
  note f = acquire_free [OF assms(1) acq]
  have "untouched (thread_addrs free contents t) (th_store t) (th_store (take_order P OQ x t)) \<and>
    thread_addrs free contents (take_order P OQ x t) \<subseteq> thread_addrs free contents t \<and>
    sy_book (th_engine (take_order P OQ x t)) = sy_book (th_engine t)"
  proof (cases r)
    case None
    then show ?thesis using f(1) by (auto simp: take_order_def acq thread_addrs_def)
  next
    case (Some a)
    obtain ok e where s: "submit_order OQ (Some a) (sy_engine (th_engine t)) = (ok, e)" by fastforce
    then have "engine_addrs contents e \<subseteq> insert a (engine_addrs contents (sy_engine (th_engine t)))"
      using submit_order_addrs [OF assms(2), of a "sy_engine (th_engine t)"] by simp
    then show ?thesis
      using f(1) f(2) [OF Some]
      by (auto simp: take_order_def acq Some thread_addrs_def on_market_order_def s intro!: untouched_fun_upd)
  qed
  then show "untouched (thread_addrs free contents t) (th_store t) (th_store (take_order P OQ x t))"
    "thread_addrs free contents (take_order P OQ x t) \<subseteq> thread_addrs free contents t"
    "sy_book (th_engine (take_order P OQ x t)) = sy_book (th_engine t)" by blast+
qed

lemma thread_addrs_manager [simp]:
  "thread_addrs free contents (t\<lparr>th_manager := m\<rparr>) = thread_addrs free contents t"
  by (simp add: thread_addrs_def)

lemma take_orders_frame:
  fixes Q :: "('oq, order) queue_ops" and P :: "'p pool_ops" and OQ :: "('o, addr) queue_ops"
    and t :: "('p, 'oq, 'cq, 'o) thread_state"
  assumes P: "object_pool P free" and OQ: "spsc_queue OQ contents cap"
    and r: "take_orders Q P OQ symbol t = Some t'"
  shows "untouched (thread_addrs free contents t) (th_store t) (th_store t')"
    "thread_addrs free contents t' \<subseteq> thread_addrs free contents t"
    "sy_book (th_engine t') = sy_book (th_engine t)"
proof -
  let ?P = "\<lambda>(Q :: ('oq, order) queue_ops) (P :: 'p pool_ops) (OQ :: ('o, addr) queue_ops) (symbol :: string)
      (t :: ('p, 'oq, 'cq, 'o) thread_state) t'.
    object_pool P free \<and> spsc_queue OQ contents cap \<longrightarrow>
    untouched (thread_addrs free contents t) (th_store t) (th_store t') \<and>
    thread_addrs free contents t' \<subseteq> thread_addrs free contents t \<and>
    sy_book (th_engine t') = sy_book (th_engine t)"
  let ?C = "\<lambda>((((Q, P), OQ), symbol), t). ?P Q P OQ symbol t"
  have "?C ((((Q, P), OQ), symbol), t) t'"
  proof (rule take_orders.raw_induct [where Pa = ?C, OF _ r], goal_cases)
    case (1 f Q P OQ symbol t t')
    obtain x m where pop: "pop_order_for_symbol Q symbol (th_manager t) = (x, m)" by fastforce
    show ?case unfolding prod.case
    proof (intro impI)
      assume laws: "object_pool P free \<and> spsc_queue OQ contents cap"
      show "untouched (thread_addrs free contents t) (th_store t) (th_store t') \<and>
        thread_addrs free contents t' \<subseteq> thread_addrs free contents t \<and>
        sy_book (th_engine t') = sy_book (th_engine t)"
      proof (cases x)
        case None
        then show ?thesis using 1(2) pop by auto
      next
        case (Some y)
        let ?t = "take_order P OQ y (t\<lparr>th_manager := m\<rparr>)"
        have "f Q P OQ symbol ?t = Some t'" using 1(2) pop Some by simp
        note b = 1(1) [OF this, unfolded prod.case, rule_format, OF laws]
        note a = take_order_frame [OF conjunct1 [OF laws] conjunct2 [OF laws], where t = "t\<lparr>th_manager := m\<rparr>" and x = y, simplified]
        have "untouched (thread_addrs free contents t) (th_store ?t) (th_store t')"
          using a(2) b by (blast intro: untouched_mono)
        then show ?thesis using a b by (auto intro: untouched_trans)
      qed
    qed
  qed
  then show "untouched (thread_addrs free contents t) (th_store t) (th_store t')"
    "thread_addrs free contents t' \<subseteq> thread_addrs free contents t"
    "sy_book (th_engine t') = sy_book (th_engine t)"
    using P OQ unfolding prod.case by blast+
qed

lemma sweep_frame_addrs:
  assumes "object_pool P free"
  shows "thread_addrs free contents (sweep_storage P t) \<subseteq> thread_addrs free contents t"
  by (auto simp: thread_addrs_def sweep_storage_def Let_def free_drops [OF assms])

lemma snapshot_cycle_frame:
  assumes P: "object_pool P free" and OQ: "spsc_queue OQ contents cap"
    and r: "snapshot_cycle Q fresh P OQ ds symbol (sm, count, t) = Some (Inr (sm', count', t'))"
  shows "untouched (thread_addrs free contents t) (th_store t) (th_store t')"
    "thread_addrs free contents t' \<subseteq> thread_addrs free contents t"
    "sy_book (th_engine t') = sy_book (th_engine t)"
proof -
  obtain snap sm1 where poll: "poll_snapshot (sy_order_book (th_engine t)) sm = Inr (snap, sm1)"
    using r by (auto simp: snapshot_cycle_def split: sum.splits)
  obtain count1 m1 where d: "(case snap of None \<Rightarrow> (count, th_manager t)
      | Some snap \<Rightarrow> manager_on_snapshot Q fresh ds snap (count, th_manager t)) = (count1, m1)" by fastforce
  then obtain t1 where t1: "take_orders Q P OQ symbol (t\<lparr>th_manager := m1\<rparr>) = Some t1" "t' = sweep_storage P t1"
    using r poll by (auto simp: snapshot_cycle_def Let_def)
  note f = take_orders_frame [OF P OQ t1(1), simplified]
  show "untouched (thread_addrs free contents t) (th_store t) (th_store t')"
    "thread_addrs free contents t' \<subseteq> thread_addrs free contents t"
    "sy_book (th_engine t') = sy_book (th_engine t)"
    using f sweep_frame_addrs [OF P, of contents t1] t1(2) by (auto simp: sweep_simps)
qed

end
