(* ===== verification/Market_Sim_Props.thy ===== *)
theory Market_Sim_Props
  imports Market_Sim Order_Book_Props
begin

text \<open>
  What the simulator keeps: prices and quotes in range, and in the published book of a symbol
  exactly its own bid and its own ask.
\<close>

subsection \<open>Prices\<close>

lemma next_price_range: "100 \<le> next_price current delta \<and> next_price current delta \<le> 1000000"
  by (simp add: next_price_def Let_def)

lemma quote_range:
  assumes "100 \<le> p" "p \<le> 1000000" "4 \<le> spread" "spread < 2 ^ 62"
  shows "1 \<le> fst (quote p spread)" "fst (quote p spread) < snd (quote p spread)" "snd (quote p spread) \<le> 999999"
proof -
  have d: "spread sdiv 2 = spread div 2" using assms(3) by (simp add: signed_divide_int_def)
  have h: "2 \<le> spread div 2" "spread div 2 < 2 ^ 61" using assms(3,4) by auto
  have s: "s64 (p - spread div 2) = p - spread div 2" "s64 (p + spread div 2) = p + spread div 2"
    using assms(1,2) h by (auto intro!: s64_id simp: in_i64_def)
  show "1 \<le> fst (quote p spread)" "fst (quote p spread) < snd (quote p spread)" "snd (quote p spread) \<le> 999999"
    using assms(1,2) h by (auto simp: quote_def d s Let_def)
qed

subsection \<open>Books whose levels hold one order each\<close>

definition solo :: "order_book \<Rightarrow> bool" where
  "solo b \<longleftrightarrow> (\<forall>l \<in> set (all_levels b). \<exists>a. entries (lv b l) = [a])"

definition resting :: "order_book \<Rightarrow> addr set" where
  "resting b = (\<Union>l \<in> set (all_levels b). set (entries (lv b l)))"

lemma solo_nonempty: "solo b \<Longrightarrow> nonempty_levels b"
  by (force simp: solo_def nonempty_levels_def)

lemma distinct_one: "distinct xs \<Longrightarrow> set xs = {a} \<Longrightarrow> \<exists>b. xs = [b]"
  by (cases xs; cases "tl xs") auto

lemma solo_cancel:
  assumes ok: "book_ok st b" and solo: "solo b" and loc: "ob_index b i = Some loc"
    and r: "o_remaining (st (loc_order loc)) \<noteq> 0"
  obtains b' where "cancel_order i st b = Inr (True, upd (loc_order loc) cancel st, b')"
    "book_inv (upd (loc_order loc) cancel st) b'" "solo b'" "resting b' \<subseteq> resting b - {loc_order loc}"
    "ob_index b' = (ob_index b)(i := None)" "\<And>s. level_prices b' s \<subseteq> level_prices b s"
    "ob_sequence b' = ob_sequence b + 1"
proof -
  have shape: "book_shape b" and ord: "book_orders st b" and ind: "book_index st b"
    using ok by (simp_all add: book_ok_def)
  obtain l where l: "l \<in> set (all_levels b)" "lprice b l = loc_price loc" "loc_order loc \<in> set (entries (lv b l))"
    using book_index_loc [OF ind loc] r by (auto simp: waits_def)
  have p: "ob_p2l b (loc_price loc) = Some l" using book_shapeD(5) [OF shape] l by simp
  have e: "entries (lv b l) = [loc_order loc]" using solo l by (fastforce simp: solo_def)
  obtain b' where b': "cancel_order i st b = Inr (True, upd (loc_order loc) cancel st, b')"
    "book_inv (upd (loc_order loc) cancel st) b'" "ob_index b' = (ob_index b)(i := None)"
    "\<And>s. level_prices b' s \<subseteq> level_prices b s"
    "ob_sequence b' = ob_sequence b + 1"
    "set (all_levels b') \<subseteq> set (all_levels b)"
    "\<And>x. x \<in> set (all_levels b') \<Longrightarrow> set (entries (lv b' x)) \<subseteq> set (entries (lv b x))"
    "l \<notin> set (all_levels b')"
    using cancel_order_sound [OF ok solo_nonempty [OF solo] loc] p e by (metis option.distinct(1))
  have sub: "set (entries (lv b' x)) = set (entries (lv b x))" if x: "x \<in> set (all_levels b')" for x
  proof -
    obtain a where "entries (lv b x) = [a]" using b'(6) x solo by (auto simp: solo_def)
    moreover have "entries (lv b' x) \<noteq> []" using b'(2) x by (simp add: book_inv_def nonempty_levels_def)
    ultimately show ?thesis using b'(7) [OF x] by (cases "entries (lv b' x)") auto
  qed
  have "solo b'"
    unfolding solo_def
  proof
    fix x assume x: "x \<in> set (all_levels b')"
    then obtain a where a: "entries (lv b x) = [a]" using b'(6) solo by (auto simp: solo_def)
    obtain s where "x \<in> set (levels_of s b')" using x by (rule all_levels_side)
    then have "distinct (entries (lv b' x))"
      using b'(2) book_ordersD(1) [of "upd (loc_order loc) cancel st" b' x s]
      by (auto simp: book_inv_def book_ok_def level_ok_def)
    then show "\<exists>a. entries (lv b' x) = [a]" using distinct_one [of "entries (lv b' x)" a] sub [OF x] a by simp
  qed
  moreover have "loc_order loc \<notin> resting b'"
  proof
    assume "loc_order loc \<in> resting b'"
    then obtain x where x: "x \<in> set (all_levels b')" "loc_order loc \<in> set (entries (lv b x))"
      by (auto simp: resting_def sub)
    then show False
      using entries_disjoint [OF shape ord _ l(1), of x] b'(6,8) l(3) by blast
  qed
  moreover have "resting b' \<subseteq> resting b" using b'(6) sub by (auto simp: resting_def)
  ultimately show thesis using b' that by blast
qed

lemma solo_add:
  assumes inv: "book_inv st b" and solo: "solo b" and alive: "live (st a)" and fresh: "fresh_order st b a"
    and price: "\<And>s. o_price (st a) \<notin> level_prices b s"
  obtains b' where "add_order st (Some a) b = Inr (True, b')" "book_inv st b'" "solo b'"
    "resting b' = insert a (resting b)"
    "ob_index b' = (ob_index b)(o_order_id (st a) \<mapsto>
       \<lparr>loc_price = o_price (st a), loc_is_bid = is_buy (st a), loc_order = a\<rparr>)"
    "side_book st b' (is_buy (st a)) = insert_priority (is_buy (st a))
       ((o_price (st a), a), o_remaining (st a)) (side_book st b (is_buy (st a)))"
    "side_book st b' (\<not> is_buy (st a)) = side_book st b (\<not> is_buy (st a))"
    "level_prices b' (is_buy (st a)) = insert (o_price (st a)) (level_prices b (is_buy (st a)))"
    "level_prices b' (\<not> is_buy (st a)) = level_prices b (\<not> is_buy (st a))"
    "ob_sequence b' = ob_sequence b + 1"
proof -
  let ?s = "is_buy (st a)" and ?p = "o_price (st a)" and ?f = "ob_fresh b"
  have ok: "book_ok st b" and shape: "book_shape b" using inv by (simp_all add: book_inv_def book_ok_def)
  have none: "ob_p2l b ?p = None"
  proof (rule ccontr)
    assume "ob_p2l b ?p \<noteq> None"
    then obtain l where l: "l \<in> set (all_levels b)" "lprice b l = ?p" using book_shapeD(5) [OF shape] by blast
    obtain s where "l \<in> set (levels_of s b)" using l(1) by (rule all_levels_side)
    then show False using price [of s] l(2) by (metis imageI level_prices_def)
  qed
  have room: "has_room b ?p" by (simp add: has_room_def none)
  have opp: "lprice b l \<noteq> ?p" if "l \<in> set (levels_of (\<not> ?s) b)" for l
    using price [of "\<not> ?s"] that by (metis imageI level_prices_def)
  let ?k = "length (takeWhile (\<lambda>l. before ?s (lprice b l) ?p) (levels_of ?s b))"
  let ?L = "take ?k (levels_of ?s b)" and ?R = "drop ?k (levels_of ?s b)"
  let ?n = "with_new_level ?p ?s (?L @ ?f # ?R) b"
  let ?b = "put_order ?s ?f a st ?n"
  note g = get_level_new [OF shape none, of ?s]
  obtain b' where b': "add_order st (Some a) b = Inr (True, b')" "book_inv st b'"
    "ob_sequence b' = ob_sequence b + 1"
    "side_book st b' ?s = insert_priority ?s ((?p, a), o_remaining (st a)) (side_book st b ?s)"
    "side_book st b' (\<not> ?s) = side_book st b (\<not> ?s)"
    by (rule add_order_inv [OF inv alive fresh room opp])
  have d: "deref ?n ?f = Inr (lv ?n ?f)" by (simp add: deref_def lv_def)
  have "book_shape ?b"
    using get_and_put [OF ok refl alive fresh room opp] g by (metis Inr_inject Pair_inject book_ok_def)
  then have eq: "b' = bump_sequence (?b\<lparr>ob_best_bid := first_price ?b (ob_bids ?b) 0,
      ob_best_ask := first_price ?b (ob_asks ?b) int64_max\<rparr>)"
    using b'(1) add_order_put [where st = st and a = a, OF g d] update_best_prices_ok by simp
  have levels: "levels_of ?s b' = ?L @ ?f # ?R" "levels_of (\<not> ?s) b' = levels_of (\<not> ?s) b"
    by (simp_all add: eq del: append_take_drop_id)
  have fl: "?f \<notin> set (all_levels b)" using book_shapeD(3) [OF shape] by blast
  have lv: "lv b' l = (if l = ?f then level_add_order st (Some a) (new_level ?p) else lv b l)" for l
    by (simp add: eq bump_sequence_def put_order_lv lv_with_new_level)
  have e: "entries (lv b' ?f) = [a]"
    using level_add_order_entries(1) [of st a "new_level ?p"] alive by (simp add: lv live_def)
  have mem: "set (?L @ ?f # ?R) = insert ?f (set (levels_of ?s b))"
    by (metis append_take_drop_id set_append set_simps(2) Un_insert_right)
  have all: "set (all_levels b') = insert ?f (set (all_levels b))"
    using mem by (simp add: set_all_levels [of b' ?s] set_all_levels [of b ?s] levels)
  have old: "lv b' l = lv b l" if "l \<in> set (all_levels b)" for l using fl that lv by auto
  have "solo b'" using solo e old by (auto simp: solo_def all)
  moreover have "resting b' = insert a (resting b)" using e old by (auto simp: resting_def all)
  moreover have "ob_index b' = (ob_index b)(o_order_id (st a) \<mapsto>
       \<lparr>loc_price = ?p, loc_is_bid = ?s, loc_order = a\<rparr>)"
    by (simp add: eq bump_sequence_def)
  moreover have "lprice b' ?f = ?p" by (simp add: lprice_def lv new_level_def)
  moreover have "lprice b' l = lprice b l" if "l \<in> set (levels_of s b)" for l s
    using old [OF in_all_levels [OF that]] by (simp add: lprice_def)
  ultimately have "level_prices b' ?s = insert ?p (level_prices b ?s)"
    "level_prices b' (\<not> ?s) = level_prices b (\<not> ?s)"
    by (auto simp: level_prices_def levels mem simp del: set_append append_take_drop_id)
  then show thesis using b' \<open>solo b'\<close> \<open>resting b' = _\<close> \<open>ob_index b' = _\<close> that by blast
qed

end
