(* ===== verification/Market_Quotes.thy ===== *)
theory Market_Quotes
  imports Market_Sim_Props
begin

text \<open>
  The simulator's two orders in the published book of a symbol: placing, moving and a whole
  run of ticks.
\<close>

definition quoted :: "store \<Rightarrow> order_book \<Rightarrow> symbol_orders \<Rightarrow> addr \<Rightarrow> addr \<Rightarrow> u32 \<Rightarrow> bool" where
  "quoted st b so ba aa q \<longleftrightarrow> book_ok st b \<and> solo b \<and> resting b = {ba, aa} \<and> ba \<noteq> aa \<and>
     so_bid_order_id so \<noteq> so_ask_order_id so \<and>
     ob_index b = [so_bid_order_id so \<mapsto> \<lparr>loc_price = so_bid_price so, loc_is_bid = True, loc_order = ba\<rparr>,
       so_ask_order_id so \<mapsto> \<lparr>loc_price = so_ask_price so, loc_is_bid = False, loc_order = aa\<rparr>] \<and>
     side_book st b True = [((so_bid_price so, ba), q)] \<and> side_book st b False = [((so_ask_price so, aa), q)]"

definition unquoted :: "store \<Rightarrow> order_book \<Rightarrow> bool" where
  "unquoted st b \<longleftrightarrow> book_inv st b \<and> solo b \<and> resting b = {} \<and> ob_index b = Map.empty"

lemma unquoted_levels: "unquoted st b \<Longrightarrow> all_levels b = []"
  by (cases "all_levels b") (auto simp: unquoted_def solo_def resting_def)

lemma unquoted_sides: "unquoted st b \<Longrightarrow> side_book st' b s = [] \<and> level_prices b s = {}"
proof -
  assume "unquoted st b"
  then have "levels_of s b = []" using unquoted_levels in_all_levels by (metis list.set_intros(1) neq_Nil_conv empty_iff empty_set)
  then show ?thesis by (simp add: side_book_def level_prices_def)
qed

lemma unquoted_new: "unquoted st (new_book symbol)"
  using book_inv_new by (auto simp: unquoted_def solo_def resting_def new_book_def all_levels_def)

lemma quoted_market_price: "quoted st (set_market_price x y b) so ba aa q = quoted st b so ba aa q"
  by (simp add: quoted_def set_market_price_def solo_def resting_def)

subsection \<open>Placing two quotes\<close>

lemma resting_order_simps [simp]:
  "o_order_id (resting_order i side px q symbol x) = i" "o_price (resting_order i side px q symbol x) = px"
  "o_remaining (resting_order i side px q symbol x) = word_of_int q"
  "o_quantity (resting_order i side px q symbol x) = word_of_int q"
  "is_buy (resting_order i side px q symbol x) = (side = BUY)"
  "o_status (resting_order i side px q symbol x) = NEW"
  by (simp_all add: resting_order_def is_buy_def)

lemma resting_order_live [simp]: "live (resting_order i side px q symbol x) = (word_of_int q \<noteq> (0 :: u32))"
  by (simp add: live_def is_active_def resting_order_def)

lemma insert_priority_nil [simp]: "insert_priority s x [] = [x]"
  by (simp add: insert_priority_def)

lemma upd_inv:
  assumes "book_inv st b" "unseen b a"
  shows "book_inv (upd a f st) b" "side_book (upd a f st) b = side_book st b"
  using write_unseen [OF assms, of "f (st a)"] by (simp_all add: upd_def)

lemma unseen_resting:
  "unseen b a \<longleftrightarrow> a \<notin> resting b \<and> (\<forall>i loc. ob_index b i = Some loc \<longrightarrow> loc_order loc \<noteq> a)"
  by (auto simp: unseen_def resting_def)

lemma fresh_order_resting: "fresh_order st b a \<longleftrightarrow> unseen b a \<and> ob_index b (o_order_id (st a)) = None"
  by (auto simp: unseen_def fresh_order_def)

text \<open>Two distinct free objects.\<close>

lemma acquire_two:
  assumes P: "object_pool P free" and two: "finite (free p)" "2 \<le> card (free p)"
  obtains a p1 c p2 where "p_acquire P p = (Some a, p1)" "p_acquire P p1 = (Some c, p2)"
    "a \<in> free p" "c \<in> free p" "a \<noteq> c" "free p2 = free p - {a, c}"
proof -
  obtain a p1 where 1: "p_acquire P p = (Some a, p1)"
    using object_poolD(3) [OF P] two by (cases "p_acquire P p"; cases "fst (p_acquire P p)") auto
  note a = object_poolD(1,2) [OF P 1]
  have "card (free p1) \<ge> 1" using a two by (simp add: card_Diff_singleton)
  then obtain c p2 where 2: "p_acquire P p1 = (Some c, p2)"
    using object_poolD(3) [OF P] by (cases "p_acquire P p1"; cases "fst (p_acquire P p1)") fastforce+
  show thesis using that [OF 1 2] a object_poolD(1,2) [OF P 2] by auto
qed

definition handle_set :: "active_orders option \<Rightarrow> addr set" where
  "handle_set old = (case old of None \<Rightarrow> {} | Some ao \<Rightarrow> set_option (ao_bid ao) \<union> set_option (ao_ask ao))"

lemma free_drop_active: "object_pool P free \<Longrightarrow> free (drop_active P old p) = free p \<union> handle_set old"
  by (auto simp: drop_active_def drop_handle_def handle_set_def object_poolD(4) split: option.splits)

text \<open>
  The frame of a placement: what of the simulator and of the store is as before.
\<close>

definition moved_quotes ::
  "('p \<Rightarrow> addr set) \<Rightarrow> string \<Rightarrow> store \<Rightarrow> 'p simulator \<Rightarrow> store \<Rightarrow> 'p simulator \<Rightarrow> symbol_orders \<Rightarrow> addr \<Rightarrow> addr \<Rightarrow> bool" where
  "moved_quotes free symbol st sim st' sim' so ba aa \<longleftrightarrow>
     ba \<in> free (ms_pool sim) \<and> aa \<in> free (ms_pool sim) \<and>
     (\<forall>x. x \<notin> {ba, aa} \<longrightarrow> st' x = st x) \<and>
     ms_symbol_orders sim' = (ms_symbol_orders sim)(symbol \<mapsto> so) \<and>
     map_of (ms_active_orders sim') = (map_of (ms_active_orders sim))(symbol \<mapsto> \<lparr>ao_bid = Some ba, ao_ask = Some aa\<rparr>) \<and>
     free (ms_pool sim') = (free (ms_pool sim) - {ba, aa}) \<union> handle_set (map_of (ms_active_orders sim) symbol) \<and>
     ms_resting_quantity sim' = ms_resting_quantity sim"

lemma place_quotes_ok:
  assumes P: "object_pool P free" and two: "finite (free (ms_pool sim))" "2 \<le> card (free (ms_pool sim))"
    and u: "unquoted st b" and q: "word_of_int (ms_resting_quantity sim) \<noteq> (0 :: u32)"
    and px: "bid \<noteq> ask"
  obtains st' b' sim' so ba aa where "place_quotes P symbol bid ask (st, b, sim) = Inr (True, st', b', sim')"
    "quoted st' b' so ba aa (word_of_int (ms_resting_quantity sim))" "book_inv st' b'"
    "so_bid_price so = bid" "so_ask_price so = ask" "moved_quotes free symbol st sim st' sim' so ba aa"
proof -
  let ?q = "ms_resting_quantity sim"
  obtain a p1 c p2 where acq: "p_acquire P (ms_pool sim) = (Some a, p1)" "p_acquire P p1 = (Some c, p2)"
    and f: "a \<in> free (ms_pool sim)" "c \<in> free (ms_pool sim)" "a \<noteq> c" "free p2 = free (ms_pool sim) - {a, c}"
    using acquire_two [OF P two] by metis
  let ?i = "ms_next_order_id sim + 1"
  let ?f1 = "resting_order ?i BUY bid ?q symbol" and ?f2 = "resting_order (?i + 1) SELL ask ?q symbol"
  let ?st1 = "upd a ?f1 st"
  let ?st2 = "upd c ?f2 ?st1"
  have ub: "book_inv st b" "solo b" "resting b = {}" "ob_index b = Map.empty"
    using u by (simp_all add: unquoted_def)
  have us: "side_book st' b s = []" "level_prices b s = {}" for st' s using unquoted_sides [OF u] by blast+
  have un: "unseen b x" for x using ub by (simp add: unseen_resting)
  have inv1: "book_inv ?st1 b" by (rule upd_inv(1) [OF ub(1) un])
  obtain b1 where b1: "add_order ?st1 (Some a) b = Inr (True, b1)" "book_inv ?st1 b1" "solo b1"
      "resting b1 = {a}" "ob_index b1 = [?i \<mapsto> \<lparr>loc_price = bid, loc_is_bid = True, loc_order = a\<rparr>]"
      "side_book ?st1 b1 True = [((bid, a), word_of_int ?q)]" "side_book ?st1 b1 False = []"
      "level_prices b1 True = {bid}" "level_prices b1 False = {}"
    using solo_add [OF inv1 ub(2), of a] q un ub(3,4) us
    by (simp add: fresh_order_resting) metis
  have un1: "unseen b1 c" using b1(4,5) f(3) by (auto simp: unseen_resting split: if_splits)
  note upd1 = upd_inv [OF b1(2) un1, of ?f2]
  have lp: "ask \<notin> level_prices b1 s" for s using px b1(8,9) by (cases s) auto
  have fr: "fresh_order ?st2 b1 c" using un1 b1(5) by (simp add: fresh_order_resting)
  obtain b2 where b2: "add_order ?st2 (Some c) b1 = Inr (True, b2)" "book_inv ?st2 b2" "solo b2"
      "resting b2 = {c, a}"
      "ob_index b2 = [?i \<mapsto> \<lparr>loc_price = bid, loc_is_bid = True, loc_order = a\<rparr>,
         ?i + 1 \<mapsto> \<lparr>loc_price = ask, loc_is_bid = False, loc_order = c\<rparr>]"
      "side_book ?st2 b2 False = [((ask, c), word_of_int ?q)]"
      "side_book ?st2 b2 True = [((bid, a), word_of_int ?q)]"
    using solo_add [OF upd1(1) b1(3) _ fr] q lp b1(4-7) unfolding upd1(2)
    by (simp add: insert_commute) metis
  let ?so = "\<lparr>so_bid_order_id = ?i, so_ask_order_id = ?i + 1, so_bid_price = bid, so_ask_price = ask\<rparr>"
  let ?sim = "sim\<lparr>ms_next_order_id := ?i + 1,
      ms_active_orders := AList.update symbol \<lparr>ao_bid = Some a, ao_ask = Some c\<rparr> (ms_active_orders sim),
      ms_pool := drop_active P (map_of (ms_active_orders sim) symbol) p2,
      ms_symbol_orders := (ms_symbol_orders sim)(symbol \<mapsto> ?so)\<rparr>"
  have "place_quotes P symbol bid ask (st, b, sim) = Inr (True, ?st2, b2, ?sim)"
    using b1(1) b2(1) by (simp add: place_quotes_def acq Let_def add.commute)
  moreover have "quoted ?st2 b2 ?so a c (word_of_int ?q)"
    using b2 f(3) by (auto simp: quoted_def book_inv_def)
  moreover have "moved_quotes free symbol st sim ?st2 ?sim ?so a c"
    using f by (auto simp: moved_quotes_def free_drop_active [OF P] update_conv')
  ultimately show thesis using b2(2) that by simp
qed

subsection \<open>Moving the quotes\<close>

lemma quoted_entry:
  assumes "quoted st b so ba aa q"
  shows "live (st ba)" "live (st aa)" "o_remaining (st ba) = q" "o_remaining (st aa) = q"
  using assms side_book_entry(1,2) [of "((so_bid_price so, ba), q)" st b True]
    side_book_entry(1,2) [of "((so_ask_price so, aa), q)" st b False]
  by (simp_all add: quoted_def entry_order_def)

lemma quoted_frame:
  assumes "quoted st b so ba aa q" "\<And>x. x \<in> {ba, aa} \<Longrightarrow> st' x = st x"
  shows "quoted st' b so ba aa q"
proof -
  have "unseen b x \<or> same_view (st' x) (st x)" for x
    using assms by (cases "x \<in> {ba, aa}") (auto simp: quoted_def unseen_resting same_view_def split: if_splits)
  then have "book_ok st' b" "side_book st' b = side_book st b"
    using store_view [of st b st'] assms(1) by (auto simp: quoted_def)
  then show ?thesis using assms(1) by (simp add: quoted_def)
qed

text \<open>After both cancels nothing is quoted; only the two orders have changed.\<close>

lemma cancel_quotes:
  assumes qd: "quoted st b so ba aa q" and q: "q \<noteq> 0"
  obtains b1 b2 where "cancel_order (so_bid_order_id so) st b = Inr (True, upd ba cancel st, b1)"
    "cancel_order (so_ask_order_id so) (upd ba cancel st) b1 = Inr (True, upd aa cancel (upd ba cancel st), b2)"
    "unquoted (upd aa cancel (upd ba cancel st)) b2"
proof -
  have b: "book_ok st b" "solo b" "resting b = {ba, aa}" "ba \<noteq> aa" "so_bid_order_id so \<noteq> so_ask_order_id so"
    and ix: "ob_index b = [so_bid_order_id so \<mapsto> \<lparr>loc_price = so_bid_price so, loc_is_bid = True, loc_order = ba\<rparr>,
       so_ask_order_id so \<mapsto> \<lparr>loc_price = so_ask_price so, loc_is_bid = False, loc_order = aa\<rparr>]"
    using qd by (simp_all add: quoted_def)
  obtain b1 where b1: "cancel_order (so_bid_order_id so) st b = Inr (True, upd ba cancel st, b1)"
    "book_inv (upd ba cancel st) b1" "solo b1" "resting b1 \<subseteq> {aa}"
    "ob_index b1 = [so_ask_order_id so \<mapsto> \<lparr>loc_price = so_ask_price so, loc_is_bid = False, loc_order = aa\<rparr>]"
  proof (rule solo_cancel [OF b(1,2), of "so_bid_order_id so"])
    show "ob_index b (so_bid_order_id so) = Some \<lparr>loc_price = so_bid_price so, loc_is_bid = True, loc_order = ba\<rparr>"
      using b(5) by (simp add: ix)
  next
    fix b' assume "cancel_order (so_bid_order_id so) st b = Inr (True, upd (loc_order
        \<lparr>loc_price = so_bid_price so, loc_is_bid = True, loc_order = ba\<rparr>) cancel st, b')"
      "book_inv (upd (loc_order \<lparr>loc_price = so_bid_price so, loc_is_bid = True, loc_order = ba\<rparr>) cancel st) b'"
      "solo b'" "resting b' \<subseteq> resting b - {loc_order \<lparr>loc_price = so_bid_price so, loc_is_bid = True, loc_order = ba\<rparr>}"
      "ob_index b' = (ob_index b)(so_bid_order_id so := None)"
    then show thesis using that [of b'] b(3,5) by (auto simp: ix fun_upd_twist)
  qed (use quoted_entry [OF qd] q in simp)
  have ok1: "book_ok (upd ba cancel st) b1" using b1(2) by (simp add: book_inv_def)
  show thesis
  proof (rule solo_cancel [OF ok1 b1(3), of "so_ask_order_id so"])
    show "ob_index b1 (so_ask_order_id so) = Some \<lparr>loc_price = so_ask_price so, loc_is_bid = False, loc_order = aa\<rparr>"
      by (simp add: b1(5))
  next
    fix b2 assume "cancel_order (so_ask_order_id so) (upd ba cancel st) b1 = Inr (True, upd (loc_order
        \<lparr>loc_price = so_ask_price so, loc_is_bid = False, loc_order = aa\<rparr>) cancel (upd ba cancel st), b2)"
      "book_inv (upd (loc_order \<lparr>loc_price = so_ask_price so, loc_is_bid = False, loc_order = aa\<rparr>) cancel (upd ba cancel st)) b2"
      "solo b2" "resting b2 \<subseteq> resting b1 - {loc_order \<lparr>loc_price = so_ask_price so, loc_is_bid = False, loc_order = aa\<rparr>}"
      "ob_index b2 = (ob_index b1)(so_ask_order_id so := None)"
    then show thesis using that [OF b1(1)] b1(4,5) by (auto simp: unquoted_def)
  qed (use quoted_entry [OF qd] q b(4) in simp)
qed

text \<open>The symbol's share of the simulator: its two orders are quoted and owned.\<close>

definition holds_quotes :: "('p \<Rightarrow> addr set) \<Rightarrow> string \<Rightarrow> store \<Rightarrow> order_book \<Rightarrow> 'p simulator \<Rightarrow> symbol_orders \<Rightarrow> bool" where
  "holds_quotes free symbol st b sim so \<longleftrightarrow> (\<exists>ba aa.
     ms_symbol_orders sim symbol = Some so \<and>
     map_of (ms_active_orders sim) symbol = Some \<lparr>ao_bid = Some ba, ao_ask = Some aa\<rparr> \<and>
     quoted st b so ba aa (word_of_int (ms_resting_quantity sim)) \<and>
     ba \<notin> free (ms_pool sim) \<and> aa \<notin> free (ms_pool sim))"

definition sim_ready :: "('p \<Rightarrow> addr set) \<Rightarrow> 'p simulator \<Rightarrow> bool" where
  "sim_ready free sim \<longleftrightarrow> finite (free (ms_pool sim)) \<and> 2 \<le> card (free (ms_pool sim)) \<and>
     word_of_int (ms_resting_quantity sim) \<noteq> (0 :: u32)"

lemma moved_holds:
  assumes "moved_quotes free symbol st sim st' sim' so ba aa"
    "quoted st' b' so ba aa (word_of_int (ms_resting_quantity sim))"
    "handle_set (map_of (ms_active_orders sim) symbol) \<inter> free (ms_pool sim) = {}"
  shows "holds_quotes free symbol st' b' sim' so"
  using assms by (auto simp: holds_quotes_def moved_quotes_def)

text \<open>What an update of a symbol's quotes may touch: its own handles and the free objects.\<close>

definition sim_frame ::
  "('p \<Rightarrow> addr set) \<Rightarrow> string \<Rightarrow> store \<Rightarrow> 'p simulator \<Rightarrow> store \<Rightarrow> 'p simulator \<Rightarrow> bool" where
  "sim_frame free symbol st sim st' sim' \<longleftrightarrow>
     untouched (free (ms_pool sim) \<union> handle_set (map_of (ms_active_orders sim) symbol)) st st' \<and>
     free (ms_pool sim') \<union> handle_set (map_of (ms_active_orders sim') symbol)
       = free (ms_pool sim) \<union> handle_set (map_of (ms_active_orders sim) symbol) \<and>
     (\<forall>s. s \<noteq> symbol \<longrightarrow> ms_symbol_orders sim' s = ms_symbol_orders sim s \<and>
        map_of (ms_active_orders sim') s = map_of (ms_active_orders sim) s)"

lemma sim_frame_refl [simp, intro]: "sim_frame free symbol st sim st sim"
  by (simp add: sim_frame_def)

lemma moved_frame:
  assumes "moved_quotes free symbol st1 sim st' sim' so ba aa" "untouched (handle_set (map_of (ms_active_orders sim) symbol)) st st1"
  shows "sim_frame free symbol st sim st' sim'"
  using assms unfolding moved_quotes_def sim_frame_def untouched_def handle_set_def by (auto split: option.splits)

lemma update_quotes_ok:
  assumes P: "object_pool P free" and ready: "sim_ready free sim"
    and h: "holds_quotes free symbol st b sim so" and px: "bid \<noteq> ask"
  obtains st' b' sim' so' where "update_resting_orders P symbol bid ask (st, b, sim) = Inr (st', b', sim')"
    "holds_quotes free symbol st' b' sim' so'" "so_bid_price so' = bid" "so_ask_price so' = ask"
    "sim_ready free sim'" "ms_resting_quantity sim' = ms_resting_quantity sim" "sim_frame free symbol st sim st' sim'"
proof -
  let ?q = "word_of_int (ms_resting_quantity sim) :: u32"
  have q: "?q \<noteq> 0" using ready by (simp add: sim_ready_def)
  obtain ba aa where so: "ms_symbol_orders sim symbol = Some so"
    and act: "map_of (ms_active_orders sim) symbol = Some \<lparr>ao_bid = Some ba, ao_ask = Some aa\<rparr>"
    and qd: "quoted st b so ba aa ?q" and own: "ba \<notin> free (ms_pool sim)" "aa \<notin> free (ms_pool sim)"
    using h by (auto simp: holds_quotes_def)
  show thesis
  proof (cases "so_bid_price so = bid \<and> so_ask_price so = ask")
    case True
    then have "update_resting_orders P symbol bid ask (st, b, sim) = Inr (st, b, sim)"
      by (simp add: update_resting_orders_def so)
    then show thesis using that h True ready by blast
  next
    case False
    obtain b1 b2 where c: "cancel_order (so_bid_order_id so) st b = Inr (True, upd ba cancel st, b1)"
      "cancel_order (so_ask_order_id so) (upd ba cancel st) b1 = Inr (True, upd aa cancel (upd ba cancel st), b2)"
      "unquoted (upd aa cancel (upd ba cancel st)) b2"
      using cancel_quotes [OF qd q] by metis
    let ?st = "upd aa cancel (upd ba cancel st)"
    have two: "finite (free (ms_pool sim))" "2 \<le> card (free (ms_pool sim))" using ready by (simp_all add: sim_ready_def)
    obtain st' b' sim' so' ba' aa' where p: "place_quotes P symbol bid ask (?st, b2, sim) = Inr (True, st', b', sim')"
      "quoted st' b' so' ba' aa' ?q" "so_bid_price so' = bid" "so_ask_price so' = ask"
      "moved_quotes free symbol ?st sim st' sim' so' ba' aa'"
      using place_quotes_ok [OF P two c(3) q px] by metis
    have hs: "handle_set (map_of (ms_active_orders sim) symbol) = {ba, aa}" by (auto simp: act handle_set_def)
    have "update_resting_orders P symbol bid ask (st, b, sim) = Inr (st', b', sim')"
      using False by (auto simp: update_resting_orders_def so c(1,2) p(1))
    moreover have "holds_quotes free symbol st' b' sim' so'"
      using moved_holds [OF p(5,2)] own by (simp add: hs)
    moreover have "sim_ready free sim'"
    proof -
      have f: "free (ms_pool sim') = (free (ms_pool sim) - {ba', aa'}) \<union> {ba, aa}" "ba' \<noteq> aa'" "ba \<noteq> aa"
        "{ba', aa'} \<subseteq> free (ms_pool sim)" "ms_resting_quantity sim' = ms_resting_quantity sim"
        using p(2,5) hs qd by (auto simp: moved_quotes_def quoted_def)
      have "card (free (ms_pool sim')) = card (free (ms_pool sim) - {ba', aa'}) + card {ba, aa}"
        unfolding f(1) using two(1) own by (intro card_Un_disjoint) auto
      also have "card (free (ms_pool sim) - {ba', aa'}) = card (free (ms_pool sim)) - 2"
        using f(2,4) by (simp add: card_Diff_subset)
      finally show ?thesis using ready f(1,3,5) two by (simp add: sim_ready_def)
    qed
    moreover have "sim_frame free symbol st sim st' sim'"
      by (rule moved_frame [OF p(5)]) (simp add: hs untouched_def upd_def)
    ultimately show thesis using that p(3,4,5) by (simp add: moved_quotes_def)
  qed
qed

subsection \<open>The name of a book stays\<close>

lemma book_symbol_keeps [simp]:
  "ob_symbol (set_level l pl b) = ob_symbol b" "ob_symbol (set_levels s ls b) = ob_symbol b"
  "ob_symbol (set_depth s d b) = ob_symbol b" "ob_symbol (index_order st a b) = ob_symbol b"
  "ob_symbol (delete_level l b) = ob_symbol b" "ob_symbol (bump_sequence b) = ob_symbol b"
  "ob_symbol (set_market_price x y b) = ob_symbol b"
  by (simp_all add: set_level_def set_levels_def set_depth_def index_order_def delete_level_def
      bump_sequence_def set_market_price_def)

lemma get_level_symbol: "get_level p s b = Inr (l, b') \<Longrightarrow> ob_symbol b' = ob_symbol b"
  by (auto simp: get_level_def find_level_def alloc_level_def insert_level_def Let_def res_bind_Inr_iff
      split: option.splits)

lemma update_best_symbol: "update_best_prices b = Inr b' \<Longrightarrow> ob_symbol b' = ob_symbol b"
  by (auto simp: update_best_prices_def Let_def res_bind_Inr_iff)

lemma add_order_symbol: "add_order st p b = Inr (r, b') \<Longrightarrow> ob_symbol b' = ob_symbol b"
  by (auto simp: add_order_def Let_def res_bind_Inr_iff split: option.splits
      dest!: get_level_symbol update_best_symbol)

lemma remove_level_symbol: "remove_level l s b = Inr b' \<Longrightarrow> ob_symbol b' = ob_symbol b"
  by (auto simp: remove_level_def Let_def res_bind_Inr_iff)

lemma cancel_order_symbol:
  assumes "cancel_order i st b = Inr (r, st', b')"
  shows "ob_symbol b' = ob_symbol b"
proof (cases "ob_index b i")
  case None
  then show ?thesis using assms by (simp add: cancel_order_def)
next
  case (Some loc)
  note loc = this
  show ?thesis
  proof (cases "find_level b (loc_price loc) (loc_is_bid loc)")
    case None
    then show ?thesis using assms loc by (auto simp: cancel_order_def)
  next
    case (Some l)
    then obtain level where d: "deref b l = Inr level"
      using assms loc by (auto simp: cancel_order_def res_bind_Inr_iff)
    obtain st1 level1 where "remove_order st (Some (loc_order loc)) level = (st1, level1)" by fastforce
    then show ?thesis
      using assms loc Some d
      by (auto simp: cancel_order_def Let_def res_bind_Inr_iff split: if_splits
          dest!: remove_level_symbol update_best_symbol)
  qed
qed

lemma sim_bind_Inr_iff: "sim_bind m f = Inr y \<longleftrightarrow> (\<exists>x. m = Inr x \<and> f x = Inr y)"
  by (cases m) simp_all

lemma lift_fault_Inr_iff [simp]: "lift_fault r = Inr y \<longleftrightarrow> r = Inr y"
  by (cases r) simp_all

lemma place_quotes_symbol:
  assumes "place_quotes P symbol x y (st, b, sim) = Inr (r, st', b', sim')"
  shows "ob_symbol b' = ob_symbol b"
proof -
  obtain h1 p1 where 1: "p_acquire P (ms_pool sim) = (h1, p1)" by fastforce
  obtain h2 p2 where "p_acquire P p1 = (h2, p2)" by fastforce
  then show ?thesis
    using assms 1
    by (cases h1; cases h2)
      (auto simp: place_quotes_def Let_def sim_bind_Inr_iff dest!: add_order_symbol)
qed

lemma update_resting_symbol:
  "update_resting_orders P symbol x y (st, b, sim) = Inr (st', b', sim') \<Longrightarrow> ob_symbol b' = ob_symbol b"
  by (auto simp: update_resting_orders_def Let_def sim_bind_Inr_iff split: option.splits prod.splits if_splits
      dest!: cancel_order_symbol place_quotes_symbol)

subsection \<open>A run of ticks\<close>

fun tick_run ::
  "'p pool_ops \<Rightarrow> (real \<times> i64) list \<Rightarrow> 'p sim_state \<times> 'o symbol_engine
    \<Rightarrow> sim_error + ('p sim_state \<times> 'o symbol_engine)" where
  "tick_run P [] se = Inr se"
| "tick_run P ((delta, spread) # ds) se = sim_bind (tick_symbol P delta spread se) (\<lambda>(_, se1). tick_run P ds se1)"

definition sim_inv :: "('p \<Rightarrow> addr set) \<Rightarrow> string \<Rightarrow> 'p sim_state \<times> 'o symbol_engine \<Rightarrow> bool" where
  "sim_inv free symbol = (\<lambda>(s, e). cstr (sy_symbol e) = symbol \<and> sim_ready free (ss_sim s) \<and>
     (\<exists>so. holds_quotes free symbol (ss_store s) (sy_book e) (ss_sim s) so \<and> so_bid_price so < so_ask_price so))"

lemma holds_market_price:
  "holds_quotes free symbol st (set_market_price x y b) sim so = holds_quotes free symbol st b sim so"
  by (simp add: holds_quotes_def quoted_market_price)

lemma tick_symbol_ok:
  assumes P: "object_pool P free" and inv: "sim_inv free symbol (s, e)" and sp: "4 \<le> spread" "spread < 2 ^ 62"
  obtains bid ask s' e' where "tick_symbol P delta spread (s, e) = Inr ((bid, ask), s', e')"
    "sim_inv free symbol (s', e')" "1 \<le> bid" "bid < ask" "ask \<le> 999999"
    "ms_resting_quantity (ss_sim s') = ms_resting_quantity (ss_sim s)" "sy_engine e' = sy_engine e"
    "sim_frame free symbol (ss_store s) (ss_sim s) (ss_store s') (ss_sim s')"
proof -
  let ?p = "next_price (price_of (ss_current s) symbol) delta"
  obtain bid ask where qt: "quote ?p spread = (bid, ask)" by fastforce
  have range: "1 \<le> bid" "bid < ask" "ask \<le> 999999"
    using quote_range [of ?p spread] next_price_range [of "price_of (ss_current s) symbol" delta] sp qt by auto
  have sym: "cstr (sy_symbol e) = symbol" and ready: "sim_ready free (ss_sim s)"
    using inv by (simp_all add: sim_inv_def)
  obtain so where h: "holds_quotes free symbol (ss_store s) (sy_book e) (ss_sim s) so"
    "so_bid_price so < so_ask_price so" using inv by (auto simp: sim_inv_def)
  let ?b = "set_market_price bid ask (sy_book e)"
  have hb: "holds_quotes free symbol (ss_store s) ?b (ss_sim s) so" using h(1) by (simp add: holds_market_price)
  show thesis
  proof (cases "\<bar>?p - price_of (ss_last_update s) symbol\<bar> > 10")
    case True
    obtain st' b' sim' so' where u: "update_resting_orders P symbol bid ask (ss_store s, ?b, ss_sim s) = Inr (st', b', sim')"
      "holds_quotes free symbol st' b' sim' so'" "so_bid_price so' = bid" "so_ask_price so' = ask"
      "sim_ready free sim'" "ms_resting_quantity sim' = ms_resting_quantity (ss_sim s)"
      "sim_frame free symbol (ss_store s) (ss_sim s) st' sim'"
      using update_quotes_ok [OF P ready hb] range(2) by (metis less_irrefl)
    have "ob_symbol b' = ob_symbol (sy_book e)" using update_resting_symbol [OF u(1)] by simp
    then show thesis
      using that True u range sym qt
      by (simp add: tick_symbol_def Let_def sy_set_market_price_def sim_inv_def sy_symbol_def) blast
  next
    case False
    then show thesis
      using that range sym qt hb h(2) ready
      by (simp add: tick_symbol_def Let_def sy_set_market_price_def sim_inv_def sy_symbol_def) blast
  qed
qed

lemma tick_run_ok:
  assumes P: "object_pool P free"
  shows "\<lbrakk>sim_inv free symbol (s, e); \<forall>(delta, spread) \<in> set ds. 4 \<le> spread \<and> spread < 2 ^ 62\<rbrakk>
    \<Longrightarrow> \<exists>s' e'. tick_run P ds (s, e) = Inr (s', e') \<and> sim_inv free symbol (s', e') \<and>
      ms_resting_quantity (ss_sim s') = ms_resting_quantity (ss_sim s) \<and> sy_engine e' = sy_engine e"
proof (induction ds arbitrary: s e)
  case (Cons d ds)
  obtain delta spread where d: "d = (delta, spread)" by fastforce
  have sp: "4 \<le> spread" "spread < 2 ^ 62" using Cons.prems(2) by (simp_all add: d)
  show ?case
    by (rule tick_symbol_ok [OF P Cons.prems(1) sp, of delta])
      (use Cons.IH Cons.prems(2) d in \<open>fastforce\<close>)
qed simp

subsection \<open>From the start\<close>

text \<open>
  C34: prices and quotes stay in range.  Whatever the current price and the random draw, the
  next price of the walk lies between 100 and 1000000, and with a spread of at least 4 the
  quote made of it is sane: a positive bid strictly below an ask of at most 999999, so a
  valid, uncrossed market.  (The main program draws spreads between 5 and 50.)
\<close>

theorem quotes_stay_in_range:
  assumes "4 \<le> spread" "spread < 2 ^ 62"
  shows "let p = next_price current delta; (bid, ask) = quote p spread
    in 100 \<le> p \<and> p \<le> 1000000 \<and> 1 \<le> bid \<and> bid < ask \<and> ask \<le> 999999"
  using next_price_range [of current delta] quote_range [of "next_price current delta" spread] assms
  by (simp add: Let_def split_beta)

theorem quotes_stay_in_range_witness:
  "let (bid, ask) = quote (next_price 999990 400) 5 in 1 \<le> bid \<and> bid < ask \<and> ask \<le> 999999"
  using quotes_stay_in_range [of 5 999990 400] by (simp add: Let_def split_beta)

lemma start_symbol_ok:
  assumes P: "object_pool P free" and two: "finite (free pool)" "4 \<le> card (free pool)" and q: "q \<noteq> 0"
    and p: "\<bar>get_initial_price (cstr (ob_symbol (new_book symbol))) (new_simulator prices vol mn mx q pool)\<bar> < 2 ^ 62"
  obtains s e where "start_symbol P (\<lparr>ss_store = st, ss_sim = new_simulator prices vol mn mx q pool,
      ss_current = Map.empty, ss_last_update = Map.empty\<rparr>, new_symbol_engine symbol queue) = Inr (s, e)"
    "sim_inv free (cstr (ob_symbol (new_book symbol))) (s, e)" "ms_resting_quantity (ss_sim s) = sint q"
    "sy_engine e = new_engine symbol queue"
proof -
  let ?sym = "cstr (ob_symbol (new_book symbol))" and ?sim = "new_simulator prices vol mn mx q pool"
  let ?p = "get_initial_price ?sym ?sim" and ?b = "new_book symbol"
  have px: "s64 (?p - 10) = ?p - 10" "s64 (?p + 10) = ?p + 10"
    using p by (auto intro!: s64_id simp: in_i64_def)
  have sim: "ms_pool ?sim = pool" "ms_resting_quantity ?sim = sint q" "ms_active_orders ?sim = []"
    by (simp_all add: new_simulator_def)
  obtain st' b' sim' so ba aa where r: "place_quotes P ?sym (?p - 10) (?p + 10) (st, ?b, ?sim) = Inr (True, st', b', sim')"
    "quoted st' b' so ba aa (word_of_int (ms_resting_quantity ?sim))"
    "so_bid_price so = ?p - 10" "so_ask_price so = ?p + 10" "moved_quotes free ?sym st ?sim st' sim' so ba aa"
  proof (rule place_quotes_ok [OF P _ _ unquoted_new, of ?sim "?p - 10" "?p + 10" ?sym st symbol])
    show "finite (free (ms_pool ?sim))" "2 \<le> card (free (ms_pool ?sim))"
      "word_of_int (ms_resting_quantity ?sim) \<noteq> (0 :: u32)" "?p - 10 \<noteq> ?p + 10"
      using two q by (simp_all add: sim)
  qed blast
  have f: "free (ms_pool sim') = free pool - {ba, aa}" "ba \<noteq> aa" "ba \<in> free pool" "aa \<in> free pool"
    "ms_resting_quantity sim' = sint q"
    using r(2,5) sim by (auto simp: moved_quotes_def handle_set_def quoted_def)
  have "sim_ready free sim'"
    using two q f by (simp add: sim_ready_def card_Diff_subset)
  moreover have "\<exists>so. holds_quotes free ?sym st' b' sim' so \<and> so_bid_price so < so_ask_price so"
    using moved_holds [OF r(5,2)] r(3,4) by (intro exI [of _ so]) (simp add: sim handle_set_def)
  moreover have "ob_symbol b' = ob_symbol ?b" by (rule place_quotes_symbol [OF r(1)])
  ultimately show thesis
    using r(1) f(5) that px
    by (simp add: start_symbol_def initialize_resting_orders_def Let_def new_symbol_engine_def sy_symbol_def sim_inv_def)
qed

text \<open>
  The simulator keeps its two quotes.  From a new simulator and a new symbol engine, with
  a pool of at least four objects, and for all random draws of a sane spread, no tick faults
  or runs out of objects; at the end the published book satisfies its invariant and holds
  exactly one bid and one ask, both the simulator's, of the configured quantity, the bid below
  the ask, and the engine has not been touched.
\<close>

theorem simulator_keeps_its_quotes:
  assumes "object_pool P free" "finite (free pool)" "4 \<le> card (free pool)" "q \<noteq> 0"
    "\<bar>get_initial_price (cstr (ob_symbol (new_book symbol))) (new_simulator prices vol mn mx q pool)\<bar> < 2 ^ 62"
    "\<forall>(delta, spread) \<in> set ds. 4 \<le> spread \<and> spread < 2 ^ 62"
  shows "\<exists>se s e bid ask ba aa. start_symbol P (\<lparr>ss_store = st, ss_sim = new_simulator prices vol mn mx q pool,
      ss_current = Map.empty, ss_last_update = Map.empty\<rparr>, new_symbol_engine symbol queue) = Inr se \<and>
    tick_run P ds se = Inr (s, e) \<and> book_ok (ss_store s) (sy_book e) \<and> bid < ask \<and>
    side_book (ss_store s) (sy_book e) True = [((bid, ba), q)] \<and>
    side_book (ss_store s) (sy_book e) False = [((ask, aa), q)] \<and> sy_engine e = new_engine symbol queue"
proof -
  let ?sym = "cstr (ob_symbol (new_book symbol))"
  obtain s0 e0 where start: "start_symbol P (\<lparr>ss_store = st, ss_sim = new_simulator prices vol mn mx q pool,
      ss_current = Map.empty, ss_last_update = Map.empty\<rparr>, new_symbol_engine symbol queue) = Inr (s0, e0)"
    "sim_inv free ?sym (s0, e0)" "ms_resting_quantity (ss_sim s0) = sint q" "sy_engine e0 = new_engine symbol queue"
    by (rule start_symbol_ok [OF assms(1-5)])
  obtain s e where run: "tick_run P ds (s0, e0) = Inr (s, e)" "sim_inv free ?sym (s, e)"
    "ms_resting_quantity (ss_sim s) = sint q" "sy_engine e = new_engine symbol queue"
    using tick_run_ok [OF assms(1) start(2) assms(6)] start(3,4) by auto
  obtain so ba aa where "quoted (ss_store s) (sy_book e) so ba aa q" "so_bid_price so < so_ask_price so"
    using run(2,3) by (auto simp: sim_inv_def holds_quotes_def)
  then show ?thesis using start(1) run(1,4) unfolding quoted_def by blast
qed

theorem simulator_keeps_its_quotes_witness:
  "\<exists>se s e bid ask ba aa. start_symbol stack_pool (\<lparr>ss_store = \<lambda>_. default_order,
      ss_sim = new_simulator [''AAPL'' \<mapsto> 17500] 50 5 50 500 [1, 2, 3, 4],
      ss_current = Map.empty, ss_last_update = Map.empty\<rparr>, new_symbol_engine ''AAPL'' ([] :: addr list)) = Inr se \<and>
    tick_run stack_pool [(20, 6), (-35 / 2, 7), (3, 50)] se = Inr (s, e) \<and> bid < ask \<and>
    side_book (ss_store s) (sy_book e) True = [((bid, ba), 500)] \<and>
    side_book (ss_store s) (sy_book e) False = [((ask, aa), 500)]"
proof -
  let ?sim = "new_simulator [''AAPL'' \<mapsto> 17500] 50 5 50 500 [1, 2, 3, 4]"
  have "\<bar>get_initial_price s ?sim\<bar> < 2 ^ 62" for s
    by (simp add: get_initial_price_def new_simulator_def split: option.split)
  from simulator_keeps_its_quotes [OF stack_pool_ok _ _ _ this, of "[(20, 6), (-35 / 2, 7), (3, 50)]"
      "\<lambda>_. default_order" "''AAPL''" "[] :: addr list"]
  show ?thesis by auto
qed

end
