(* ===== verification/Market_All.thy ===== *)
theory Market_All
  imports Market_Quotes
begin

text \<open>
  The simulator over all symbols: one pool of orders serves the quotes of every symbol, and a
  tick of one symbol leaves the quotes of the others alone.  Start-up and ticks of the whole
  list of engines.
\<close>

definition quotes_of :: "string \<Rightarrow> 'p simulator \<Rightarrow> addr set" where
  "quotes_of symbol sim = handle_set (map_of (ms_active_orders sim) symbol)"

definition book_name :: "order_book \<Rightarrow> string" where
  "book_name b = cstr (ob_symbol b)"

definition holds_pair :: "('p \<Rightarrow> addr set) \<Rightarrow> store \<Rightarrow> 'p simulator \<Rightarrow> order_book \<Rightarrow> bool" where
  "holds_pair free st sim b \<longleftrightarrow>
     (\<exists>so. holds_quotes free (book_name b) st b sim so \<and> so_bid_price so < so_ask_price so)"

text \<open>
  Every published book holds the pair of quotes of its symbol, in objects of their own; \<open>S\<close> is
  the set of all objects of the simulator.
\<close>

definition sim_all ::
  "('p \<Rightarrow> addr set) \<Rightarrow> addr set \<Rightarrow> u32 \<Rightarrow> store \<Rightarrow> 'p simulator \<Rightarrow> order_book list \<Rightarrow> bool" where
  "sim_all free S q st sim bs \<longleftrightarrow> sim_ready free sim \<and> word_of_int (ms_resting_quantity sim) = q \<and>
     free (ms_pool sim) \<subseteq> S \<and> distinct (map book_name bs) \<and>
     (\<forall>b \<in> set bs. holds_pair free st sim b \<and> quotes_of (book_name b) sim \<subseteq> S) \<and>
     (\<forall>b \<in> set bs. \<forall>c \<in> set bs. book_name b \<noteq> book_name c \<longrightarrow>
        quotes_of (book_name b) sim \<inter> quotes_of (book_name c) sim = {})"

lemma holds_quotes_of:
  assumes "holds_quotes free symbol st b sim so"
  obtains ba aa where "quotes_of symbol sim = {ba, aa}" "quoted st b so ba aa (word_of_int (ms_resting_quantity sim))"
    "ba \<notin> free (ms_pool sim)" "aa \<notin> free (ms_pool sim)" "ms_symbol_orders sim symbol = Some so"
    "map_of (ms_active_orders sim) symbol = Some \<lparr>ao_bid = Some ba, ao_ask = Some aa\<rparr>"
  using assms by (auto simp: holds_quotes_def quotes_of_def handle_set_def)

lemma holds_pair_quotes: "holds_pair free st sim b \<Longrightarrow> quotes_of (book_name b) sim \<inter> free (ms_pool sim) = {}"
  by (auto simp: holds_pair_def elim!: holds_quotes_of)

lemma holds_frame:
  assumes h: "holds_quotes free symbol st b sim so"
    and st: "\<And>x. x \<in> quotes_of symbol sim \<Longrightarrow> st' x = st x"
    and sim: "ms_symbol_orders sim' symbol = ms_symbol_orders sim symbol"
      "map_of (ms_active_orders sim') symbol = map_of (ms_active_orders sim) symbol"
      "ms_resting_quantity sim' = ms_resting_quantity sim" "free (ms_pool sim') \<inter> quotes_of symbol sim = {}"
  shows "holds_quotes free symbol st' b sim' so"
proof -
  obtain ba aa where q: "quotes_of symbol sim = {ba, aa}" "quoted st b so ba aa (word_of_int (ms_resting_quantity sim))"
    "ms_symbol_orders sim symbol = Some so"
    "map_of (ms_active_orders sim) symbol = Some \<lparr>ao_bid = Some ba, ao_ask = Some aa\<rparr>"
    using holds_quotes_of [OF h] by metis
  have "quoted st' b so ba aa (word_of_int (ms_resting_quantity sim'))"
    using quoted_frame [OF q(2), of st'] st q(1) sim(3) by simp
  then show ?thesis using q sim unfolding holds_quotes_def by auto
qed

text \<open>Whatever happens outside \<open>S\<close> leaves the quotes alone.\<close>

lemma sim_all_store:
  assumes "sim_all free S q st sim bs" "\<And>x. x \<in> S \<Longrightarrow> st' x = st x"
  shows "sim_all free S q st' sim bs"
proof -
  have "holds_pair free st' sim b" if b: "holds_pair free st sim b" "quotes_of (book_name b) sim \<subseteq> S" for b
  proof -
    have "quotes_of (book_name b) sim \<inter> free (ms_pool sim) = {}" by (rule holds_pair_quotes [OF b(1)])
    then have "holds_quotes free (book_name b) st' b sim so" if "holds_quotes free (book_name b) st b sim so" for so
      using holds_frame [OF that, of st' sim] assms(2) b(2) by blast
    then show ?thesis using b(1) by (auto simp: holds_pair_def)
  qed
  then show ?thesis using assms(1) by (simp add: sim_all_def)
qed

text \<open>
  A step of one symbol, whether it had quotes before or not: the other books keep their quotes.
\<close>

lemma sim_all_step:
  assumes all: "sim_all free S q st sim (pre @ post)"
    and fr: "sim_frame free (book_name b) st sim st' sim'"
    and sim: "sim_ready free sim'" "ms_resting_quantity sim' = ms_resting_quantity sim"
    and b: "holds_pair free st' sim' b" "quotes_of (book_name b) sim \<subseteq> S" "book_name b \<notin> book_name ` set (pre @ post)"
    and dis: "\<forall>c \<in> set (pre @ post). quotes_of (book_name b) sim \<inter> quotes_of (book_name c) sim = {}"
  shows "sim_all free S q st' sim' (pre @ b # post)" "untouched S st st'"
proof -
  have fr: "untouched (free (ms_pool sim) \<union> quotes_of (book_name b) sim) st st'"
    "free (ms_pool sim') \<union> quotes_of (book_name b) sim' = free (ms_pool sim) \<union> quotes_of (book_name b) sim"
    "\<And>s. s \<noteq> book_name b \<Longrightarrow> ms_symbol_orders sim' s = ms_symbol_orders sim s"
    "\<And>s. s \<noteq> book_name b \<Longrightarrow> map_of (ms_active_orders sim') s = map_of (ms_active_orders sim) s"
    using fr by (auto simp: sim_frame_def quotes_of_def)
  have qs: "quotes_of s sim' = quotes_of s sim" if "s \<noteq> book_name b" for s
    using fr(4) [OF that] by (simp add: quotes_of_def)
  have free: "free (ms_pool sim) \<subseteq> S" using all by (simp add: sim_all_def)
  then show "untouched S st st'" using untouched_mono [OF fr(1)] b(2) by blast
  have o: "holds_pair free st' sim' c \<and> quotes_of (book_name c) sim \<subseteq> S \<and>
      quotes_of (book_name c) sim \<inter> quotes_of (book_name b) sim' = {}" if c: "c \<in> set (pre @ post)" for c
  proof -
    have n: "book_name c \<noteq> book_name b" using b(3) c by (metis image_eqI)
    have h: "holds_pair free st sim c" "quotes_of (book_name c) sim \<subseteq> S" using all c unfolding sim_all_def by blast+
    have d: "quotes_of (book_name c) sim \<inter> (free (ms_pool sim) \<union> quotes_of (book_name b) sim) = {}"
      using holds_pair_quotes [OF h(1)] dis c by blast
    obtain so where so: "holds_quotes free (book_name c) st c sim so" "so_bid_price so < so_ask_price so"
      using h(1) by (auto simp: holds_pair_def)
    have "holds_quotes free (book_name c) st' c sim' so"
      using d fr(1,2) by (intro holds_frame [OF so(1)]) (auto simp: fr(3,4) n sim(2) untouched_def)
    then show ?thesis using so(2) h(2) d fr(2) by (auto simp: holds_pair_def)
  qed
  have qo: "quotes_of (book_name c) sim' = quotes_of (book_name c) sim" if "c \<in> set (pre @ post)" for c
    using qs b(3) that by (metis image_eqI)
  have old: "quotes_of (book_name c) sim' \<inter> quotes_of (book_name d) sim' = {}"
    if "c \<in> set (pre @ post)" "d \<in> set (pre @ post)" "book_name c \<noteq> book_name d" for c d
    using all that unfolding sim_all_def qo [OF that(1)] qo [OF that(2)] by blast
  have new: "quotes_of (book_name c) sim' \<inter> quotes_of (book_name b) sim' = {}"
    "quotes_of (book_name b) sim' \<inter> quotes_of (book_name c) sim' = {}" if "c \<in> set (pre @ post)" for c
    using o [OF that] qo [OF that] by blast+
  have sub: "quotes_of (book_name b) sim' \<subseteq> S" "free (ms_pool sim') \<subseteq> S" using fr(2) free b(2) by blast+
  have mem: "set (pre @ b # post) = insert b (set (pre @ post))" by auto
  have "distinct (map book_name (pre @ b # post))" using all b(3) by (auto simp: sim_all_def)
  moreover have "word_of_int (ms_resting_quantity sim') = q" using all sim(2) by (simp add: sim_all_def)
  moreover have "\<forall>c \<in> set (pre @ b # post). holds_pair free st' sim' c \<and> quotes_of (book_name c) sim' \<subseteq> S"
    using o qo b(1) sub(1) unfolding mem by simp
  moreover have "\<forall>c \<in> set (pre @ b # post). \<forall>d \<in> set (pre @ b # post). book_name c \<noteq> book_name d \<longrightarrow>
      quotes_of (book_name c) sim' \<inter> quotes_of (book_name d) sim' = {}"
    unfolding mem
  proof (intro ballI impI)
    fix c d assume "c \<in> insert b (set (pre @ post))" "d \<in> insert b (set (pre @ post))" "book_name c \<noteq> book_name d"
    then show "quotes_of (book_name c) sim' \<inter> quotes_of (book_name d) sim' = {}"
      by (cases "c = b"; cases "d = b") (use old [of c d] new [of c] new [of d] in simp_all)
  qed
  ultimately show "sim_all free S q st' sim' (pre @ b # post)"
    using sim(1) sub(2) unfolding sim_all_def by blast
qed

lemma sim_all_split:
  assumes "sim_all free S q st sim (pre @ b # post)"
  shows "sim_all free S q st sim (pre @ post)" "holds_pair free st sim b" "quotes_of (book_name b) sim \<subseteq> S"
    "book_name b \<notin> book_name ` set (pre @ post)"
    "\<forall>c \<in> set (pre @ post). quotes_of (book_name b) sim \<inter> quotes_of (book_name c) sim = {}"
proof -
  show n: "book_name b \<notin> book_name ` set (pre @ post)" using assms by (auto simp: sim_all_def)
  show "\<forall>c \<in> set (pre @ post). quotes_of (book_name b) sim \<inter> quotes_of (book_name c) sim = {}"
  proof
    fix c assume c: "c \<in> set (pre @ post)"
    then have "book_name b \<noteq> book_name c" using n by (metis image_eqI)
    moreover have "b \<in> set (pre @ b # post)" "c \<in> set (pre @ b # post)" using c by auto
    ultimately show "quotes_of (book_name b) sim \<inter> quotes_of (book_name c) sim = {}"
      using assms unfolding sim_all_def by blast
  qed
  show "sim_all free S q st sim (pre @ post)" "holds_pair free st sim b" "quotes_of (book_name b) sim \<subseteq> S"
    using assms by (simp_all add: sim_all_def)
qed

subsection \<open>What the simulator was constructed with\<close>

definition sim_config :: "'p simulator \<Rightarrow> (string \<rightharpoonup> i64) \<times> i64 \<times> i64 \<times> i64 \<times> i64 \<times> int" where
  "sim_config sim = (ms_initial_prices sim, ms_default_initial_price sim, ms_volatility sim,
     ms_min_spread sim, ms_max_spread sim, ms_resting_quantity sim)"

lemma place_quotes_config:
  assumes "place_quotes P symbol x y (st, b, sim) = Inr (r, st', b', sim')"
  shows "sim_config sim' = sim_config sim"
proof -
  obtain h1 p1 where 1: "p_acquire P (ms_pool sim) = (h1, p1)" by fastforce
  obtain h2 p2 where "p_acquire P p1 = (h2, p2)" by fastforce
  then show ?thesis
    using assms 1 by (cases h1; cases h2) (auto simp: place_quotes_def Let_def sim_bind_Inr_iff sim_config_def)
qed

lemma update_resting_config:
  "update_resting_orders P symbol x y (st, b, sim) = Inr (st', b', sim') \<Longrightarrow> sim_config sim' = sim_config sim"
  by (auto simp: update_resting_orders_def sim_bind_Inr_iff split: option.splits if_splits
      dest!: place_quotes_config)

lemma tick_symbol_config:
  "tick_symbol P delta spread (s, e) = Inr (ba, s', e') \<Longrightarrow> sim_config (ss_sim s') = sim_config (ss_sim s)"
  by (auto simp: tick_symbol_def Let_def sim_bind_Inr_iff split: prod.splits if_splits
      dest!: update_resting_config)

lemma start_symbol_config:
  "start_symbol P (s, e) = Inr (s', e') \<Longrightarrow> sim_config (ss_sim s') = sim_config (ss_sim s)"
  by (auto simp: start_symbol_def initialize_resting_orders_def Let_def sim_bind_Inr_iff split: if_splits
      dest!: place_quotes_config)

lemma tick_all_config:
  "tick_all P cb ds (s, c) es = Inr ((s', c'), es') \<Longrightarrow> sim_config (ss_sim s') = sim_config (ss_sim s)"
proof (induction es arbitrary: ds s c es')
  case (Cons e es)
  show ?case
  proof (cases ds)
    case Nil
    then show ?thesis using Cons.prems by auto
  next
    case (Cons d ds')
    obtain delta spread where d: "ds = (delta, spread) # ds'" using Cons by (cases d) simp
    obtain ba s1 e1 where t: "tick_symbol P delta spread (s, e) = Inr (ba, s1, e1)"
      using Cons.prems by (auto simp: d sim_bind_Inr_iff)
    obtain e2 c1 where c: "call_back cb e1 (fst ba) (snd ba) c = (e2, c1)" by fastforce
    obtain es2 where "tick_all P cb ds' (s1, c1) es = Inr ((s', c'), es2)"
      using Cons.prems t c by (cases ba) (auto simp: d sim_bind_Inr_iff)
    then show ?thesis using Cons.IH tick_symbol_config [OF t] by simp
  qed
qed auto

lemma start_all_config:
  "start_all P s es = Inr (s', es') \<Longrightarrow> sim_config (ss_sim s') = sim_config (ss_sim s)"
  by (induction es arbitrary: s es') (auto simp: sim_bind_Inr_iff dest!: start_symbol_config)

subsection \<open>Ticks\<close>

lemma sy_book_name [simp]: "cstr (sy_symbol e) = book_name (sy_book e)"
  by (simp add: sy_symbol_def book_name_def)

lemma tick_step:
  assumes P: "object_pool P free" and all: "sim_all free S q (ss_store s) (ss_sim s) (map sy_book (pre @ e # post))"
    and sp: "4 \<le> spread" "spread < 2 ^ 62"
  obtains bid ask s' e' where "tick_symbol P delta spread (s, e) = Inr ((bid, ask), s', e')"
    "sim_all free S q (ss_store s') (ss_sim s') (map sy_book (pre @ e' # post))"
    "untouched S (ss_store s) (ss_store s')" "book_name (sy_book e') = book_name (sy_book e)" "sy_engine e' = sy_engine e"
    "1 \<le> bid" "bid < ask" "ask \<le> 999999"
proof -
  let ?n = "book_name (sy_book e)"
  note split = sim_all_split [OF all [unfolded map_append list.map]]
  have "sim_inv free ?n (s, e)" using split(2) all by (simp add: sim_inv_def sim_all_def holds_pair_def)
  then obtain bid ask s' e' where t: "tick_symbol P delta spread (s, e) = Inr ((bid, ask), s', e')"
    "sim_inv free ?n (s', e')" "1 \<le> bid" "bid < ask" "ask \<le> 999999"
    "ms_resting_quantity (ss_sim s') = ms_resting_quantity (ss_sim s)" "sy_engine e' = sy_engine e"
    "sim_frame free ?n (ss_store s) (ss_sim s) (ss_store s') (ss_sim s')"
    by (rule tick_symbol_ok [OF P _ sp])
  have n: "book_name (sy_book e') = ?n" "sim_ready free (ss_sim s')" "holds_pair free (ss_store s') (ss_sim s') (sy_book e')"
    using t(2) by (auto simp: sim_inv_def holds_pair_def)
  show thesis
    using sim_all_step [OF split(1), of "sy_book e'" "ss_store s'" "ss_sim s'"] split(3-5) n t(6,8) that t(1,3,4,5,7)
    by simp
qed

text \<open>A callback that only watches.\<close>

definition keeps_engine :: "('o, 'c) price_callback option \<Rightarrow> bool" where
  "keeps_engine cb \<longleftrightarrow> (\<forall>e bid ask c. fst (call_back cb e bid ask c) = e)"

lemma tick_all_ok:
  shows "\<lbrakk>object_pool P free; keeps_engine cb; sim_all free S q (ss_store s) (ss_sim s) (map sy_book (pre @ es));
      \<forall>(delta, spread) \<in> set ds. 4 \<le> spread \<and> spread < 2 ^ 62\<rbrakk>
    \<Longrightarrow> \<exists>s' c' es'. tick_all P cb ds (s, c) es = Inr ((s', c'), es') \<and>
      sim_all free S q (ss_store s') (ss_sim s') (map sy_book (pre @ es')) \<and>
      untouched S (ss_store s) (ss_store s') \<and>
      map (\<lambda>e. book_name (sy_book e)) es' = map (\<lambda>e. book_name (sy_book e)) es \<and>
      map sy_engine es' = map sy_engine es"
proof (induction es arbitrary: ds s c pre)
  case (Cons e es)
  show ?case
  proof (cases ds)
    case Nil
    then show ?thesis using Cons.prems(3) by auto
  next
    case (Cons d ds')
    then obtain delta spread where d: "ds = (delta, spread) # ds'" by (cases d) auto
    have sp: "4 \<le> spread" "spread < 2 ^ 62" using Cons.prems(4) d by simp_all
    obtain bid ask s1 e1 where t: "tick_symbol P delta spread (s, e) = Inr ((bid, ask), s1, e1)"
      "sim_all free S q (ss_store s1) (ss_sim s1) (map sy_book ((pre @ [e1]) @ es))"
      "untouched S (ss_store s) (ss_store s1)" "book_name (sy_book e1) = book_name (sy_book e)" "sy_engine e1 = sy_engine e"
      by (rule tick_step [OF Cons.prems(1,3) sp]) auto
    obtain c1 where c: "call_back cb e1 bid ask c = (e1, c1)"
      using Cons.prems(2) unfolding keeps_engine_def by (metis prod.collapse)
    have "\<forall>(delta, spread) \<in> set ds'. 4 \<le> spread \<and> spread < 2 ^ 62" using Cons.prems(4) d by simp
    from Cons.IH [OF Cons.prems(1,2) t(2) this] obtain s' c' es' where
      r: "tick_all P cb ds' (s1, c1) es = Inr ((s', c'), es')"
      "sim_all free S q (ss_store s') (ss_sim s') (map sy_book ((pre @ [e1]) @ es'))"
      "untouched S (ss_store s1) (ss_store s')"
      "map (\<lambda>e. book_name (sy_book e)) es' = map (\<lambda>e. book_name (sy_book e)) es" "map sy_engine es' = map sy_engine es"
      by blast
    show ?thesis
      using t r c untouched_trans [OF t(3) r(3)]
      by (intro exI [of _ s'] exI [of _ c'] exI [of _ "e1 # es'"]) (simp add: d)
  qed
qed auto

subsection \<open>Start-up\<close>

text \<open>An engine of a symbol that the simulator does not know, whose published book is new.\<close>

definition unstarted :: "'p simulator \<Rightarrow> 'o symbol_engine \<Rightarrow> bool" where
  "unstarted sim e \<longleftrightarrow> (\<exists>symbol. sy_book e = new_book symbol) \<and> ms_symbol_orders sim (book_name (sy_book e)) = None \<and>
     map_of (ms_active_orders sim) (book_name (sy_book e)) = None \<and>
     \<bar>get_initial_price (book_name (sy_book e)) sim\<bar> < 2 ^ 62"

lemma start_step:
  fixes e :: "'o symbol_engine"
  assumes P: "object_pool P free" and all: "sim_all free S q (ss_store s) (ss_sim s) (map sy_book pre)"
    and e: "unstarted (ss_sim s) e" "book_name (sy_book e) \<notin> book_name ` set (map sy_book pre)"
    and four: "n + 4 \<le> card (free (ms_pool (ss_sim s)))"
  obtains s' e' where "start_symbol P (s, e) = Inr (s', e')"
    "sim_all free S q (ss_store s') (ss_sim s') (map sy_book (pre @ [e']))"
    "untouched S (ss_store s) (ss_store s')" "book_name (sy_book e') = book_name (sy_book e)" "sy_engine e' = sy_engine e"
    "n + 2 \<le> card (free (ms_pool (ss_sim s')))"
    "\<forall>f :: 'o symbol_engine. unstarted (ss_sim s) f \<longrightarrow> book_name (sy_book f) \<noteq> book_name (sy_book e) \<longrightarrow> unstarted (ss_sim s') f"
proof -
  let ?n = "book_name (sy_book e)" and ?sim = "ss_sim s"
  let ?p = "get_initial_price ?n ?sim"
  have px: "s64 (?p - 10) = ?p - 10" "s64 (?p + 10) = ?p + 10"
    using e(1) by (auto intro!: s64_id simp: in_i64_def unstarted_def)
  have ready: "sim_ready free ?sim" and q: "word_of_int (ms_resting_quantity ?sim) = q" using all by (simp_all add: sim_all_def)
  have none: "handle_set (map_of (ms_active_orders ?sim) ?n) = {}" using e(1) by (simp add: unstarted_def handle_set_def)
  obtain st' b' sim' so ba aa where r: "place_quotes P ?n (?p - 10) (?p + 10) (ss_store s, sy_book e, ?sim) = Inr (True, st', b', sim')"
    "quoted st' b' so ba aa (word_of_int (ms_resting_quantity ?sim))"
    "so_bid_price so = ?p - 10" "so_ask_price so = ?p + 10" "moved_quotes free ?n (ss_store s) ?sim st' sim' so ba aa"
  proof (rule place_quotes_ok [OF P])
    show "finite (free (ms_pool ?sim))" "2 \<le> card (free (ms_pool ?sim))"
      "word_of_int (ms_resting_quantity ?sim) \<noteq> (0 :: u32)" "?p - 10 \<noteq> ?p + 10"
      using ready by (simp_all add: sim_ready_def)
    show "unquoted (ss_store s) (sy_book e)" using e(1) unquoted_new by (auto simp: unstarted_def)
  qed blast
  have name: "book_name b' = ?n" using place_quotes_symbol [OF r(1)] by (simp add: book_name_def)
  have f: "free (ms_pool sim') = free (ms_pool ?sim) - {ba, aa}" "ba \<noteq> aa" "ba \<in> free (ms_pool ?sim)" "aa \<in> free (ms_pool ?sim)"
    "ms_resting_quantity sim' = ms_resting_quantity ?sim"
    using r(2,5) none by (auto simp: moved_quotes_def quoted_def)
  have card: "n + 2 \<le> card (free (ms_pool sim'))"
    using four f ready by (simp add: sim_ready_def card_Diff_subset)
  have "sim_ready free sim'" using card f(1,5) ready by (simp add: sim_ready_def)
  moreover have "holds_pair free st' sim' b'"
    using moved_holds [OF r(5,2)] none r(3,4) name unfolding holds_pair_def by (intro exI [of _ so]) simp
  moreover have "sim_frame free ?n (ss_store s) ?sim st' sim'" by (rule moved_frame [OF r(5)]) (simp add: none)
  ultimately have all': "sim_all free S q st' sim' (map sy_book pre @ [b'])" "untouched S (ss_store s) st'"
    using sim_all_step [of free S q "ss_store s" ?sim "map sy_book pre" "[]" b' st' sim'] all e(2) f(5) none
    by (simp_all add: name quotes_of_def)
  have start: "start_symbol P (s, e) = Inr (s\<lparr>ss_store := st', ss_sim := sim', ss_current := (ss_current s)(?n \<mapsto> ?p)\<rparr>, e\<lparr>sy_book := b'\<rparr>)"
    using r(1) px by (simp add: start_symbol_def initialize_resting_orders_def Let_def)
  have price: "get_initial_price x sim' = get_initial_price x ?sim" for x
    using place_quotes_config [OF r(1)] by (auto simp: get_initial_price_def sim_config_def split: option.split)
  show thesis
  proof (rule that [OF start])
    show "\<forall>f :: 'o symbol_engine. unstarted (ss_sim s) f \<longrightarrow> book_name (sy_book f) \<noteq> ?n \<longrightarrow>
        unstarted (ss_sim (s\<lparr>ss_store := st', ss_sim := sim', ss_current := (ss_current s)(?n \<mapsto> ?p)\<rparr>)) f"
      using r(5) price by (simp add: unstarted_def moved_quotes_def)
  qed (use all' card name in simp_all)
qed

lemma start_all_ok:
  fixes es :: "'o symbol_engine list"
  assumes P: "object_pool P free"
  shows "\<lbrakk>sim_all free S q (ss_store s) (ss_sim s) (map sy_book pre); \<forall>e \<in> set es. unstarted (ss_sim s) e;
      distinct (map (\<lambda>e. book_name (sy_book e)) (pre @ es));
      2 * length es + 2 \<le> card (free (ms_pool (ss_sim s)))\<rbrakk>
    \<Longrightarrow> \<exists>s' es'. start_all P s es = Inr (s', es') \<and>
      sim_all free S q (ss_store s') (ss_sim s') (map sy_book (pre @ es')) \<and>
      untouched S (ss_store s) (ss_store s') \<and>
      map (\<lambda>e. book_name (sy_book e)) es' = map (\<lambda>e. book_name (sy_book e)) es \<and>
      map sy_engine es' = map sy_engine es"
proof (induction es arbitrary: s pre)
  case (Cons e es)
  have new: "book_name (sy_book e) \<notin> book_name ` set (map sy_book pre)" using Cons.prems(3) by auto
  have four: "2 * length es + 4 \<le> card (free (ms_pool (ss_sim s)))" using Cons.prems(4) by simp
  have un: "unstarted (ss_sim s) e" using Cons.prems(2) by simp
  obtain s1 e1 where t: "start_symbol P (s, e) = Inr (s1, e1)"
    "sim_all free S q (ss_store s1) (ss_sim s1) (map sy_book (pre @ [e1]))"
    "untouched S (ss_store s) (ss_store s1)" "book_name (sy_book e1) = book_name (sy_book e)" "sy_engine e1 = sy_engine e"
    "2 * length es + 2 \<le> card (free (ms_pool (ss_sim s1)))"
    "\<forall>f :: 'o symbol_engine. unstarted (ss_sim s) f \<longrightarrow> book_name (sy_book f) \<noteq> book_name (sy_book e) \<longrightarrow> unstarted (ss_sim s1) f"
    by (rule start_step [OF P Cons.prems(1) un new four]) blast
  have "\<forall>f \<in> set es. unstarted (ss_sim s1) f"
  proof
    fix f assume f: "f \<in> set es"
    then have "book_name (sy_book f) \<noteq> book_name (sy_book e)" using Cons.prems(3) by (auto simp: image_iff)
    then show "unstarted (ss_sim s1) f" using t(7) Cons.prems(2) f by auto
  qed
  moreover have "distinct (map (\<lambda>e. book_name (sy_book e)) ((pre @ [e1]) @ es))" using Cons.prems(3) t(4) by auto
  ultimately obtain s' es' where r: "start_all P s1 es = Inr (s', es')"
    "sim_all free S q (ss_store s') (ss_sim s') (map sy_book ((pre @ [e1]) @ es'))"
    "untouched S (ss_store s1) (ss_store s')"
    "map (\<lambda>e. book_name (sy_book e)) es' = map (\<lambda>e. book_name (sy_book e)) es" "map sy_engine es' = map sy_engine es"
    using Cons.IH [OF t(2)] t(6) by blast
  then show ?case
    using t untouched_trans [OF t(3) r(3)] by (intro exI [of _ s'] exI [of _ "e1 # es'"]) simp
qed auto

end
