(* ===== verification/Program_Props.thy ===== *)
theory Program_Props
  imports Program Store_Frame Market_All
begin

text \<open>
  Invariants of the runs of the whole program.  The objects fall into two sets, those of the
  simulator and those of the other threads; every pass stays within its set, so the quotes of
  the simulator survive whatever the bots, the engines and the cancels do.
\<close>

subsection \<open>What the threads besides the simulator may touch\<close>

definition others_own ::
  "('p \<Rightarrow> addr set) \<Rightarrow> ('o \<Rightarrow> addr list) \<Rightarrow> addr set \<Rightarrow> ('g, 'q, 'o, 'oq, 'cq, 'p) program \<Rightarrow> bool" where
  "others_own free contents B s \<longleftrightarrow> engines_addrs contents (pg_engines s) \<subseteq> B \<and>
     (\<forall>t \<in> set (pg_threads s). free (st_pool t) \<union> set (st_storage t) \<subseteq> B)"

text \<open>The part of the state that belongs to the simulator's thread.\<close>

definition sim_part :: "('g, 'q, 'o, 'oq, 'cq, 'p) program \<Rightarrow>
    order_book list \<times> 'p simulator \<times> (string \<rightharpoonup> i64) \<times> (string \<rightharpoonup> i64) \<times> bool \<times> (string \<times> i64) list \<times> string option" where
  "sim_part s = (map sy_book (pg_engines s), pg_sim s, pg_current s, pg_last_update s, pg_started s,
     pg_prices s, pg_file s)"

definition other_step ::
  "('p \<Rightarrow> addr set) \<Rightarrow> ('o \<Rightarrow> addr list) \<Rightarrow> addr set \<Rightarrow> ('g, 'q, 'o, 'oq, 'cq, 'p) program
    \<Rightarrow> ('g, 'q, 'o, 'oq, 'cq, 'p) program \<Rightarrow> bool" where
  "other_step free contents B s s' \<longleftrightarrow> untouched B (tr_store (pg_trading s)) (tr_store (pg_trading s')) \<and>
     others_own free contents B s' \<and> sim_part s' = sim_part s"

lemma books_update: "sy_book e' = sy_book (es ! i) \<Longrightarrow> map sy_book (es[i := e']) = map sy_book es"
  by (metis list_update_id map_update)

lemma engines_addrs_update:
  assumes "engine_addrs contents (sy_engine e') \<subseteq> B" "engines_addrs contents es \<subseteq> B"
  shows "engines_addrs contents (es[i := e']) \<subseteq> B"
  using assms set_update_subset_insert [of es i e'] by (auto simp: engines_addrs_def)

lemma engine_in_addrs: "i < length es \<Longrightarrow> engine_addrs contents (sy_engine (es ! i)) \<subseteq> engines_addrs contents es"
  unfolding engines_addrs_def by (rule UN_upper [where B = "\<lambda>e. engine_addrs contents (sy_engine e)", OF nth_mem])

lemma worker_pass_other:
  assumes OQ: "spsc_queue (lib_order_queue L) contents cap" and own: "others_own free contents B s"
    and i: "i < length (pg_engines s)" and r: "worker_pass L i s = Some (Inr s')"
  shows "other_step free contents B s s'"
proof -
  obtain w e where c: "sy_run_match_cycle (lib_report_pool L) (lib_report_queue L) (lib_order_queue L)
      (pg_trading s) (pg_engines s ! i) = Some (Inr (w, e))"
    "s' = s\<lparr>pg_trading := w, pg_engines := (pg_engines s)[i := e]\<rparr>"
    using r by (auto simp: worker_pass_def res_bind_Inr_iff)
  note f = sy_cycle_frame [OF OQ c(1)]
  have sub: "engine_addrs contents (sy_engine (pg_engines s ! i)) \<subseteq> B"
    using engine_in_addrs [OF i, of contents] own by (auto simp: others_own_def)
  show ?thesis
    using untouched_mono [OF f(1) sub] engines_addrs_update [of contents e B "pg_engines s" i] f(2) sub own
      books_update [OF f(3)]
    by (auto simp: other_step_def others_own_def sim_part_def c(2))
qed

lemma cancel_pass_other:
  assumes own: "others_own free contents B s" and r: "cancel_pass L s = Some (Inr s')"
  shows "other_step free contents B s s'"
proof -
  obtain m w es where c: "drain_cancels (lib_cancel_queue L) (pg_bots s) (pg_trading s) (pg_engines s) = Some (Inr (m, w, es))"
    "s' = s\<lparr>pg_bots := m, pg_trading := w, pg_engines := es\<rparr>"
    using r by (auto simp: cancel_pass_def res_bind_Inr_iff)
  note f = drain_cancels_frame [OF c(1), of contents]
  have sub: "engines_addrs contents (pg_engines s) \<subseteq> B" using own by (simp add: others_own_def)
  show ?thesis
    using untouched_mono [OF conjunct1 [OF f] sub] f sub own
    by (auto simp: other_step_def others_own_def sim_part_def c(2))
qed

lemma stop_running_other: "others_own free contents B s \<Longrightarrow> other_step free contents B s (stop_running s)"
  by (simp add: other_step_def others_own_def sim_part_def stop_running_def)

lemma find_engine_Some:
  "find_engine symbol es = Some k \<Longrightarrow> k < length es \<and> cstr (sy_symbol (es ! k)) = symbol"
  by (induction es arbitrary: k) (auto split: if_splits)

lemma snapshot_pass_other:
  assumes P: "object_pool (lib_order_pool L) free" and OQ: "spsc_queue (lib_order_queue L) contents cap"
    and own: "others_own free contents B s"
    and i: "i < length (pg_threads s)" and r: "snapshot_pass L ds i s = Some (Inr s')"
  shows "other_step free contents B s s'"
proof (cases "find_engine (st_symbol (pg_threads s ! i)) (pg_engines s)")
  case None
  then show ?thesis using own r by (simp add: snapshot_pass_def other_step_def)
next
  case (Some k)
  let ?t = "pg_threads s ! i"
  obtain sm count th where c: "snapshot_cycle (lib_bot_queue L) (lib_new_bot_queue L) (lib_order_pool L) (lib_order_queue L)
      ds (st_symbol ?t) (st_manager ?t, pg_count s, thread_view s k ?t) = Some (Inr (sm, count, th))"
    "s' = put_view i k (sm, count, th) s"
    using r Some by (auto simp: snapshot_pass_def Let_def res_bind_Inr_iff)
  note f = snapshot_cycle_frame [OF P OQ c(1)]
  have k: "k < length (pg_engines s)" using find_engine_Some [OF Some] by simp
  have "?t \<in> set (pg_threads s)" using i by simp
  then have sub: "thread_addrs free contents (thread_view s k ?t) \<subseteq> B"
    using engine_in_addrs [OF k, of contents] own by (auto simp: thread_addrs_def thread_view_def others_own_def)
  have th: "thread_addrs free contents th \<subseteq> B" using f(2) sub by blast
  have "untouched B (tr_store (pg_trading s)) (th_store th)"
    using untouched_mono [OF f(1) sub] by (simp add: thread_view_def)
  moreover have "map sy_book ((pg_engines s)[k := th_engine th]) = map sy_book (pg_engines s)"
    using f(3) by (intro books_update) (simp add: thread_view_def)
  moreover have "engines_addrs contents ((pg_engines s)[k := th_engine th]) \<subseteq> B"
    using th own by (intro engines_addrs_update) (auto simp: thread_addrs_def others_own_def)
  moreover have "free (st_pool t) \<union> set (st_storage t) \<subseteq> B"
    if "t \<in> set ((pg_threads s)[i := ?t\<lparr>st_manager := sm, st_pool := th_pool th, st_storage := th_storage th\<rparr>])" for t
    using that th own by (auto simp: thread_addrs_def others_own_def dest!: set_update_subset_insert [THEN subsetD])
  ultimately show ?thesis
    by (simp add: c(2) put_view_def other_step_def others_own_def sim_part_def)
qed

subsection \<open>The invariant\<close>

text \<open>
  Before the start the simulator knows no symbol and the published books are new; afterwards
  every published book holds the pair of quotes of its symbol.
\<close>

definition quotes_inv ::
  "('p \<Rightarrow> addr set) \<Rightarrow> addr set \<Rightarrow> u32 \<Rightarrow> ('g, 'q, 'o, 'oq, 'cq, 'p) program \<Rightarrow> bool" where
  "quotes_inv free S q s \<longleftrightarrow> 4 \<le> ms_min_spread (pg_sim s) \<and> ms_max_spread (pg_sim s) < 2 ^ 62 \<and>
     (if pg_started s
      then sim_all free S q (tr_store (pg_trading s)) (pg_sim s) (map sy_book (pg_engines s))
      else sim_all free S q (tr_store (pg_trading s)) (pg_sim s) [] \<and>
        (\<forall>e \<in> set (pg_engines s). unstarted (pg_sim s) e) \<and>
        distinct (map book_name (map sy_book (pg_engines s))) \<and>
        2 * length (pg_engines s) + 2 \<le> card (free (ms_pool (pg_sim s))))"

definition program_inv ::
  "('p \<Rightarrow> addr set) \<Rightarrow> ('o \<Rightarrow> addr list) \<Rightarrow> addr set \<Rightarrow> addr set \<Rightarrow> u32 \<Rightarrow> ('g, 'q, 'o, 'oq, 'cq, 'p) program \<Rightarrow> bool" where
  "program_inv free contents S B q s \<longleftrightarrow> S \<inter> B = {} \<and> others_own free contents B s \<and> quotes_inv free S q s \<and>
     map (\<lambda>e. book_name (sy_book e)) (pg_engines s) = symbols"

text \<open>The quotes depend on the engines through their published books only.\<close>

lemma unstarted_books:
  "(\<forall>e \<in> set es. unstarted sim e) \<longleftrightarrow> (\<forall>b \<in> set (map sy_book es). \<exists>symbol. b = new_book symbol \<and>
     ms_symbol_orders sim (book_name b) = None \<and> map_of (ms_active_orders sim) (book_name b) = None \<and>
     \<bar>get_initial_price (book_name b) sim\<bar> < 2 ^ 62)"
  by (auto simp: unstarted_def)

lemma other_step_inv:
  assumes inv: "program_inv free contents S B q s" and o: "other_step free contents B s s'"
  shows "program_inv free contents S B q s'"
proof -
  have p: "map sy_book (pg_engines s') = map sy_book (pg_engines s)" "pg_sim s' = pg_sim s" "pg_started s' = pg_started s"
    using o by (simp_all add: other_step_def sim_part_def)
  have st: "tr_store (pg_trading s') x = tr_store (pg_trading s) x" if "x \<in> S" for x
    using o inv that by (auto simp: other_step_def untouched_def program_inv_def)
  have len: "length (pg_engines s') = length (pg_engines s)" using arg_cong [OF p(1), of length] by simp
  note frame = sim_all_store [of free S q "tr_store (pg_trading s)" "pg_sim s" _ "tr_store (pg_trading s')", OF _ st]
  have "quotes_inv free S q s'"
    using inv frame unfolding program_inv_def quotes_inv_def unstarted_books p len by (simp split: if_splits)
  moreover have "map (\<lambda>e. book_name (sy_book e)) (pg_engines s') = map (\<lambda>e. book_name (sy_book e)) (pg_engines s)"
    using arg_cong [OF p(1), of "map book_name"] by (simp add: o_def)
  ultimately show ?thesis using inv o by (simp add: program_inv_def other_step_def)
qed

lemma engines_addrs_engines:
  "engines_addrs contents es = (\<Union>e \<in> set (map sy_engine es). engine_addrs contents e)"
  by (simp add: engines_addrs_def)

lemma others_own_sim:
  assumes "others_own free contents B s" "map sy_engine es = map sy_engine (pg_engines s)"
  shows "others_own free contents B (put_sim x es s)"
  using assms(1) unfolding others_own_def engines_addrs_engines by (simp add: put_sim_def assms(2) del: set_map)

lemma get_initial_price_running [simp]: "get_initial_price x (sim\<lparr>ms_running := r\<rparr>) = get_initial_price x sim"
  by (simp add: get_initial_price_def split: option.split)

text \<open>What a pass of the simulator leaves alone besides the orders of the other threads.\<close>

definition sim_step :: "('g, 'q, 'o, 'oq, 'cq, 'p) program \<Rightarrow> ('g, 'q, 'o, 'oq, 'cq, 'p) program \<Rightarrow> bool" where
  "sim_step s s' \<longleftrightarrow> map sy_engine (pg_engines s') = map sy_engine (pg_engines s) \<and> pg_threads s' = pg_threads s \<and>
     pg_bots s' = pg_bots s \<and> (\<exists>st. pg_trading s' = (pg_trading s)\<lparr>tr_store := st\<rparr>)"

text \<open>The simulator's passes never fail, and they keep the invariant.\<close>

lemma start_pass_inv:
  assumes P: "object_pool (lib_order_pool L) free" and inv: "program_inv free contents S B q s" and n: "\<not> pg_started s"
  obtains s' where "start_pass L s = Inr s'" "program_inv free contents S B q s'" "pg_started s'"
    "untouched S (tr_store (pg_trading s)) (tr_store (pg_trading s'))" "sim_step s s'"
proof -
  let ?sim = "(pg_sim s)\<lparr>ms_running := True\<rparr>"
  let ?v = "(sim_view s)\<lparr>ss_sim := ?sim\<rparr>"
  have i: "sim_all free S q (tr_store (pg_trading s)) (pg_sim s) []" "\<forall>e \<in> set (pg_engines s). unstarted (pg_sim s) e"
    "distinct (map book_name (map sy_book (pg_engines s)))" "2 * length (pg_engines s) + 2 \<le> card (free (ms_pool (pg_sim s)))"
    using inv n by (simp_all add: program_inv_def quotes_inv_def)
  have "sim_all free S q (ss_store ?v) (ss_sim ?v) (map sy_book [])"
    using i(1) unfolding sim_all_def sim_ready_def by (auto simp: sim_view_def)
  moreover have "\<forall>e \<in> set (pg_engines s). unstarted (ss_sim ?v) e"
    using i(2) by (simp add: unstarted_def)
  moreover have "distinct (map (\<lambda>e. book_name (sy_book e)) ([] @ pg_engines s))" using i(3) by (simp add: o_def)
  moreover have "2 * length (pg_engines s) + 2 \<le> card (free (ms_pool (ss_sim ?v)))" using i(4) by simp
  ultimately obtain x es where r: "start_all (lib_order_pool L) ?v (pg_engines s) = Inr (x, es)"
    "sim_all free S q (ss_store x) (ss_sim x) (map sy_book ([] @ es))" "untouched S (ss_store ?v) (ss_store x)"
    "map sy_engine es = map sy_engine (pg_engines s)"
    "map (\<lambda>e. book_name (sy_book e)) es = map (\<lambda>e. book_name (sy_book e)) (pg_engines s)"
    using start_all_ok [OF P] by blast
  let ?s = "(put_sim x es s)\<lparr>pg_started := True\<rparr>"
  have cfg: "sim_config (ss_sim x) = sim_config (pg_sim s)"
    using start_all_config [OF r(1)] by (simp add: sim_config_def)
  have "others_own free contents B ?s" using others_own_sim [OF _ r(4), of free contents B x] inv
    by (simp add: program_inv_def others_own_def)
  moreover have "quotes_inv free S q ?s"
    using r(2) inv cfg by (simp add: quotes_inv_def put_sim_def program_inv_def sim_config_def)
  moreover have "map (\<lambda>e. book_name (sy_book e)) (pg_engines ?s) = symbols"
    using r(5) inv by (simp add: program_inv_def put_sim_def)
  ultimately have "program_inv free contents S B q ?s" using inv by (simp add: program_inv_def)
  moreover have "start_pass L s = Inr ?s" using r(1) by (simp add: start_pass_def)
  ultimately show thesis using that r(3,4) by (simp add: put_sim_def sim_view_def sim_step_def) blast
qed

lemma price_logger_keeps: "keeps_engine (Some (price_logger opened))"
  by (simp add: keeps_engine_def call_back_def price_logger_def Let_def)

lemma tick_pass_inv:
  assumes P: "object_pool (lib_order_pool L) free" and inv: "program_inv free contents S B q s"
    and n: "pg_started s" and ds: "sim_draws s ds"
  obtains s' where "tick_pass L opened ds s = Inr s'" "program_inv free contents S B q s'" "pg_started s'"
    "untouched S (tr_store (pg_trading s)) (tr_store (pg_trading s'))" "sim_step s s'"
proof -
  have i: "sim_all free S q (ss_store (sim_view s)) (ss_sim (sim_view s)) (map sy_book ([] @ pg_engines s))"
    "4 \<le> ms_min_spread (pg_sim s)" "ms_max_spread (pg_sim s) < 2 ^ 62"
    using inv n by (simp_all add: program_inv_def quotes_inv_def sim_view_def)
  have "\<forall>(delta, spread) \<in> set ds. 4 \<le> spread \<and> spread < 2 ^ 62"
    using ds i(2,3) unfolding sim_draws_def by fastforce
  from tick_all_ok [OF P price_logger_keeps i(1) this, of opened "(pg_prices s, pg_file s)"]
  obtain x c es where r: "tick_all (lib_order_pool L) (Some (price_logger opened)) ds
      (sim_view s, pg_prices s, pg_file s) (pg_engines s) = Inr ((x, c), es)"
    "sim_all free S q (ss_store x) (ss_sim x) (map sy_book ([] @ es))"
    "untouched S (ss_store (sim_view s)) (ss_store x)" "map sy_engine es = map sy_engine (pg_engines s)"
    "map (\<lambda>e. book_name (sy_book e)) es = map (\<lambda>e. book_name (sy_book e)) (pg_engines s)"
    by blast
  obtain prices content where c: "c = (prices, content)" by fastforce
  let ?s = "(put_sim x es s)\<lparr>pg_prices := prices, pg_file := content\<rparr>"
  have cfg: "sim_config (ss_sim x) = sim_config (pg_sim s)"
    using tick_all_config [OF r(1)] by (simp add: sim_view_def)
  have "others_own free contents B ?s" using others_own_sim [OF _ r(4), of free contents B x] inv
    by (simp add: program_inv_def others_own_def)
  moreover have "quotes_inv free S q ?s"
    using r(2) inv cfg n by (simp add: quotes_inv_def put_sim_def program_inv_def sim_config_def)
  moreover have "map (\<lambda>e. book_name (sy_book e)) (pg_engines ?s) = symbols"
    using r(5) inv by (simp add: program_inv_def put_sim_def)
  ultimately have "program_inv free contents S B q ?s" using inv by (simp add: program_inv_def)
  moreover have "tick_pass L opened ds s = Inr ?s" using r(1) by (simp add: tick_pass_def c)
  ultimately show thesis using that r(3,4) n by (simp add: put_sim_def sim_view_def sim_step_def) blast
qed

lemma program_inv_step:
  assumes "program_step L s s'" "object_pool (lib_order_pool L) free" "spsc_queue (lib_order_queue L) contents cap"
    "program_inv free contents S B q s"
  shows "program_inv free contents S B q s'"
proof -
  have own: "others_own free contents B s" using assms(4) by (simp add: program_inv_def)
  show ?thesis
    using assms(1)
  proof cases
    case (Worker i)
    then show ?thesis using other_step_inv [OF assms(4) worker_pass_other [OF assms(3) own]] by blast
  next
    case (Snapshot i ds)
    then show ?thesis using other_step_inv [OF assms(4) snapshot_pass_other [OF assms(2,3) own]] by blast
  next
    case Cancels
    then show ?thesis using other_step_inv [OF assms(4) cancel_pass_other [OF own]] by blast
  next
    case Start
    then show ?thesis using start_pass_inv [OF assms(2,4)] by (metis sum.inject(2))
  next
    case (Tick ds opened)
    then show ?thesis using tick_pass_inv [OF assms(2,4)] by (metis sum.inject(2))
  next
    case Stop
    then show ?thesis using other_step_inv [OF assms(4) stop_running_other [OF own]] by simp
  qed
qed

lemma program_inv_run:
  "\<lbrakk>(program_step L)\<^sup>*\<^sup>* s s'; object_pool (lib_order_pool L) free; spsc_queue (lib_order_queue L) contents cap;
    program_inv free contents S B q s\<rbrakk> \<Longrightarrow> program_inv free contents S B q s'"
  by (induction rule: rtranclp_induct) (auto dest: program_inv_step)

subsection \<open>From the start\<close>

text \<open>
  There is a pool for each of the five threads, apart from that of the simulator, which has room
  for two orders of each symbol and two more, and the prices from the file are not extreme.
\<close>

definition start_ok ::
  "('p \<Rightarrow> addr set) \<Rightarrow> 'p list \<Rightarrow> 'p \<Rightarrow> (string \<times> i64) list \<Rightarrow> bool" where
  "start_ok free bot_pools sim_pool prices \<longleftrightarrow> length bot_pools = 5 \<and> finite (free sim_pool) \<and> 12 \<le> card (free sim_pool) \<and>
     (\<forall>p \<in> set bot_pools. free p \<inter> free sim_pool = {}) \<and> (\<forall>e \<in> set prices. \<bar>snd e\<bar> < 2 ^ 62)"

lemma main_engines_simps:
  "map sy_book (main_engines queue) = map new_book symbols" "length (main_engines queue) = 5"
  "map (\<lambda>e. me_queue (sy_engine e)) (main_engines queue) = replicate 5 queue"
  by (simp_all add: main_engines_def symbols_def new_symbol_engine_def new_engine_def numeral_eq_Suc)

lemma main_engines_own: "contents queue = [] \<Longrightarrow> engines_addrs contents (main_engines queue) = {}"
  by (auto simp: engines_addrs_def main_engines_def new_symbol_engine_def new_engine_def engine_addrs_def)

lemma main_threads_own:
  "t \<in> set (main_threads pools) \<Longrightarrow> st_pool t \<in> set pools \<and> st_storage t = [] \<and> st_manager t = new_snapshot_manager 5"
  by (auto simp: main_threads_def dest: set_zip_rightD)

lemma book_name_new: "length s \<le> 7 \<Longrightarrow> NUL \<notin> set s \<Longrightarrow> book_name (new_book s) = s"
  by (simp add: book_name_def new_book_def cstr_strncpy_7 zero_symbol_def cstr_id)

lemma symbol_names: "map book_name (map new_book symbols) = symbols"
  by (simp add: symbols_def book_name_new NUL_def)

lemma program_inv_start:
  assumes "contents order_queue = []" "start_ok free bot_pools sim_pool prices"
  shows "program_inv free contents (free sim_pool) (\<Union>p \<in> set bot_pools. free p) 500
    (program_start gateway order_queue bot_queue cancel_queue bot_pools sim_pool st content prices)"
proof -
  let ?s = "program_start gateway order_queue bot_queue cancel_queue bot_pools sim_pool st content prices"
  have "others_own free contents (\<Union>p \<in> set bot_pools. free p) ?s"
    using main_engines_own [of contents order_queue] assms(1)
    by (auto simp: others_own_def program_start_def dest!: main_threads_own)
  moreover have "unstarted (pg_sim ?s) e" if "e \<in> set (pg_engines ?s)" for e
  proof -
    have "\<exists>s. sy_book e = new_book s" using that by (auto simp: program_start_def main_engines_def new_symbol_engine_def)
    moreover have "\<bar>get_initial_price x (pg_sim ?s)\<bar> < 2 ^ 62" for x
      using assms(2) by (auto simp: program_start_def new_simulator_def get_initial_price_def start_ok_def
          split: option.split dest!: map_of_SomeD)
    ultimately show ?thesis by (simp add: unstarted_def program_start_def new_simulator_def)
  qed
  moreover have "distinct (map book_name (map sy_book (pg_engines ?s)))"
    unfolding program_start_def program.simps main_engines_simps symbol_names by (simp add: symbols_def)
  moreover have "sim_all free (free sim_pool) 500 (tr_store (pg_trading ?s)) (pg_sim ?s) []"
    using assms(2) by (simp add: sim_all_def sim_ready_def program_start_def new_simulator_def start_ok_def)
  moreover have "map (\<lambda>e. book_name (sy_book e)) (pg_engines ?s) = symbols"
    using arg_cong [OF main_engines_simps(1), of "map book_name"] symbol_names by (simp add: program_start_def o_def)
  ultimately show ?thesis
    using assms(2) by (auto simp: program_inv_def quotes_inv_def program_start_def new_simulator_def start_ok_def main_engines_simps)
qed

text \<open>
  C4: the market is always quoted.  In every run of the program, whatever the bots submit, the
  engines match, the snapshot and cancel threads do and in whatever order the threads run: once
  the simulator has started, every symbol's published book satisfies its invariant and holds
  exactly two orders, the simulator's bid and ask of 500 shares each, unfilled, the bid below the
  ask; and the simulator's next pass, with any draws of its distributions, succeeds, without a
  fault or an exhausted pool.
\<close>

theorem market_is_always_quoted:
  assumes "object_pool (lib_order_pool L) free" "spsc_queue (lib_order_queue L) contents cap"
    "contents order_queue = []" "start_ok free bot_pools sim_pool prices"
    "(program_step L)\<^sup>*\<^sup>*
       (program_start gateway order_queue bot_queue cancel_queue bot_pools sim_pool st content prices) s"
  shows "map (\<lambda>e. cstr (sy_symbol e)) (pg_engines s) = symbols \<and>
    (if \<not> pg_started s then \<exists>s'. start_pass L s = Inr s' else
    (\<forall>e \<in> set (pg_engines s). book_ok (tr_store (pg_trading s)) (sy_book e) \<and>
       (\<exists>bid ask ba aa. bid < ask \<and> side_book (tr_store (pg_trading s)) (sy_book e) True = [((bid, ba), 500)] \<and>
          side_book (tr_store (pg_trading s)) (sy_book e) False = [((ask, aa), 500)])) \<and>
    (\<forall>opened ds. sim_draws s ds \<longrightarrow> (\<exists>s'. tick_pass L opened ds s = Inr s')))"
proof -
  let ?B = "\<Union>p \<in> set bot_pools. free p"
  have inv: "program_inv free contents (free sim_pool) ?B 500 s"
    by (rule program_inv_run [OF assms(5,1,2)]) (rule program_inv_start [of contents order_queue, OF assms(3,4)])
  have names: "map (\<lambda>e. cstr (sy_symbol e)) (pg_engines s) = symbols" using inv by (simp add: program_inv_def)
  show ?thesis
  proof (cases "pg_started s")
    case False
    then show ?thesis using start_pass_inv [OF assms(1) inv] names by metis
  next
    case True
    have "book_ok (tr_store (pg_trading s)) (sy_book e) \<and>
       (\<exists>bid ask ba aa. bid < ask \<and> side_book (tr_store (pg_trading s)) (sy_book e) True = [((bid, ba), 500)] \<and>
          side_book (tr_store (pg_trading s)) (sy_book e) False = [((ask, aa), 500)])" if "e \<in> set (pg_engines s)" for e
    proof -
      have all: "sim_all free (free sim_pool) 500 (tr_store (pg_trading s)) (pg_sim s) (map sy_book (pg_engines s))"
        using inv True by (simp add: program_inv_def quotes_inv_def)
      then have "holds_pair free (tr_store (pg_trading s)) (pg_sim s) (sy_book e)" using that by (simp add: sim_all_def)
      then obtain so ba aa where "quoted (tr_store (pg_trading s)) (sy_book e) so ba aa 500" "so_bid_price so < so_ask_price so"
        using all by (auto simp: holds_pair_def sim_all_def elim!: holds_quotes_of)
      then show ?thesis unfolding quoted_def by blast
    qed
    moreover have "\<exists>s'. tick_pass L opened ds s = Inr s'" if "sim_draws s ds" for opened ds
      using tick_pass_inv [OF assms(1) inv True that] by metis
    ultimately show ?thesis using names True by simp
  qed
qed

text \<open>A library of lists, and the program on it with pools of two and of twelve objects.\<close>

definition demo_library :: "(addr list, addr list, addr list, order list, u64 list, addr list) library" where
  "demo_library = \<lparr>lib_report_pool = stack_pool, lib_report_queue = list_queue 65535,
     lib_order_queue = list_queue 65535, lib_bot_queue = list_queue 65535, lib_cancel_queue = list_queue 65535,
     lib_order_pool = stack_pool, lib_new_bot_queue = []\<rparr>"

definition demo_prices :: "(string \<times> i64) list" where
  "demo_prices = [(''AAPL'', 17500), (''MSFT'', 33000), (''GOOGL'', 12500), (''AMZN'', 13500), (''META'', 30000)]"

definition demo_program :: "(addr list, addr list, addr list, order list, u64 list, addr list) program" where
  "demo_program = program_start (main_gateway 2 [] [0] (\<lambda>_. default_report)) [] [] []
     [[1, 2], [3, 4], [5, 6], [7, 8], [9, 10]] [20, 21, 22, 23, 24, 25, 26, 27, 28, 29, 30, 31]
     (\<lambda>_. default_order) None demo_prices"

lemma demo_library_laws:
  "object_pool (lib_order_pool demo_library) set" "spsc_queue (lib_order_queue demo_library) (\<lambda>q. q) 65535"
  using stack_pool_ok list_queue_ok by (auto simp: demo_library_def)

lemma demo_start_ok: "start_ok set [[1, 2], [3, 4], [5, 6], [7, 8], [9, 10]]
    [20, 21, 22, 23, 24, 25, 26, 27, 28, 29, 30, 31 :: addr] demo_prices"
  by (simp add: start_ok_def demo_prices_def)

lemma demo_program_inv: "program_inv set (\<lambda>q. q) (set [20, 21, 22, 23, 24, 25, 26, 27, 28, 29, 30, 31])
    (\<Union>p \<in> set [[1, 2], [3, 4], [5, 6], [7, 8], [9, 10]]. set p) 500 demo_program"
  unfolding demo_program_def by (rule program_inv_start [OF _ demo_start_ok]) simp

text \<open>The program started, and one tick later.\<close>

lemma demo_run:
  obtains s where "(program_step demo_library)\<^sup>*\<^sup>* demo_program s" "pg_started s"
proof -
  have "\<not> pg_started demo_program" by (simp add: demo_program_def program_start_def)
  with start_pass_inv [OF demo_library_laws(1) demo_program_inv] obtain s1 where
    s1: "start_pass demo_library demo_program = Inr s1" "pg_started s1" by metis
  then show thesis using program_step.Start [of demo_program demo_library s1] that
    by (metis r_into_rtranclp \<open>\<not> pg_started demo_program\<close>)
qed

theorem market_is_always_quoted_witness:
  "\<exists>s. (program_step demo_library)\<^sup>*\<^sup>* demo_program s \<and> length (pg_engines s) = 5 \<and>
    (\<forall>e \<in> set (pg_engines s). \<exists>bid ask ba aa. bid < ask \<and>
       side_book (tr_store (pg_trading s)) (sy_book e) True = [((bid, ba), 500)] \<and>
       side_book (tr_store (pg_trading s)) (sy_book e) False = [((ask, aa), 500)])"
proof -
  obtain s where s: "(program_step demo_library)\<^sup>*\<^sup>* demo_program s" "pg_started s" by (rule demo_run)
  note t = market_is_always_quoted [OF demo_library_laws _ demo_start_ok s(1) [unfolded demo_program_def]]
  have "map (\<lambda>e. cstr (sy_symbol e)) (pg_engines s) = symbols" using t by simp
  then have "length (pg_engines s) = length symbols" by (metis length_map)
  then show ?thesis using t s by (intro exI [of _ s]) (simp add: symbols_def)
qed

end
