(* ===== verification/Program_Prices.thy ===== *)
theory Program_Prices
  imports Program_Props
begin

text \<open>
  The prices that the program logs: what the callback stores in a tick, what is in the file when
  the program ends, and with which prices it starts again.
\<close>

definition price_now :: "price_map \<Rightarrow> (string \<times> i64) list \<Rightarrow> string \<Rightarrow> bool" where
  "price_now first prices s \<longleftrightarrow> map_of prices s = first s \<or> (\<exists>p. map_of prices s = Some p \<and> 1 \<le> p \<and> p \<le> 999999)"

definition logged_ok :: "price_map \<Rightarrow> (string \<times> i64) list \<Rightarrow> bool" where
  "logged_ok first prices \<longleftrightarrow> distinct (map fst prices) \<and> (\<forall>e \<in> set prices. storable e) \<and>
     set symbols \<subseteq> fst ` set prices \<and> (\<forall>s. price_now first prices s)"

lemma mid_range:
  assumes "1 \<le> bid" "bid < ask" "ask \<le> 999999"
  shows "1 \<le> s64 (bid + ask) sdiv 2" "s64 (bid + ask) sdiv 2 \<le> 999999"
proof -
  have "s64 (bid + ask) = bid + ask" using assms by (intro s64_id) (simp add: in_i64_def)
  then have "s64 (bid + ask) sdiv 2 = (bid + ask) div 2" using assms by (simp add: signed_divide_int_def sgn_if)
  then show "1 \<le> s64 (bid + ask) sdiv 2" "s64 (bid + ask) sdiv 2 \<le> 999999" using assms by linarith+
qed

lemma symbols_storable: "s \<in> set symbols \<Longrightarrow> in_i64 p \<Longrightarrow> storable (s, p)"
  by (auto simp: symbols_def storable_def LF_def)

lemma on_price_ok:
  assumes log: "logged_ok first prices" and s: "s \<in> set symbols" and px: "1 \<le> bid" "bid < ask" "ask \<le> 999999"
  shows "logged_ok first (fst (on_price opened s bid ask (prices, content)))"
proof -
  let ?p = "s64 (bid + ask) sdiv 2"
  let ?prices = "AList.update s ?p prices"
  note r = mid_range [OF px]
  have "storable (s, ?p)" using r by (intro symbols_storable s) (simp add: in_i64_def)
  moreover have "set ?prices \<subseteq> insert (s, ?p) (set prices)"
    by (induction prices) auto
  ultimately have "\<forall>e \<in> set ?prices. storable e" using log by (auto simp: logged_ok_def)
  moreover have "distinct (map fst ?prices)" using log distinct_update [of prices s ?p] by (simp add: logged_ok_def)
  moreover have "set symbols \<subseteq> fst ` set ?prices" using log by (auto simp: logged_ok_def dom_update)
  moreover have "price_now first ?prices t" for t
  proof (cases "t = s")
    case True
    then show ?thesis using r by (simp add: price_now_def update_conv')
  next
    case False
    then have "map_of ?prices t = map_of prices t" by (simp add: update_conv')
    moreover have "price_now first prices t" using log by (simp add: logged_ok_def)
    ultimately show ?thesis by (simp only: price_now_def)
  qed
  ultimately show ?thesis by (simp add: logged_ok_def on_price_def Let_def)
qed

text \<open>A property of the callback's state that its calls keep is kept by a tick.\<close>

lemma tick_symbol_call:
  assumes "tick_symbol P delta spread (s, e) = Inr ((bid, ask), s', e')" "4 \<le> spread" "spread < 2 ^ 62"
  shows "1 \<le> bid \<and> bid < ask \<and> ask \<le> 999999" "book_name (sy_book e') = book_name (sy_book e)"
proof -
  let ?p = "next_price (price_of (ss_current s) (book_name (sy_book e))) delta"
  have q: "quote ?p spread = (bid, ask)"
    using assms(1) by (auto simp: tick_symbol_def Let_def sim_bind_Inr_iff split: prod.splits if_splits)
  show "1 \<le> bid \<and> bid < ask \<and> ask \<le> 999999"
    using quote_range [of ?p spread] next_price_range [of "price_of (ss_current s) (book_name (sy_book e))" delta] assms(2,3) q
    by auto
  show "book_name (sy_book e') = book_name (sy_book e)"
    using assms(1) by (auto simp: tick_symbol_def Let_def sim_bind_Inr_iff sy_set_market_price_def book_name_def
        split: prod.splits if_splits dest!: update_resting_symbol)
qed

lemma tick_all_callback:
  assumes step: "\<And>e bid ask c. \<lbrakk>I c; 1 \<le> bid; bid < ask; ask \<le> 999999; book_name (sy_book e) \<in> N\<rbrakk>
      \<Longrightarrow> I (snd (call_back cb e bid ask c))"
  shows "\<lbrakk>tick_all P cb ds (s, c) es = Inr ((s', c'), es'); \<forall>(delta, spread) \<in> set ds. 4 \<le> spread \<and> spread < 2 ^ 62;
      \<forall>e \<in> set es. book_name (sy_book e) \<in> N; I c\<rbrakk> \<Longrightarrow> I c'"
proof (induction es arbitrary: ds s c es')
  case (Cons e es)
  show ?case
  proof (cases ds)
    case Nil
    then show ?thesis using Cons.prems by auto
  next
    case (Cons d ds')
    obtain delta spread where d: "ds = (delta, spread) # ds'" using Cons by (cases d) simp
    obtain bid ask s1 e1 where t: "tick_symbol P delta spread (s, e) = Inr ((bid, ask), s1, e1)"
      using Cons.prems(1) by (auto simp: d sim_bind_Inr_iff)
    obtain e2 c1 where c: "call_back cb e1 bid ask c = (e2, c1)" by fastforce
    obtain es2 where r: "tick_all P cb ds' (s1, c1) es = Inr ((s', c'), es2)"
      using Cons.prems(1) t c by (auto simp: d sim_bind_Inr_iff)
    note call = tick_symbol_call [OF t]
    have "I c1" using step [OF Cons.prems(4), of bid ask e1] call Cons.prems(2,3) c by (simp add: d)
    then show ?thesis using Cons.IH [OF r] Cons.prems(2,3) by (simp add: d)
  qed
qed auto

lemma logged_run:
  assumes "(program_step L)\<^sup>*\<^sup>* s0 s" "object_pool (lib_order_pool L) free" "spsc_queue (lib_order_queue L) contents cap"
    "program_inv free contents S B q s0" "logged_ok first (pg_prices s0)"
  shows "logged_ok first (pg_prices s) \<and> program_inv free contents S B q s"
  using assms(1)
proof (induction rule: rtranclp_induct)
  case base
  then show ?case using assms by simp
next
  case (step s s')
  then have inv: "program_inv free contents S B q s" and log: "logged_ok first (pg_prices s)" by simp_all
  have own: "others_own free contents B s" using inv by (simp add: program_inv_def)
  have "logged_ok first (pg_prices s')"
    using step.hyps(2)
  proof cases
    case (Worker i)
    then show ?thesis using worker_pass_other [OF assms(3) own] log by (fastforce simp: other_step_def sim_part_def)
  next
    case (Snapshot i ds)
    then show ?thesis using snapshot_pass_other [OF assms(2,3) own] log by (fastforce simp: other_step_def sim_part_def)
  next
    case Cancels
    then show ?thesis using cancel_pass_other [OF own] log by (fastforce simp: other_step_def sim_part_def)
  next
    case Start
    then show ?thesis using log by (auto simp: start_pass_def sim_bind_Inr_iff put_sim_def)
  next
    case (Tick ds opened)
    then obtain x c es where t: "tick_all (lib_order_pool L) (Some (price_logger opened)) ds
        (sim_view s, pg_prices s, pg_file s) (pg_engines s) = Inr ((x, c), es)" "pg_prices s' = fst c"
      by (auto simp: tick_pass_def sim_bind_Inr_iff)
    have sp: "\<forall>(delta, spread) \<in> set ds. 4 \<le> spread \<and> spread < 2 ^ 62"
      using Tick(3) inv unfolding sim_draws_def program_inv_def quotes_inv_def by fastforce
    have "set (map (\<lambda>e. book_name (sy_book e)) (pg_engines s)) = set symbols"
      using inv by (simp only: program_inv_def)
    then have "\<forall>e \<in> set (pg_engines s). book_name (sy_book e) \<in> set symbols" by auto
    from tick_all_callback [OF _ t(1) sp this, of "\<lambda>c. logged_ok first (fst c)"] log
    show ?thesis using on_price_ok
      by (fastforce simp: t(2) call_back_def price_logger_def Let_def)
  next
    case Stop
    then show ?thesis using log by (simp add: stop_running_def)
  qed
  then show ?case using program_inv_step [OF step.hyps(2) assms(2,3) inv] by simp
qed

subsection \<open>The next start\<close>

lemma default_prices_storable: "storable_map default_initial_prices"
  by (auto simp: storable_map_def default_initial_prices_def storable_def LF_def in_i64_def split: if_splits)

lemma default_prices_cover: "s \<in> set symbols \<Longrightarrow> default_initial_prices s \<noteq> None"
  by (auto simp: symbols_def default_initial_prices_def)

lemma logged_start:
  assumes "map_of prices = read_market_state content symbols default_initial_prices" "distinct (map fst prices)"
  shows "logged_ok (map_of prices) prices"
proof -
  have "storable e" if "e \<in> set prices" for e
  proof -
    have "map_of prices (fst e) = Some (snd e)" using that assms(2) by simp
    then show ?thesis
      using read_storable [OF default_prices_storable, of content symbols] assms(1)
      unfolding storable_map_def by (metis prod.collapse)
  qed
  moreover have "s \<in> fst ` set prices" if "s \<in> set symbols" for s
    using read_keeps_defaults [of default_initial_prices s content symbols] default_prices_cover [OF that] assms(1)
    by (metis map_of_eq_None_iff)
  ultimately show ?thesis using assms(2) by (auto simp: logged_ok_def price_now_def)
qed

lemma persist_logged:
  assumes "logged_ok first prices"
  shows "persist_prices opened initial prices content = (prices, write_market_state opened prices content)"
proof -
  have "foldl (\<lambda>ps s. if map_of ps s = None
      then AList.update s (case initial s of None \<Rightarrow> 0 | Some p \<Rightarrow> p) ps else ps) prices ss = prices"
    if "set ss \<subseteq> fst ` set prices" for ss
    using that by (induction ss) (auto simp: map_of_eq_None_iff)
  then show ?thesis using assms by (simp add: persist_prices_def logged_ok_def Let_def)
qed

text \<open>
  C13: prices survive a restart.  Let the program start with prices, read from its file or the
  defaults, that are below \<open>2 ^ 62\<close> in absolute value (the code checks them in no way; a file with
  larger ones is outside this statement).  However its threads ran: at the end the file holds for
  every symbol the price in the program's map, which is either a price between 1 and 999999, as the
  ticks log them, or unchanged the price of the start, whatever it was; a new start that reads the
  file gets exactly these prices, and they are below the same bound.
\<close>

theorem prices_survive_a_restart:
  assumes "object_pool (lib_order_pool L) free" "spsc_queue (lib_order_queue L) contents cap"
    "contents order_queue = []" "start_ok free bot_pools sim_pool prices"
    "map_of prices = read_market_state content symbols default_initial_prices" "distinct (map fst prices)"
    "(program_step L)\<^sup>*\<^sup>*
       (program_start gateway order_queue bot_queue cancel_queue bot_pools sim_pool st content prices) s"
  shows "read_market_state (pg_file (close_market L True s)) symbols default_initial_prices = map_of (pg_prices s) \<and>
    (\<forall>symbol \<in> set symbols. \<exists>p. map_of (pg_prices s) symbol = Some p \<and>
       (map_of prices symbol = Some p \<or> 1 \<le> p \<and> p \<le> 999999)) \<and>
    start_ok free bot_pools sim_pool (pg_prices s)"
proof -
  let ?s0 = "program_start gateway order_queue bot_queue cancel_queue bot_pools sim_pool st content prices"
  have log: "logged_ok (map_of prices) (pg_prices s)"
    using logged_run [OF assms(7,1,2) program_inv_start [of contents order_queue, OF assms(3,4)], of "map_of prices"]
      logged_start [OF assms(5,6)] by (simp add: program_start_def)
  then have l: "\<forall>e \<in> set (pg_prices s). storable e" "distinct (map fst (pg_prices s))" "set symbols \<subseteq> fst ` set (pg_prices s)"
    and now: "price_now (map_of prices) (pg_prices s) x" for x by (simp_all add: logged_ok_def)
  have cover: "\<exists>p. map_of (pg_prices s) x = Some p" if "x \<in> set symbols" for x
    using l(3) that by (metis map_of_eq_None_iff not_None_eq subsetD)
  have "default_initial_prices ++ map_of (pg_prices s) = map_of (pg_prices s)"
  proof
    fix x show "(default_initial_prices ++ map_of (pg_prices s)) x = map_of (pg_prices s) x"
    proof (cases "x \<in> set symbols")
      case True
      then show ?thesis using cover [OF True] by (auto simp: map_add_def)
    next
      case False
      then have "default_initial_prices x = None" by (auto simp: default_initial_prices_def symbols_def)
      then show ?thesis by (auto simp: map_add_def split: option.split)
    qed
  qed
  moreover have "pg_file (close_market L True s) = write_market_state True (pg_prices s) (pg_file s)"
    using persist_logged [OF log] by (simp add: close_market_def)
  ultimately have "read_market_state (pg_file (close_market L True s)) symbols default_initial_prices = map_of (pg_prices s)"
    using read_written [OF l(1,2)] by simp
  moreover have "\<exists>p. map_of (pg_prices s) x = Some p \<and> (map_of prices x = Some p \<or> 1 \<le> p \<and> p \<le> 999999)"
    if "x \<in> set symbols" for x using cover [OF that] now [of x] by (auto simp: price_now_def)
  moreover have "\<bar>snd e\<bar> < 2 ^ 62" if "e \<in> set (pg_prices s)" for e
  proof -
    have "map_of (pg_prices s) (fst e) = Some (snd e)" using that l(2) by simp
    then have "e \<in> set prices \<or> 1 \<le> snd e \<and> snd e \<le> 999999"
      using now [of "fst e"] map_of_SomeD [of prices "fst e" "snd e"] by (auto simp: price_now_def)
    then show ?thesis using assms(4) by (auto simp: start_ok_def)
  qed
  ultimately show ?thesis using assms(4) by (simp add: start_ok_def)
qed

theorem prices_survive_a_restart_witness:
  "\<exists>s p. (program_step demo_library)\<^sup>*\<^sup>* demo_program s \<and> pg_started s \<and>
     read_market_state (pg_file (close_market demo_library True s)) symbols default_initial_prices ''AAPL'' = Some p \<and>
     (p = 17500 \<or> 1 \<le> p \<and> p \<le> 999999)"
proof -
  obtain s where s: "(program_step demo_library)\<^sup>*\<^sup>* demo_program s" "pg_started s" by (rule demo_run)
  have "map_of demo_prices = read_market_state None symbols default_initial_prices"
    by (auto simp: demo_prices_def read_market_state_def default_initial_prices_def)
  then have "read_market_state (pg_file (close_market demo_library True s)) symbols default_initial_prices = map_of (pg_prices s) \<and>
    (\<forall>symbol \<in> set symbols. \<exists>p. map_of (pg_prices s) symbol = Some p \<and>
       (map_of demo_prices symbol = Some p \<or> 1 \<le> p \<and> p \<le> 999999))"
    using prices_survive_a_restart [OF demo_library_laws _ demo_start_ok _ _ s(1) [unfolded demo_program_def]]
    by (simp add: demo_prices_def)
  then show ?thesis using s by (intro exI [of _ s]) (fastforce simp: symbols_def demo_prices_def)
qed

end
