(* ===== verification/Program_Snapshots.thy ===== *)
theory Program_Snapshots
  imports Program_Props
begin

text \<open>
  The start-up race of the program.  The snapshot threads run before the simulator has placed
  its first quotes, and a snapshot of an empty book is acquired but never released.  How often a
  thread polls before the start decides what its bots see for the rest of the run.
\<close>

subsection \<open>A manager with leaked nodes\<close>

definition leaks :: "snapshot_manager \<Rightarrow> u64 list" where
  "leaks m = map sn_ref_count (sm_nodes m)"

definition well_sized :: "snapshot_manager \<Rightarrow> bool" where
  "well_sized m \<longleftrightarrow> sm_depth m = 5 \<and> (\<forall>node \<in> set (sm_nodes m). sized 5 node)"

lemma well_sized_update:
  "well_sized m \<Longrightarrow> sized 5 node \<Longrightarrow>
    well_sized (m\<lparr>sm_current := c, sm_update_count := n, sm_nodes := (sm_nodes m)[k := node]\<rparr>)"
  by (auto simp: well_sized_def dest!: set_update_subset_insert [THEN subsetD])

lemma poll_at:
  assumes "well_sized m" "book_shape b" "find_free_node m = Some k" "k < length (sm_nodes m)"
  obtains m' s where "poll_snapshot b m = Inr (if ob_sequence b = 0 then None else Some (captured 5 b s), m')"
    "well_sized m'" "sm_current m' = Some k" "sm_update_count m' = sm_update_count m + 1"
    "leaks m' = (if ob_sequence b = 0 then (leaks m)[k := leaks m ! k + 1] else leaks m)"
    "sn_snapshot (sm_nodes m' ! k) = captured 5 b s" "length (sm_nodes m') = length (sm_nodes m)"
proof -
  let ?s = "sn_snapshot (sm_nodes m ! k)"
  let ?node = "if ob_sequence b = 0 then \<lparr>sn_snapshot = captured 5 b ?s, sn_ref_count = sn_ref_count (sm_nodes m ! k) + 1\<rparr>
    else (sm_nodes m ! k)\<lparr>sn_snapshot := captured 5 b ?s\<rparr>"
  let ?m = "m\<lparr>sm_current := Some k, sm_update_count := sm_update_count m + 1, sm_nodes := (sm_nodes m)[k := ?node]\<rparr>"
  have d: "sm_depth m = 5" "sized (sm_depth m) (sm_nodes m ! k)" using assms(1,4) by (simp_all add: well_sized_def)
  have "poll_snapshot b m = Inr (if ob_sequence b = 0 then None else Some (captured 5 b ?s), ?m)"
    using poll_free [OF assms(2,3,4) d(2)] d(1) by (simp add: Let_def)
  moreover have "well_sized ?m" by (rule well_sized_update [OF assms(1)]) (simp add: sized_def)
  moreover have "leaks ?m = (if ob_sequence b = 0 then (leaks m)[k := leaks m ! k + 1] else leaks m)"
    using assms(4) by (simp add: leaks_def map_update) (metis list_update_id map_update)
  ultimately show thesis using that [of ?s ?m] assms(4) by simp
qed

lemma three_nodes:
  assumes "leaks m = [x, y, z]"
  shows "length (sm_nodes m) = 3"
    "find_free_node m = (if sm_current m \<noteq> Some 0 \<and> x = 0 then Some 0
       else if sm_current m \<noteq> Some 1 \<and> y = 0 then Some 1
       else if sm_current m \<noteq> Some 2 \<and> z = 0 then Some 2 else None)"
proof -
  show "length (sm_nodes m) = 3" using arg_cong [OF assms, of length] by (simp add: leaks_def)
  obtain a b c where n: "sm_nodes m = [a, b, c]" "sn_ref_count a = x" "sn_ref_count b = y" "sn_ref_count c = z"
    using assms by (auto simp: leaks_def)
  show "find_free_node m = (if sm_current m \<noteq> Some 0 \<and> x = 0 then Some 0
       else if sm_current m \<noteq> Some 1 \<and> y = 0 then Some 1
       else if sm_current m \<noteq> Some 2 \<and> z = 0 then Some 2 else None)"
    using n(2-4) by (auto simp: find_free_node_def n(1) numeral_2_eq_2)
qed

text \<open>Polls of a book that has not counted an order yet: the first three of them leak a node each.\<close>

definition early :: "nat \<Rightarrow> nat \<Rightarrow> snapshot_manager \<Rightarrow> bool" where
  "early n k m \<longleftrightarrow> sm_update_count m = of_nat k \<and> (if k = 3 then stuck n m
     else well_sized m \<and> (k = 0 \<and> leaks m = [0, 0, 0] \<and> sm_current m = Some 0 \<or>
       k = 1 \<and> leaks m = [0, 1, 0] \<and> sm_current m = Some 1 \<or>
       k = 2 \<and> leaks m = [1, 1, 0] \<and> sm_current m = Some 0))"

lemma early_new: "early n 0 (new_snapshot_manager 5)"
  by (simp add: early_def well_sized_def leaks_def new_snapshot_manager_def NUM_NODES_def sized_def numeral_3_eq_3)

lemma stuck_mono: "stuck n m \<Longrightarrow> n' \<le> n \<Longrightarrow> stuck n' m"
  by (force simp: stuck_def)

lemma early_mono: "early n k m \<Longrightarrow> n' \<le> n \<Longrightarrow> early n' k m"
  using stuck_mono by (auto simp: early_def split: if_splits)

lemma poll_stuck_step:
  assumes "stuck (Suc n) m" "poll_snapshot b m = Inr (r, m')"
  shows "r = None" "stuck n m'" "sm_update_count m' = sm_update_count m"
proof -
  show "r = None" "stuck n m'" using poll_stuck [OF assms(1), of b] assms(2) by auto
  have "\<forall>node \<in> set (sm_nodes m). sn_ref_count node \<noteq> 0" using assms(1) by (auto simp: stuck_def)
  then have "update_snapshot b m = Inr m"
    by (simp add: update_snapshot_def find_free_node_def find_free_none)
  then show "sm_update_count m' = sm_update_count m"
    using assms(2) by (auto simp: poll_snapshot_def get_snapshot_def release_snapshot_def Let_def
        split: option.splits if_splits)
qed

lemma early_poll:
  assumes e: "early (Suc n) k m" "n < 2 ^ 63" and b: "book_shape b" "ob_sequence b = 0"
  shows "\<exists>m'. poll_snapshot b m = Inr (None, m') \<and> early n (if k = 3 then 3 else Suc k) m'"
proof (cases "k = 3")
  case True
  then have st: "stuck (Suc n) m" using e(1) by (simp add: early_def)
  then obtain m' where "poll_snapshot b m = Inr (None, m')" using poll_stuck [of n m b] by metis
  then show ?thesis using poll_stuck_step [OF st] True e(1) by (auto simp: early_def)
next
  case False
  let ?free = "if k = 0 then 1 else if k = 1 then 0 else 2 :: nat"
  have w: "well_sized m" and k: "k = 0 \<and> leaks m = [0, 0, 0] \<and> sm_current m = Some 0 \<or>
      k = 1 \<and> leaks m = [0, 1, 0] \<and> sm_current m = Some 1 \<or>
      k = 2 \<and> leaks m = [1, 1, 0] \<and> sm_current m = Some 0"
    using e(1) False by (auto simp: early_def)
  obtain x y z where l: "leaks m = [x, y, z]" using k by auto
  have f: "find_free_node m = Some ?free" "?free < length (sm_nodes m)"
    unfolding three_nodes [OF l] using k l by auto
  obtain m' s where p: "poll_snapshot b m = Inr (None, m')" "well_sized m'" "sm_current m' = Some ?free" "sm_update_count m' = sm_update_count m + 1"
    "leaks m' = (leaks m)[?free := leaks m ! ?free + 1]" "sn_snapshot (sm_nodes m' ! ?free) = captured 5 b s"
    by (rule poll_at [OF w b(1) f]) (use that b(2) in simp)
  have "early n (Suc k) m'"
  proof (cases "k = 2")
    case True
    then have l: "leaks m' = [1, 1, 1]" using k p(5) by (auto simp: numeral_2_eq_2)
    then have "sn_ref_count node = 1" if "node \<in> set (sm_nodes m')" for node
      using that arg_cong [OF l, of set] by (auto simp: leaks_def)
    moreover have "length (sm_nodes m') = 3" using three_nodes(1) [OF l] .
    ultimately have "stuck n m'" using p(3,6) b(2) e(2) True by (auto simp: stuck_def snapshot_valid_def)
    then show ?thesis using p(4) e(1) True by (simp add: early_def)
  next
    case False
    then show ?thesis using k p e(1) \<open>k \<noteq> 3\<close> by (auto simp: early_def)
  qed
  then show ?thesis using p(1) False by auto
qed

subsection \<open>After the start\<close>

text \<open>
  \<open>flowing\<close>: at most one node is lost, and every poll delivers the book.  \<open>frozen\<close>: two nodes are
  lost; the next poll delivers the book, and all later ones deliver the same snapshot again.
\<close>

definition flowing :: "snapshot_manager \<Rightarrow> bool" where
  "flowing m \<longleftrightarrow> well_sized m \<and> (leaks m = [0, 0, 0] \<or> leaks m = [0, 1, 0]) \<and> sm_current m \<in> {Some 0, Some 1, Some 2}"

definition frozen :: "snapshot_manager \<Rightarrow> bool" where
  "frozen m \<longleftrightarrow> leaks m = [1, 1, 0] \<and> sm_current m = Some 2 \<and> snapshot_valid (sn_snapshot (sm_nodes m ! 2))"

lemma flowing_poll:
  assumes m: "flowing m" and b: "book_shape b" "ob_sequence b \<noteq> 0"
  obtains s m' where "poll_snapshot b m = Inr (Some (captured 5 b s), m')" "flowing m'"
proof -
  have l: "leaks m = [0, leaks m ! 1, 0]" "well_sized m" using m by (auto simp: flowing_def)
  obtain k where k: "find_free_node m = Some k" "k \<in> {0, 1, 2}"
    using three_nodes(2) [OF l(1)] m by (auto simp: flowing_def split: if_splits)
  then have len: "k < length (sm_nodes m)" using three_nodes(1) [OF l(1)] by auto
  show thesis
    by (rule poll_at [OF l(2) b(1) k(1) len]) (use that b(2) k(2) m in \<open>auto simp: flowing_def\<close>)
qed

lemma thawed_poll:
  assumes e: "early n 2 m" and b: "book_shape b" "ob_sequence b \<noteq> 0"
  obtains s m' where "poll_snapshot b m = Inr (Some (captured 5 b s), m')" "frozen m'"
proof -
  have l: "leaks m = [1, 1, 0]" "well_sized m" "sm_current m = Some 0" using e by (auto simp: early_def)
  have k: "find_free_node m = Some 2" "2 < length (sm_nodes m)" using three_nodes [OF l(1)] l(3) by simp_all
  show thesis
    by (rule poll_at [OF l(2) b(1) k]) (use that b(2) l(1) in \<open>auto simp: frozen_def snapshot_valid_def\<close>)
qed

lemma frozen_poll:
  assumes m: "frozen m"
  shows "update_snapshot b m = Inr m" "poll_snapshot b m = Inr (Some (sn_snapshot (sm_nodes m ! 2)), m)"
proof -
  have l: "leaks m = [1, 1, 0]" "sm_current m = Some 2" "snapshot_valid (sn_snapshot (sm_nodes m ! 2))"
    using m by (simp_all add: frozen_def)
  have f: "find_free_node m = None" "2 < length (sm_nodes m)" using three_nodes [OF l(1)] l(2) by simp_all
  then show u: "update_snapshot b m = Inr m" by (simp add: update_snapshot_def)
  show "poll_snapshot b m = Inr (Some (sn_snapshot (sm_nodes m ! 2)), m)"
    using l(2,3) f(2) by (simp add: poll_snapshot_def u get_snapshot_def release_snapshot_def Let_def)
qed

subsection \<open>The counter of a published book\<close>

definition counts :: "nat \<Rightarrow> order_book \<Rightarrow> order_book \<Rightarrow> bool" where
  "counts n b b' \<longleftrightarrow> (\<exists>d \<le> n. ob_sequence b' = ob_sequence b + of_nat d)"

lemma counts_refl [simp]: "counts n b b"
  unfolding counts_def by (rule exI [of _ 0]) simp

lemma counts_trans: "\<lbrakk>counts m a b; counts n b c; m + n \<le> k\<rbrakk> \<Longrightarrow> counts k a c"
  unfolding counts_def
proof (elim exE conjE)
  fix d e assume "d \<le> m" "ob_sequence b = ob_sequence a + of_nat d" "e \<le> n" "ob_sequence c = ob_sequence b + of_nat e"
    "m + n \<le> k"
  then show "\<exists>f \<le> k. ob_sequence c = ob_sequence a + of_nat f"
    by (intro exI [of _ "d + e"]) simp
qed

lemma sequence_keeps [simp]:
  "ob_sequence (set_level l pl b) = ob_sequence b" "ob_sequence (set_levels s ls b) = ob_sequence b"
  "ob_sequence (set_depth s d b) = ob_sequence b" "ob_sequence (index_order st a b) = ob_sequence b"
  "ob_sequence (delete_level l b) = ob_sequence b" "ob_sequence (bump_sequence b) = ob_sequence b + 1"
  "ob_sequence (set_market_price x y b) = ob_sequence b"
  by (simp_all add: set_level_def set_levels_def set_depth_def index_order_def delete_level_def
      bump_sequence_def set_market_price_def)

lemma get_level_sequence: "get_level p s b = Inr (l, b') \<Longrightarrow> ob_sequence b' = ob_sequence b"
  by (auto simp: get_level_def find_level_def alloc_level_def insert_level_def Let_def res_bind_Inr_iff
      split: option.splits)

lemma update_best_sequence: "update_best_prices b = Inr b' \<Longrightarrow> ob_sequence b' = ob_sequence b"
  by (auto simp: update_best_prices_def Let_def res_bind_Inr_iff)

lemma add_order_sequence: "add_order st (Some a) b = Inr (r, b') \<Longrightarrow> ob_sequence b' = ob_sequence b + 1"
  by (auto simp: add_order_def Let_def res_bind_Inr_iff dest!: get_level_sequence update_best_sequence)

lemma remove_level_sequence: "remove_level l s b = Inr b' \<Longrightarrow> ob_sequence b' = ob_sequence b"
  by (auto simp: remove_level_def Let_def res_bind_Inr_iff)

lemma cancel_order_counts:
  assumes "cancel_order i st b = Inr (r, st', b')"
  shows "counts 1 b b'"
proof -
  have "ob_sequence b' = ob_sequence b \<or> ob_sequence b' = ob_sequence b + 1"
  proof (cases "ob_index b i")
    case None
    then show ?thesis using assms by (simp add: cancel_order_def)
  next
    case (Some loc)
    note loc = this
    show ?thesis
    proof (cases "find_level b (loc_price loc) (loc_is_bid loc)")
      case None
      then show ?thesis using assms loc by (auto simp: cancel_order_def)
    next
      case (Some l)
      then obtain level where d: "deref b l = Inr level"
        using assms loc by (auto simp: cancel_order_def res_bind_Inr_iff)
      obtain st1 level1 where "remove_order st (Some (loc_order loc)) level = (st1, level1)" by fastforce
      then show ?thesis
        using assms loc Some d
        by (auto simp: cancel_order_def Let_def res_bind_Inr_iff split: if_splits
            dest!: remove_level_sequence update_best_sequence)
    qed
  qed
  then show ?thesis
    unfolding counts_def by (elim disjE) (auto intro: exI [of _ 0] exI [of _ 1])
qed

lemma place_quotes_counts:
  assumes "place_quotes P symbol x y (st, b, sim) = Inr (r, st', b', sim')"
  shows "ob_sequence b' = (if r then ob_sequence b + 2 else ob_sequence b)"
proof -
  obtain h1 p1 where 1: "p_acquire P (ms_pool sim) = (h1, p1)" by fastforce
  obtain h2 p2 where "p_acquire P p1 = (h2, p2)" by fastforce
  then show ?thesis
    using assms 1
    by (cases h1; cases h2)
      (auto simp: place_quotes_def Let_def sim_bind_Inr_iff dest!: add_order_sequence)
qed

lemma update_resting_counts:
  assumes "update_resting_orders P symbol x y (st, b, sim) = Inr (st', b', sim')"
  shows "counts 4 b b'"
proof -
  consider "b' = b" | st1 b1 r1 st2 b2 r2 r3 s3 i j where "cancel_order i st b = Inr (r1, st1, b1)"
      "cancel_order j st1 b1 = Inr (r2, st2, b2)" "place_quotes P symbol x y (st2, b2, sim) = Inr (r3, s3, b', sim')"
    using assms by (auto simp: update_resting_orders_def sim_bind_Inr_iff split: option.splits if_splits)
  then show ?thesis
  proof cases
    case 2
    have last: "counts 2 b2 b'"
      using place_quotes_counts [OF 2(3)] unfolding counts_def
      by (cases r3) (auto intro: exI [of _ 0] exI [of _ 2])
    have "counts 2 b b2"
      by (rule counts_trans [OF cancel_order_counts [OF 2(1)] cancel_order_counts [OF 2(2)]]) simp
    then show ?thesis by (rule counts_trans [OF _ last]) simp
  qed simp
qed

lemma tick_symbol_counts:
  "tick_symbol P delta spread (s, e) = Inr (ba, s', e') \<Longrightarrow> counts 4 (sy_book e) (sy_book e')"
  by (auto simp: tick_symbol_def Let_def sim_bind_Inr_iff sy_set_market_price_def counts_def
      split: prod.splits if_splits dest!: update_resting_counts)

lemma start_symbol_counts:
  "start_symbol P (s, e) = Inr (s', e') \<Longrightarrow> ob_sequence (sy_book e') = ob_sequence (sy_book e) + 2"
  by (auto simp: start_symbol_def initialize_resting_orders_def Let_def sim_bind_Inr_iff split: if_splits
      dest!: place_quotes_counts)

lemma tick_all_counts:
  assumes "keeps_engine cb"
  shows "tick_all P cb ds (s, c) es = Inr (sc, es') \<Longrightarrow> list_all2 (\<lambda>e e'. counts 4 (sy_book e) (sy_book e')) es es'"
proof (induction es arbitrary: ds s c es')
  case (Cons e es)
  show ?case
  proof (cases ds)
    case Nil
    then show ?thesis using Cons.prems by (auto intro: list_all2_refl)
  next
    case (Cons d ds')
    obtain delta spread where d: "ds = (delta, spread) # ds'" using Cons by (cases d) simp
    obtain bid ask s1 e1 where t: "tick_symbol P delta spread (s, e) = Inr ((bid, ask), s1, e1)"
      using Cons.prems(1) by (auto simp: d sim_bind_Inr_iff)
    obtain c1 where c: "call_back cb e1 bid ask c = (e1, c1)"
      using assms unfolding keeps_engine_def by (metis prod.collapse)
    obtain es2 where "tick_all P cb ds' (s1, c1) es = Inr (sc, es2)" "es' = e1 # es2"
      using Cons.prems(1) t c by (auto simp: d sim_bind_Inr_iff)
    then show ?thesis using Cons.IH tick_symbol_counts [OF t] by simp
  qed
qed auto

lemma start_all_counts:
  "start_all P s es = Inr (s', es') \<Longrightarrow>
    list_all2 (\<lambda>e e'. ob_sequence (sy_book e') = ob_sequence (sy_book e) + 2) es es'"
  by (induction es arbitrary: s es') (auto simp: sim_bind_Inr_iff dest!: start_symbol_counts)

subsection \<open>Steps of the program\<close>

abbreviation manager_of :: "('g, 'q, 'o, 'oq, 'cq, 'p) program \<Rightarrow> nat \<Rightarrow> snapshot_manager" where
  "manager_of s i \<equiv> st_manager (pg_threads s ! i)"

abbreviation book_of :: "('g, 'q, 'o, 'oq, 'cq, 'p) program \<Rightarrow> nat \<Rightarrow> order_book" where
  "book_of s i \<equiv> sy_book (pg_engines s ! i)"

lemma find_engine_nth:
  "\<lbrakk>map (\<lambda>e. book_name (sy_book e)) es = xs; distinct xs; i < length xs\<rbrakk> \<Longrightarrow> find_engine (xs ! i) es = Some i"
proof (induction es arbitrary: xs i)
  case (Cons e es)
  show ?case
  proof (cases i)
    case 0
    then show ?thesis using Cons.prems by auto
  next
    case (Suc j)
    then have "find_engine (map (\<lambda>e. book_name (sy_book e)) es ! j) es = Some j"
      using Cons.prems by (intro Cons.IH) auto
    moreover have "xs ! i \<noteq> book_name (sy_book e)"
      using Cons.prems Suc by auto (metis (no_types, lifting) imageI nth_mem)
    ultimately show ?thesis using Cons.prems(1) Suc by auto
  qed
qed simp

lemma symbols_distinct: "distinct symbols" "length symbols = 5"
  by (simp_all add: symbols_def)

lemma engines_five: "program_inv free contents S B q s \<Longrightarrow> length (pg_engines s) = 5"
  using symbols_distinct(2) by (metis length_map program_inv_def)

text \<open>A step polls with at most one thread's manager, and shows it the book of its own symbol.\<close>

lemma step_managers:
  assumes step: "program_step L s s'" and inv: "program_inv free contents S B q s"
    and names: "map st_symbol (pg_threads s) = symbols" and i: "i < 5"
  shows "map st_symbol (pg_threads s') = symbols" "manager_of s' i = manager_of s i \<or>
    (\<exists>r. poll_snapshot (book_of s i) (manager_of s i) = Inr (r, manager_of s' i))"
proof -
  have len: "length (pg_threads s) = 5" using arg_cong [OF names, of length] symbols_distinct by simp
  have "map st_symbol (pg_threads s') = symbols \<and> (manager_of s' i = manager_of s i \<or>
    (\<exists>r. poll_snapshot (book_of s i) (manager_of s i) = Inr (r, manager_of s' i)))"
    using step
  proof cases
    case (Worker j)
    then show ?thesis using names by (auto simp: worker_pass_def res_bind_Inr_iff)
  next
    case (Snapshot j ds)
    have "find_engine (symbols ! j) (pg_engines s) = Some j"
      using inv Snapshot(2) len symbols_distinct by (intro find_engine_nth) (auto simp: program_inv_def)
    moreover have "st_symbol (pg_threads s ! j) = symbols ! j" using names Snapshot(2) by (metis nth_map)
    ultimately obtain sm count th where c: "snapshot_cycle (lib_bot_queue L) (lib_new_bot_queue L) (lib_order_pool L) (lib_order_queue L)
        ds (symbols ! j) (manager_of s j, pg_count s, thread_view s j (pg_threads s ! j)) = Some (Inr (sm, count, th))"
      "s' = put_view j j (sm, count, th) s"
      using Snapshot(3) by (auto simp: snapshot_pass_def Let_def res_bind_Inr_iff)
    then obtain r where poll: "poll_snapshot (book_of s j) (manager_of s j) = Inr (r, sm)"
      by (auto simp: snapshot_cycle_def thread_view_def sy_order_book_def split: sum.splits prod.splits option.splits)
    have "map st_symbol (pg_threads s') = map st_symbol (pg_threads s)"
      by (simp add: c(2) put_view_def map_update) (metis list_update_id map_update)
    then show ?thesis
      using names poll Snapshot(2) by (cases "i = j") (auto simp: c(2) put_view_def)
  next
    case Cancels
    then show ?thesis using names by (auto simp: cancel_pass_def res_bind_Inr_iff)
  next
    case Start
    then show ?thesis using names by (auto simp: start_pass_def sim_bind_Inr_iff put_sim_def)
  next
    case (Tick ds opened)
    then show ?thesis using names by (auto simp: tick_pass_def sim_bind_Inr_iff put_sim_def)
  next
    case Stop
    then show ?thesis using names by (simp add: stop_running_def)
  qed
  then show "map st_symbol (pg_threads s') = symbols" "manager_of s' i = manager_of s i \<or>
    (\<exists>r. poll_snapshot (book_of s i) (manager_of s i) = Inr (r, manager_of s' i))" by blast+
qed

lemma step_books:
  assumes step: "program_step L s s'" and P: "object_pool (lib_order_pool L) free"
    and OQ: "spsc_queue (lib_order_queue L) contents cap" and inv: "program_inv free contents S B q s" and i: "i < 5"
  shows "pg_started s \<and> pg_started s' \<and> counts 4 (book_of s i) (book_of s' i) \<or>
    \<not> pg_started s \<and> \<not> pg_started s' \<and> book_of s' i = book_of s i \<or>
    \<not> pg_started s \<and> pg_started s' \<and> ob_sequence (book_of s' i) = ob_sequence (book_of s i) + 2"
proof -
  have own: "others_own free contents B s" and len: "length (pg_engines s) = 5"
    using inv engines_five [OF inv] by (simp_all add: program_inv_def)
  have other: ?thesis if "other_step free contents B s s'"
  proof -
    have p: "map sy_book (pg_engines s') = map sy_book (pg_engines s)" "pg_started s' = pg_started s"
      using that by (simp_all add: other_step_def sim_part_def)
    have "book_of s' i = book_of s i"
      using p(1) i len by (metis length_map nth_map)
    then show ?thesis using p(2) by auto
  qed
  show ?thesis
    using step
  proof cases
    case (Worker j)
    then show ?thesis using other worker_pass_other [OF OQ own] by blast
  next
    case (Snapshot j ds)
    then show ?thesis using other snapshot_pass_other [OF P OQ own] by blast
  next
    case Cancels
    then show ?thesis using other cancel_pass_other [OF own] by blast
  next
    case Start
    then obtain x es where t: "start_all (lib_order_pool L) ((sim_view s)\<lparr>ss_sim := (pg_sim s)\<lparr>ms_running := True\<rparr>\<rparr>)
        (pg_engines s) = Inr (x, es)" "pg_engines s' = es" "pg_started s'"
      by (auto simp: start_pass_def sim_bind_Inr_iff put_sim_def)
    then show ?thesis using list_all2_nthD [OF start_all_counts [OF t(1)]] i len Start(1) by auto
  next
    case (Tick ds opened)
    then obtain x c es where t: "tick_all (lib_order_pool L) (Some (price_logger opened)) ds
        (sim_view s, pg_prices s, pg_file s) (pg_engines s) = Inr ((x, c), es)" "pg_engines s' = es" "pg_started s' = pg_started s"
      by (auto simp: tick_pass_def sim_bind_Inr_iff put_sim_def)
    then show ?thesis
      using list_all2_nthD [OF tick_all_counts [OF price_logger_keeps t(1)]] i len Tick(1) by auto
  next
    case Stop
    then show ?thesis using other stop_running_other [OF own] by simp
  qed
qed

subsection \<open>Before and after the start\<close>

lemma unstarted_book:
  assumes inv: "program_inv free contents S B q s" and n: "\<not> pg_started s" and i: "i < 5"
  shows "book_shape (book_of s i)" "ob_sequence (book_of s i) = 0"
proof -
  have "pg_engines s ! i \<in> set (pg_engines s)" using engines_five [OF inv] i by simp
  then have "unstarted (pg_sim s) (pg_engines s ! i)" using inv n by (simp add: program_inv_def quotes_inv_def)
  then obtain symbol where b: "book_of s i = new_book symbol" by (auto simp: unstarted_def)
  show "book_shape (book_of s i)" using book_inv_new [of "\<lambda>_. default_order" symbol] by (simp add: b book_inv_def book_ok_def)
  show "ob_sequence (book_of s i) = 0" by (simp add: b new_book_def)
qed

lemma started_book:
  assumes inv: "program_inv free contents S B q s" and n: "pg_started s" and i: "i < 5"
  shows "book_shape (book_of s i)"
proof -
  have "pg_engines s ! i \<in> set (pg_engines s)" using engines_five [OF inv] i by simp
  then have "holds_pair free (tr_store (pg_trading s)) (pg_sim s) (book_of s i)"
    using inv n by (simp add: program_inv_def quotes_inv_def sim_all_def)
  then show ?thesis by (auto simp: holds_pair_def quoted_def book_ok_def elim!: holds_quotes_of)
qed

definition before_ok :: "nat \<Rightarrow> ('g, 'q, 'o, 'oq, 'cq, 'p) program \<Rightarrow> bool" where
  "before_ok n s \<longleftrightarrow> map st_symbol (pg_threads s) = symbols \<and> (\<forall>i < 5. \<exists>k \<le> 3. early n k (manager_of s i))"

lemma before_step:
  assumes step: "program_step L s s'" and inv: "program_inv free contents S B q s" and n: "\<not> pg_started s" "n < 2 ^ 63"
    and ok: "before_ok (Suc n) s"
  shows "before_ok n s'"
proof -
  have names: "map st_symbol (pg_threads s) = symbols" using ok by (simp add: before_ok_def)
  have "\<exists>k \<le> 3. early n k (manager_of s' i)" if i: "i < 5" for i
  proof -
    obtain k where k: "k \<le> 3" "early (Suc n) k (manager_of s i)" using ok i by (auto simp: before_ok_def)
    from step_managers(2) [OF step inv names i] show ?thesis
    proof
      assume "manager_of s' i = manager_of s i"
      then show ?thesis using k early_mono [OF k(2), of n] by auto
    next
      assume "\<exists>r. poll_snapshot (book_of s i) (manager_of s i) = Inr (r, manager_of s' i)"
      then have "early n (if k = 3 then 3 else Suc k) (manager_of s' i)"
        using early_poll [OF k(2) n(2) unstarted_book [OF inv n(1) i]] by auto
      then show ?thesis using k(1) by (intro exI [of _ "if k = 3 then 3 else Suc k"]) auto
    qed
  qed
  then show ?thesis using step_managers(1) [OF step inv names, of 0] by (simp add: before_ok_def)
qed

definition after_ok :: "nat \<Rightarrow> nat \<Rightarrow> nat \<Rightarrow> order_book \<Rightarrow> snapshot_manager \<Rightarrow> bool" where
  "after_ok n c k b m \<longleftrightarrow> (\<exists>d \<le> c. ob_sequence b = of_nat (2 + d)) \<and> (k \<le> 1 \<longrightarrow> flowing m) \<and>
     (k = 2 \<longrightarrow> early n 2 m \<or> frozen m) \<and> (k = 3 \<longrightarrow> stuck n m)"

lemma sequence_nonzero:
  assumes "\<exists>d \<le> c. ob_sequence b = of_nat (2 + d)" "c < 2 ^ 63"
  shows "ob_sequence b \<noteq> 0"
proof -
  obtain d where d: "d \<le> c" "ob_sequence b = of_nat (2 + d)" using assms(1) by blast
  have "\<not> 2 ^ 64 dvd 2 + d" using d(1) assms(2) by (intro notI) (auto dest!: dvd_imp_le)
  then show ?thesis by (simp only: d(2) word_of_nat_eq_0_iff len_of_numeral_defs) simp
qed

lemma after_step:
  assumes step: "program_step L s s'" and P: "object_pool (lib_order_pool L) free"
    and OQ: "spsc_queue (lib_order_queue L) contents cap" and inv: "program_inv free contents S B q s"
    and n: "pg_started s" and names: "map st_symbol (pg_threads s) = symbols" and i: "i < 5" and c: "c < 2 ^ 63"
    and ok: "after_ok (Suc n) c k (book_of s i) (manager_of s i)"
  shows "after_ok n (c + 4) k (book_of s' i) (manager_of s' i)"
proof -
  have seq: "\<exists>d \<le> c. ob_sequence (book_of s i) = of_nat (2 + d)" using ok by (simp add: after_ok_def)
  have "counts 4 (book_of s i) (book_of s' i)" using step_books [OF step P OQ inv i] n by blast
  then have seq': "\<exists>d \<le> c + 4. ob_sequence (book_of s' i) = of_nat (2 + d)"
    using seq unfolding counts_def
    by (metis (no_types, lifting) add.assoc add_mono of_nat_add)
  have b: "book_shape (book_of s i)" "ob_sequence (book_of s i) \<noteq> 0"
    using started_book [OF inv n i] sequence_nonzero [OF seq c] by simp_all
  from step_managers(2) [OF step inv names i] show ?thesis
  proof
    assume "manager_of s' i = manager_of s i"
    then show ?thesis
      using ok seq' early_mono [of "Suc n" 2 "manager_of s i" n] stuck_mono [of "Suc n" "manager_of s i" n]
      by (auto simp: after_ok_def)
  next
    assume "\<exists>r. poll_snapshot (book_of s i) (manager_of s i) = Inr (r, manager_of s' i)"
    then obtain r where r: "poll_snapshot (book_of s i) (manager_of s i) = Inr (r, manager_of s' i)" by blast
    have "flowing (manager_of s' i)" if "flowing (manager_of s i)"
      by (rule flowing_poll [OF that b]) (use r in simp)
    moreover have "frozen (manager_of s' i)" if "early (Suc n) 2 (manager_of s i)"
      by (rule thawed_poll [OF that b]) (use r in simp)
    moreover have "frozen (manager_of s' i)" if "frozen (manager_of s i)"
      using frozen_poll(2) [OF that, of "book_of s i"] that r by simp
    moreover have "stuck n (manager_of s' i)" if "stuck (Suc n) (manager_of s i)"
      by (rule poll_stuck_step(2) [OF that r])
    ultimately show ?thesis using ok seq' by (auto simp: after_ok_def)
  qed
qed

lemma before_run:
  assumes P: "object_pool (lib_order_pool L) free" and OQ: "spsc_queue (lib_order_queue L) contents cap"
    and s0: "program_inv free contents S B q s0" "before_ok n s0" "n < 2 ^ 63"
  shows "\<lbrakk>(program_step L ^^ m) s0 s; \<not> pg_started s; m \<le> n\<rbrakk> \<Longrightarrow> program_inv free contents S B q s \<and> before_ok (n - m) s"
proof (induction m arbitrary: s)
  case 0
  then show ?case using s0 by simp
next
  case (Suc m)
  then obtain t where t: "(program_step L ^^ m) s0 t" "program_step L t s" by (auto elim: relpowp_Suc_E)
  have inv: "program_inv free contents S B q t"
    using program_inv_run [OF relpowp_imp_rtranclp [OF t(1)] P OQ s0(1)] .
  have n: "\<not> pg_started t" using step_books [OF t(2) P OQ inv, of 0] Suc.prems(2) by auto
  have "before_ok (Suc (n - Suc m)) t" using Suc.IH [OF t(1) n] Suc.prems(3) by (simp add: Suc_diff_Suc)
  then show ?case
    using before_step [OF t(2) inv n, of "n - Suc m"] program_inv_step [OF t(2) P OQ inv] s0(3) by simp
qed

lemma after_run:
  assumes P: "object_pool (lib_order_pool L) free" and OQ: "spsc_queue (lib_order_queue L) contents cap"
    and s0: "program_inv free contents S B q s0" "pg_started s0" "map st_symbol (pg_threads s0) = symbols"
      "after_ok n 0 k (book_of s0 i) (manager_of s0 i)" and i: "i < 5"
  shows "\<lbrakk>(program_step L ^^ m) s0 s; m \<le> n; m < 2 ^ 61\<rbrakk>
    \<Longrightarrow> program_inv free contents S B q s \<and> pg_started s \<and> map st_symbol (pg_threads s) = symbols \<and>
      after_ok (n - m) (4 * m) k (book_of s i) (manager_of s i)"
proof (induction m arbitrary: s)
  case 0
  then show ?case using s0 by simp
next
  case (Suc m)
  then obtain t where t: "(program_step L ^^ m) s0 t" "program_step L t s" by (auto elim: relpowp_Suc_E)
  have IH: "program_inv free contents S B q t" "pg_started t" "map st_symbol (pg_threads t) = symbols"
    "after_ok (Suc (n - Suc m)) (4 * m) k (book_of t i) (manager_of t i)"
    using Suc.IH [OF t(1)] Suc.prems(2,3) by (simp_all add: Suc_diff_Suc)
  have "after_ok (n - Suc m) (4 * m + 4) k (book_of s i) (manager_of s i)"
    using after_step [OF t(2) P OQ IH(1-3) i _ IH(4)] Suc.prems(3) by simp
  then show ?case
    using program_inv_step [OF t(2) P OQ IH(1)] step_managers(1) [OF t(2) IH(1,3) i]
      step_books [OF t(2) P OQ IH(1) i] IH(2) by (simp add: add.commute)
qed

lemma main_threads_start:
  assumes "length bot_pools = 5"
  shows "map st_symbol (main_threads bot_pools) = symbols" "before_ok n
    (program_start gateway order_queue bot_queue cancel_queue bot_pools sim_pool st content prices)"
proof -
  obtain a b c d e where p: "bot_pools = [a, b, c, d, e]"
    using assms by (auto simp: length_Suc_conv eval_nat_numeral)
  show "map st_symbol (main_threads bot_pools) = symbols" by (simp add: p main_threads_def symbols_def)
  moreover have "manager_of (program_start gateway order_queue bot_queue cancel_queue bot_pools sim_pool st content prices) i
      = new_snapshot_manager 5" if "i < 5" for i
    using that assms by (simp add: program_start_def main_threads_def symbols_distinct)
  ultimately show "before_ok n
      (program_start gateway order_queue bot_queue cancel_queue bot_pools sim_pool st content prices)"
    using early_new by (auto simp: before_ok_def program_start_def)
qed

lemma start_keeps_threads:
  assumes "program_step L s s'" "\<not> pg_started s" "pg_started s'"
  shows "pg_threads s' = pg_threads s"
  using assms(1)
proof cases
  case (Worker i)
  then show ?thesis using assms(2,3) by (auto simp: worker_pass_def res_bind_Inr_iff)
next
  case (Snapshot i ds)
  then show ?thesis using assms(2,3)
    by (auto simp: snapshot_pass_def Let_def put_view_def res_bind_Inr_iff split: option.splits prod.splits)
next
  case Cancels
  then show ?thesis using assms(2,3) by (auto simp: cancel_pass_def res_bind_Inr_iff)
next
  case Start
  then show ?thesis by (auto simp: start_pass_def sim_bind_Inr_iff put_sim_def)
next
  case (Tick ds opened)
  then show ?thesis using assms(2) by simp
next
  case Stop
  then show ?thesis by (simp add: stop_running_def)
qed

lemma captured_capture:
  assumes "book_shape b"
  shows "\<exists>x. capture_snapshot 5 b x = Inr (captured 5 b s)"
proof -
  let ?v = "replicate 5 default_book_level"
  have "capture_top b (s\<lparr>bs_bids := ?v, bs_asks := ?v\<rparr>) = (capture_top b s)\<lparr>bs_bids := ?v, bs_asks := ?v\<rparr>"
    by (simp add: capture_top_def Let_def one_sided_def)
  then show ?thesis
    using capture_snapshot_ok [OF assms, of "s\<lparr>bs_bids := ?v, bs_asks := ?v\<rparr>" 5]
    by (intro exI [of _ "s\<lparr>bs_bids := ?v, bs_asks := ?v\<rparr>"]) (simp add: captured_def)
qed

text \<open>What the bots see from then on, case by case.\<close>

lemma polls_after:
  assumes s: "after_ok N c k b m" and k: "k \<le> 3" and b: "book_shape b" "ob_sequence b \<noteq> 0" and N: "0 < N"
  shows "if k \<le> 1 then \<exists>snap x m'. poll_snapshot b m = Inr (Some snap, m') \<and> capture_snapshot 5 b x = Inr snap
    else if k = 2 then sm_update_count m = 2 \<or> (\<exists>snap. \<forall>b. poll_snapshot b m = Inr (Some snap, m))
    else \<forall>b. \<exists>m'. poll_snapshot b m = Inr (None, m')"
proof -
  have "\<exists>snap x m'. poll_snapshot b m = Inr (Some snap, m') \<and> capture_snapshot 5 b x = Inr snap" if "k \<le> 1"
  proof -
    have "flowing m" using s that by (simp add: after_ok_def)
    then obtain x m' where "poll_snapshot b m = Inr (Some (captured 5 b x), m')"
      using flowing_poll [OF _ b] by metis
    then show ?thesis using captured_capture [OF b(1)] by blast
  qed
  moreover have "sm_update_count m = 2 \<or> (\<exists>snap. \<forall>b. poll_snapshot b m = Inr (Some snap, m))" if "k = 2"
    using s that frozen_poll(2) [of m] by (auto simp: after_ok_def early_def)
  moreover have "\<exists>m'. poll_snapshot b m = Inr (None, m')" if "k = 3" for b
  proof -
    have "stuck (Suc (N - 1)) m" using s that N by (simp add: after_ok_def)
    then show ?thesis by (rule poll_stuck [of _ _ b]) blast
  qed
  ultimately show ?thesis using k by auto
qed

text \<open>
  C17: the start-up race decides what bots see.  A snapshot thread runs before the simulator has
  placed the first quotes, and its polls of the empty book leak a node each.  After any run of
  the program of fewer than \<open>2 ^ 60\<close> passes, let \<open>k\<close> be the number of updates of the thread's
  manager when the simulator started.  With none or one, every poll shows the bots the book as
  it is; with two, the first poll does and every later one shows that snapshot again, however
  the market moves; with three, the most there can be, no poll ever shows the bots anything.
\<close>

theorem early_polls_decide:
  assumes "object_pool (lib_order_pool L) free" "spsc_queue (lib_order_queue L) contents cap"
    "contents order_queue = []" "start_ok free bot_pools sim_pool prices" "i < 5"
    "(program_step L ^^ m)
       (program_start gateway order_queue bot_queue cancel_queue bot_pools sim_pool st content prices) s1"
    "\<not> pg_started s1" "program_step L s1 s2" "pg_started s2" "(program_step L ^^ n) s2 s" "m + n < 2 ^ 60"
  shows "let k = unat (sm_update_count (st_manager (pg_threads s1 ! i)));
      manager = st_manager (pg_threads s ! i); book = sy_book (pg_engines s ! i)
    in k \<le> 3 \<and> (if k \<le> 1
      then \<exists>snap x m'. poll_snapshot book manager = Inr (Some snap, m') \<and> capture_snapshot 5 book x = Inr snap
      else if k = 2
      then sm_update_count manager = 2 \<or> (\<exists>snap. \<forall>b. poll_snapshot b manager = Inr (Some snap, manager))
      else \<forall>b. \<exists>m'. poll_snapshot b manager = Inr (None, m'))"
proof -
  let ?s0 = "program_start gateway order_queue bot_queue cancel_queue bot_pools sim_pool st content prices"
  let ?B = "\<Union>p \<in> set bot_pools. free p" and ?N = "2 ^ 62 :: nat"
  note P = assms(1) and OQ = assms(2) and i = assms(5)
  have "program_inv free contents (free sim_pool) ?B 500 ?s0"
    by (rule program_inv_start [of contents order_queue, OF assms(3,4)])
  moreover have "before_ok ?N ?s0" by (rule main_threads_start(2)) (use assms(4) in \<open>simp add: start_ok_def\<close>)
  ultimately have 1: "program_inv free contents (free sim_pool) ?B 500 s1" "before_ok (?N - m) s1"
    using before_run [OF P OQ _ _ _ assms(6,7), of "free sim_pool" ?B 500 ?N] assms(11) by auto
  have names1: "map st_symbol (pg_threads s1) = symbols" using 1(2) by (simp add: before_ok_def)
  obtain k where k: "k \<le> 3" "early (?N - m) k (manager_of s1 i)" using 1(2) i by (auto simp: before_ok_def)
  have m2: "manager_of s2 i = manager_of s1 i" "map st_symbol (pg_threads s2) = symbols"
    using start_keeps_threads [OF assms(8,7,9)] names1 by simp_all
  have inv2: "program_inv free contents (free sim_pool) ?B 500 s2" by (rule program_inv_step [OF assms(8) P OQ 1(1)])
  have "ob_sequence (book_of s2 i) = of_nat (2 + 0)"
    using step_books [OF assms(8) P OQ 1(1) i] assms(7,9) unstarted_book(2) [OF 1(1) assms(7) i] by simp
  moreover have "flowing (manager_of s1 i)" if "k \<le> 1" using that k by (auto simp: early_def flowing_def)
  moreover have "stuck (?N - m) (manager_of s1 i)" if "k = 3" using that k(2) by (simp add: early_def)
  ultimately have "after_ok (?N - m) 0 k (book_of s2 i) (manager_of s2 i)"
    using k(2) by (auto simp: after_ok_def m2(1))
  from after_run [OF P OQ inv2 assms(9) m2(2) this i assms(10)] assms(11)
  have s: "program_inv free contents (free sim_pool) ?B 500 s" "pg_started s"
    "after_ok (?N - m - n) (4 * n) k (book_of s i) (manager_of s i)" by auto
  have b: "book_shape (book_of s i)" "ob_sequence (book_of s i) \<noteq> 0"
    using started_book [OF s(1,2) i] sequence_nonzero [of "4 * n" "book_of s i"] s(3) assms(11) by (auto simp: after_ok_def)
  have "unat (sm_update_count (manager_of s1 i)) = k" using k by (simp add: early_def unat_of_nat)
  then show ?thesis using k(1) polls_after [OF s(3) k(1) b] assms(11) by (simp add: Let_def)
qed

subsection \<open>Each case can happen\<close>

text \<open>
  Before the start nothing waits at the bot manager, so a pass of a snapshot thread only polls.
\<close>

lemma early_pass:
  assumes Q: "spsc_queue (lib_bot_queue L) qcontents qcap" and inv: "program_inv free contents S B q s"
    and n: "\<not> pg_started s" "n < 2 ^ 63" "pg_running s" and names: "map st_symbol (pg_threads s) = symbols" and i: "i < 5"
    and k: "early (Suc n) k (manager_of s i)" and w: "\<forall>x. waiting qcontents (pg_bots s) x = []"
  shows "\<exists>s'. program_step L s s' \<and> \<not> pg_started s' \<and> pg_running s' \<and> early n (if k = 3 then 3 else Suc k) (manager_of s' i) \<and>
    (\<forall>x. waiting qcontents (pg_bots s') x = [])"
proof -
  let ?t = "pg_threads s ! i" and ?OQ = "lib_order_queue L"
  obtain sm where poll: "poll_snapshot (book_of s i) (manager_of s i) = Inr (None, sm)"
    "early n (if k = 3 then 3 else Suc k) sm"
    using early_poll [OF k n(2) unstarted_book [OF inv n(1) i]] by blast
  let ?th = "thread_view s i ?t"
  obtain m where m: "take_orders (lib_bot_queue L) (lib_order_pool L) ?OQ (st_symbol ?t) (?th\<lparr>th_manager := pg_bots s\<rparr>)
      = Some (?th\<lparr>th_manager := m\<rparr>)" "\<forall>x. waiting qcontents m x = waiting qcontents (pg_bots s) x"
    using take_orders_done [OF Q, of "?th\<lparr>th_manager := pg_bots s\<rparr>" "st_symbol ?t" "lib_order_pool L" ?OQ] w
    by (simp del: take_orders.simps) blast
  let ?v = "sweep_storage (lib_order_pool L) (?th\<lparr>th_manager := m\<rparr>)"
  have len: "length (pg_threads s) = 5" using arg_cong [OF names, of length] symbols_distinct by simp
  have "find_engine (st_symbol ?t) (pg_engines s) = Some i"
    using find_engine_nth [of "pg_engines s" symbols i] inv names i len symbols_distinct
    by (metis nth_map program_inv_def)
  moreover have "snapshot_cycle (lib_bot_queue L) (lib_new_bot_queue L) (lib_order_pool L) ?OQ ds (st_symbol ?t)
      (manager_of s i, pg_count s, ?th) = Some (Inr (sm, pg_count s, ?v))" for ds
    using poll(1) m(1) by (simp add: snapshot_cycle_def thread_view_def sy_order_book_def)
  ultimately have "snapshot_pass L ds i s = Some (Inr (put_view i i (sm, pg_count s, ?v) s))" for ds
    by (simp add: snapshot_pass_def Let_def)
  from program_step.Snapshot [OF n(3) _ this] have "program_step L s (put_view i i (sm, pg_count s, ?v) s)"
    using i len by simp
  then show ?thesis
    using poll(2) n m(2) w i len
    by (intro exI [of _ "put_view i i (sm, pg_count s, ?v) s"]) (simp add: put_view_def sweep_simps)
qed

lemma early_passes:
  assumes P: "object_pool (lib_order_pool L) free" and OQ: "spsc_queue (lib_order_queue L) contents cap"
    and Q: "spsc_queue (lib_bot_queue L) qcontents qcap" and i: "i < 5"
    and s0: "program_inv free contents S B q s0" "\<not> pg_started s0" "pg_running s0" "map st_symbol (pg_threads s0) = symbols"
      "early 9 0 (manager_of s0 i)" "\<forall>x. waiting qcontents (pg_bots s0) x = []"
  shows "k \<le> 3 \<Longrightarrow> \<exists>s. (program_step L ^^ k) s0 s \<and> program_inv free contents S B q s \<and> \<not> pg_started s \<and> pg_running s \<and>
    map st_symbol (pg_threads s) = symbols \<and> early (9 - k) k (manager_of s i) \<and>
    (\<forall>x. waiting qcontents (pg_bots s) x = [])"
proof (induction k)
  case 0
  then show ?case using s0 by auto
next
  case (Suc k)
  then obtain s where s: "(program_step L ^^ k) s0 s" "program_inv free contents S B q s" "\<not> pg_started s" "pg_running s"
    "map st_symbol (pg_threads s) = symbols" "early (9 - k) k (manager_of s i)"
    "\<forall>x. waiting qcontents (pg_bots s) x = []" by auto
  have "Suc (8 - k) = 9 - k" using Suc.prems by simp
  then have more: "early (Suc (8 - k)) k (manager_of s i)" using s(6) by simp
  have "8 - k < 2 ^ 63" by (rule le_less_trans [of _ 8]) simp_all
  from early_pass [OF Q s(2,3) this s(4,5) i more s(7)] Suc.prems
  obtain s' where s': "program_step L s s'" "\<not> pg_started s'" "pg_running s'" "early (8 - k) (Suc k) (manager_of s' i)"
    "\<forall>x. waiting qcontents (pg_bots s') x = []" by auto
  then show ?case
    using s(1) program_inv_step [OF s'(1) P OQ s(2)] step_managers(1) [OF s'(1) s(2,5) i]
    by (intro exI [of _ s']) auto
qed

lemma register_queues: "bm_order_queues (fold register_bot bs m) = bm_order_queues m"
  by (induction bs arbitrary: m) (simp_all add: register_bot_def Let_def)

lemma register_all_queues:
  "bm_order_queues (fold (\<lambda>s. fold register_bot (symbol_bots s)) ss m) = bm_order_queues m"
  by (induction ss arbitrary: m) (simp_all add: register_queues)

lemma main_manager_queues: "bm_order_queues (main_manager oq cq) = []"
  unfolding main_manager_def register_all_queues by (simp add: new_bot_manager_def)

text \<open>On the concrete program, for any number of early polls of the first thread.\<close>

lemma demo_early:
  assumes "k \<le> 3"
  obtains s1 s2 where "(program_step demo_library ^^ k) demo_program s1" "\<not> pg_started s1"
    "sm_update_count (st_manager (pg_threads s1 ! 0)) = of_nat k" "program_step demo_library s1 s2" "pg_started s2"
proof -
  have "waiting (\<lambda>q. q) (pg_bots demo_program) x = []" for x
    by (simp add: demo_program_def program_start_def main_manager_queues waiting_def)
  moreover have "early 9 0 (manager_of demo_program 0)" "map st_symbol (pg_threads demo_program) = symbols"
    "\<not> pg_started demo_program" "pg_running demo_program" "spsc_queue (lib_bot_queue demo_library) (\<lambda>q. q) 65535"
    using early_new list_queue_ok by (simp_all add: demo_program_def program_start_def main_threads_def symbols_def demo_library_def)
  ultimately obtain s1 where s1: "(program_step demo_library ^^ k) demo_program s1"
    "program_inv set (\<lambda>q. q) (set [20, 21, 22, 23, 24, 25, 26, 27, 28, 29, 30, 31])
      (\<Union>p \<in> set [[1, 2], [3, 4], [5, 6], [7, 8], [9, 10]]. set p) 500 s1"
    "\<not> pg_started s1" "early (9 - k) k (manager_of s1 0)"
    using early_passes [OF demo_library_laws _ _ demo_program_inv, of "\<lambda>q. q" 65535 0 k] assms by auto
  obtain s2 where "start_pass demo_library s1 = Inr s2" "pg_started s2"
    by (rule start_pass_inv [OF demo_library_laws(1) s1(2,3)])
  then show thesis using that [OF s1(1,3)] s1(3,4) Start by (auto simp: early_def)
qed

theorem early_polls_decide_witness:
  "(\<exists>s snap m'. (program_step demo_library)\<^sup>*\<^sup>* demo_program s \<and>
      poll_snapshot (sy_book (pg_engines s ! 0)) (st_manager (pg_threads s ! 0)) = Inr (Some snap, m')) \<and>
   (\<exists>s. (program_step demo_library)\<^sup>*\<^sup>* demo_program s \<and> pg_started s \<and>
      (\<forall>b. \<exists>m'. poll_snapshot b (st_manager (pg_threads s ! 0)) = Inr (None, m')))"
proof -
  have t: "let k = unat (sm_update_count (st_manager (pg_threads s1 ! 0)));
      manager = st_manager (pg_threads s2 ! 0); book = sy_book (pg_engines s2 ! 0)
    in k \<le> 3 \<and> (if k \<le> 1
      then \<exists>snap x m'. poll_snapshot book manager = Inr (Some snap, m') \<and> capture_snapshot 5 book x = Inr snap
      else if k = 2
      then sm_update_count manager = 2 \<or> (\<exists>snap. \<forall>b. poll_snapshot b manager = Inr (Some snap, manager))
      else \<forall>b. \<exists>m'. poll_snapshot b manager = Inr (None, m'))"
    if "(program_step demo_library ^^ k) demo_program s1" "\<not> pg_started s1"
      "program_step demo_library s1 s2" "pg_started s2" "k \<le> 3" for k s1 s2
    using early_polls_decide [OF demo_library_laws _ demo_start_ok, of "[]" 0 k "main_gateway 2 [] [0] (\<lambda>_. default_report)"
        "[]" "[]" "\<lambda>_. default_order" None s1 s2 0 s2] that
    by (simp add: demo_program_def)
  have run: "(program_step demo_library)\<^sup>*\<^sup>* demo_program s2"
    if "(program_step demo_library ^^ k) demo_program s1" "program_step demo_library s1 s2" for k s1 s2
    using relpowp_imp_rtranclp [OF that(1)] that(2) by simp
  obtain s1 s2 where 0: "(program_step demo_library ^^ 0) demo_program s1" "\<not> pg_started s1"
    "sm_update_count (st_manager (pg_threads s1 ! 0)) = of_nat 0" "program_step demo_library s1 s2" "pg_started s2"
    by (rule demo_early [of 0]) simp
  obtain s3 s4 where 3: "(program_step demo_library ^^ 3) demo_program s3" "\<not> pg_started s3"
    "sm_update_count (st_manager (pg_threads s3 ! 0)) = of_nat 3" "program_step demo_library s3 s4" "pg_started s4"
    by (rule demo_early [of 3]) simp
  show ?thesis
    using t [OF 0(1,2,4,5)] t [OF 3(1,2,4,5)] run [OF 0(1,4)] run [OF 3(1,4)] 0(3) 3(3,5)
    by (simp add: Let_def) blast
qed

end
