(* ===== verification/Match_Trace.thy ===== *)
theory Match_Trace
  imports Store_Frame
begin

text \<open>
  Matching without any precondition on the orders.  The theorems about the order book assume
  its full invariant, which an overflowing level breaks; here only the structure of the pointers
  is assumed, which no operation of the engine breaks.  A match that returns has then not faulted
  (a level that overflowed can only keep it from returning), and what it did is a list of fills:
  the orders filled stand on the opposite side, and what they gave is what the incoming order got.
\<close>

subsection \<open>One level\<close>

definition fill_sum :: "(addr \<times> u32) list \<Rightarrow> nat" where
  "fill_sum ms = sum_list (map (unat \<circ> snd) ms)"

lemma fill_sum_simps [simp]:
  "fill_sum [] = 0" "fill_sum (y # ms) = unat (snd y) + fill_sum ms"
  "fill_sum (ms @ ms') = fill_sum ms + fill_sum ms'"
  by (simp_all add: fill_sum_def)

text \<open>
  The fills of a loop started with \<open>(st, fs)\<close> and ended with \<open>(st', fs')\<close>, all with orders
  from \<open>A\<close>; unless the incoming order meets itself, the sums are exact and no order's remaining
  quantity grows.
\<close>

definition filled ::
  "addr \<Rightarrow> addr set \<Rightarrow> store \<Rightarrow> fill_rec list \<Rightarrow> (addr \<times> u32) list \<Rightarrow> store \<Rightarrow> fill_rec list \<Rightarrow> bool" where
  "filled inc A st fs ms st' fs' \<longleftrightarrow> st' = apply_fills inc ms st \<and> fs' = fs @ fills_of (o_price (st inc)) ms \<and>
     fst ` set ms \<subseteq> A \<and> (inc \<notin> A \<longrightarrow> fill_sum ms + unat (o_remaining (st' inc)) = unat (o_remaining (st inc)) \<and>
       (\<forall>y. o_remaining (st' y) \<le> o_remaining (st y)))"

lemma filled_Nil [simp]: "filled inc A st fs [] st fs"
  by (simp add: filled_def)

lemma filled_append:
  "\<lbrakk>filled inc A st fs ms st1 fs1; filled inc A st1 fs1 ms' st2 fs2\<rbrakk> \<Longrightarrow> filled inc A st fs (ms @ ms') st2 fs2"
  by (auto simp: filled_def apply_fills_append intro: order_trans)

lemma filled_mono: "\<lbrakk>filled inc A st fs ms st' fs'; A \<subseteq> B; inc \<notin> B \<or> inc \<in> A\<rbrakk> \<Longrightarrow> filled inc B st fs ms st' fs'"
  by (auto simp: filled_def)

lemma filled_sub: "\<lbrakk>filled inc A st fs ms st' fs'; A \<subseteq> B\<rbrakk> \<Longrightarrow> filled inc B st fs ms st' fs'"
  by (auto simp: filled_def)

lemma filled_one:
  assumes "a \<in> A" "q \<le> o_remaining (st inc)" "q \<le> o_remaining (st a)"
  shows "filled inc A st fs [(a, q)] (apply_fill a inc q st)
    (fs @ [\<lparr>fill_order = a, fill_quantity = q, fill_price = o_price (st inc)\<rparr>])"
proof -
  have "unat q + unat (o_remaining (apply_fill a inc q st inc)) = unat (o_remaining (st inc))" if "inc \<notin> A"
  proof -
    have "a \<noteq> inc" using that assms(1) by blast
    then have "o_remaining (apply_fill a inc q st inc) = o_remaining (st inc) - q" by (simp add: apply_fill_apply)
    then show ?thesis using unat_sub [OF assms(2)] assms(2) by (simp add: word_le_nat_alt)
  qed
  moreover have "o_remaining (apply_fill a inc q st y) \<le> o_remaining (st y)" if "inc \<notin> A" for y
  proof -
    have "a \<noteq> inc" using that assms(1) by blast
    then show ?thesis using assms(2,3) by (simp add: apply_fill_apply word_sub_le)
  qed
  ultimately show ?thesis using assms(1) by (simp add: filled_def)
qed

lemma match_loop_trace:
  assumes "match_loop inc st pl fs = Some (st', pl', fs')"
  obtains ms where "filled inc (level_addrs pl) st fs ms st' fs'"
proof -
  let ?P = "\<lambda>inc st pl fs r. \<exists>ms. filled inc (level_addrs pl) st fs ms (fst r) (snd (snd r))"
  have "?P inc st pl fs (st', pl', fs')"
  proof (rule match_loop.raw_induct [where P = ?P, OF _ assms], goal_cases)
    case (1 f inc st pl fs r)
    let ?pl = "advance st pl"
    have sub: "level_addrs ?pl \<subseteq> level_addrs pl" "level_addrs (clear_head ?pl) \<subseteq> level_addrs pl"
      using advance_addrs [of st pl] level_addrs_clear [of ?pl] by auto
    have IH: "\<exists>ms. filled inc (level_addrs pl) st' fs' ms (fst r) (snd (snd r))"
      if "f inc st' pl' fs' = Some r" "level_addrs pl' \<subseteq> level_addrs pl" for st' pl' fs'
      using 1(1) [OF that(1)] that(2) by (blast intro: filled_sub)
    show ?case
    proof (cases "o_remaining (st inc) = 0 \<or> pl_head ?pl = pl_tail ?pl")
      case True
      then have "r = (st, pl, fs) \<or> r = (st, ?pl, fs)" using 1(2) by (cases "o_remaining (st inc) = 0") simp_all
      then show ?thesis by (auto intro: exI [of _ "[]"])
    next
      case False
      show ?thesis
      proof (cases "pl_buffer ?pl (pl_head ?pl)")
        case None
        then show ?thesis using 1(2) False IH [OF _ sub(2)] by (simp add: Let_def)
      next
        case (Some a)
        let ?q = "min (o_remaining (st a)) (o_remaining (st inc))"
        let ?st = "apply_fill a inc ?q st"
        let ?fs = "fs @ [\<lparr>fill_order = a, fill_quantity = ?q, fill_price = o_price (st inc)\<rparr>]"
        have a: "a \<in> level_addrs pl" using Some sub(1) by blast
        have one: "filled inc (level_addrs pl) st fs [(a, ?q)] ?st ?fs" by (rule filled_one [OF a]) simp_all
        let ?pl2 = "?pl\<lparr>pl_total := pl_total ?pl - ?q\<rparr>"
        let ?pl3 = "if o_remaining (?st a) = 0 then (clear_head ?pl2)\<lparr>pl_size := pl_size ?pl2 - 1\<rparr> else ?pl2"
        have pop: "level_addrs ?pl3 \<subseteq> level_addrs pl"
          using level_addrs_clear [of ?pl2] sub(1) by auto
        show ?thesis
        proof (cases "\<not> is_active (st a) \<or> o_remaining (st a) = 0")
          case True
          then show ?thesis using 1(2) False Some IH [OF _ sub(2)] by (simp add: Let_def)
        next
          case act: False
          then have q: "?q \<noteq> 0" using False by (simp add: min_def)
          have "(if o_remaining (?st inc) = 0 then Some (?st, ?pl3, ?fs) else f inc ?st ?pl3 ?fs) = Some r"
            using 1(2) False Some act q by (simp add: Let_def)
          then have "r = (?st, ?pl3, ?fs) \<or> f inc ?st ?pl3 ?fs = Some r" by (metis option.inject)
          then show ?thesis
          proof
            assume "r = (?st, ?pl3, ?fs)"
            then show ?thesis using one by (metis fst_conv snd_conv)
          next
            assume "f inc ?st ?pl3 ?fs = Some r"
            then show ?thesis using IH [OF _ pop] filled_append [OF one] by blast
          qed
        qed
      qed
    qed
  qed
  then show thesis using that by auto
qed

subsection \<open>The structure of a book\<close>

text \<open>
  The slots of a level, and what a match may do to the levels: they only vanish or lose
  orders.  \<open>book_sided\<close> says that the orders stand on their side.
\<close>

definition level_slots :: "order_book \<Rightarrow> laddr \<Rightarrow> addr set" where
  "level_slots b l = level_addrs (lv b l)"

definition side_addrs :: "bool \<Rightarrow> order_book \<Rightarrow> addr set" where
  "side_addrs s b = (\<Union>l \<in> set (levels_of s b). level_slots b l)"

definition book_sided :: "store \<Rightarrow> order_book \<Rightarrow> bool" where
  "book_sided st b \<longleftrightarrow> book_shape b \<and> (\<forall>s. \<forall>a \<in> side_addrs s b. is_buy (st a) = s)"

definition shrinks :: "order_book \<Rightarrow> order_book \<Rightarrow> bool" where
  "shrinks b b' \<longleftrightarrow> (\<forall>s. set (levels_of s b') \<subseteq> set (levels_of s b)) \<and>
     (\<forall>l \<in> set (all_levels b'). level_slots b' l \<subseteq> level_slots b l \<and> lprice b' l = lprice b l)"

lemma shrinks_refl [simp]: "shrinks b b"
  by (simp add: shrinks_def)

lemma shrinks_trans: "shrinks a b \<Longrightarrow> shrinks b c \<Longrightarrow> shrinks a c"
proof -
  assume s: "shrinks a b" "shrinks b c"
  have "set (all_levels c) \<subseteq> set (all_levels b)" using s(2) unfolding shrinks_def set_all_levels [of _ True] by blast
  moreover have "set (levels_of t c) \<subseteq> set (levels_of t a)" for t
    using s by (meson shrinks_def subset_trans)
  ultimately show "shrinks a c" using s unfolding shrinks_def by (metis subsetD subset_trans)
qed

lemma shrinks_side: "shrinks b b' \<Longrightarrow> side_addrs s b' \<subseteq> side_addrs s b"
proof
  fix x assume s: "shrinks b b'" "x \<in> side_addrs s b'"
  then obtain l where l: "l \<in> set (levels_of s b')" "x \<in> level_slots b' l" by (auto simp: side_addrs_def)
  then have "x \<in> level_slots b l" "l \<in> set (levels_of s b)"
    using s(1) in_all_levels [OF l(1)] by (auto simp: shrinks_def)
  then show "x \<in> side_addrs s b" by (auto simp: side_addrs_def)
qed

lemma side_addrs_book: "book_shape b \<Longrightarrow> side_addrs s b \<subseteq> book_addrs b"
proof
  fix x assume b: "book_shape b" "x \<in> side_addrs s b"
  then obtain l where l: "l \<in> set (levels_of s b)" "x \<in> level_addrs (lv b l)" by (auto simp: side_addrs_def level_slots_def)
  then show "x \<in> book_addrs b"
    using heap_level [OF b(1) in_all_levels [OF l(1)]] by (auto simp: book_addrs_def intro: ranI)
qed

lemma trade_round_shape:
  assumes shape: "book_shape b" and l: "l \<in> set (levels_of t b)" and pl: "pl_price pl = lprice b l"
    "level_addrs pl \<subseteq> level_slots b l"
  shows "book_shape (trade_round t l pl b)" "shrinks b (trade_round t l pl b)"
proof -
  have la: "l \<in> set (all_levels b)" by (rule in_all_levels [OF l])
  have sh: "book_shape (traded t l pl b)" using book_shape_set_level [OF shape la pl(1)] by (simp add: traded_def)
  have mem: "l \<in> set (levels_of t (traded t l pl b))" using l by simp
  have lev: "levels_of s (traded t l pl b) = levels_of s b" for s by simp
  have tr: "shrinks b (traded t l pl b)"
    using pl unfolding shrinks_def level_slots_def
    by (auto simp: lprice_def traded_def lv_set_level)
  have "shrinks (traded t l pl b) (drop_level t l (traded t l pl b))"
    using set_drop_level [OF sh mem] drop_level_lv [of _ l t "traded t l pl b"]
    unfolding shrinks_def level_slots_def lprice_def by auto
  then show "shrinks b (trade_round t l pl b)"
    using tr shrinks_trans by (auto simp: trade_round_def)
  show "book_shape (trade_round t l pl b)"
    using sh book_shape_drop_level [OF sh mem] by (simp add: trade_round_def)
qed

subsection \<open>A sweep\<close>

lemma sweep_trace:
  assumes r: "sweep s inc st b fs = Some r" and shape: "book_shape b"
  obtains ms st' b' fs' where "r = Inr (st', b', fs')" "filled inc (side_addrs (\<not> s) b) st fs ms st' fs'"
    "book_shape b'" "shrinks b b'"
    "o_remaining (st' inc) \<noteq> 0 \<Longrightarrow> \<forall>l \<in> set (levels_of (\<not> s) b'). lprice b' l \<noteq> o_price (st inc)"
proof -
  let ?Q = "\<lambda>s inc st b fs r st' b' fs' ms. r = Inr (st', b', fs') \<and> filled inc (side_addrs (\<not> s) b) st fs ms st' fs' \<and>
    book_shape b' \<and> shrinks b b' \<and>
    (o_remaining (st' inc) \<noteq> 0 \<longrightarrow> (\<forall>l \<in> set (levels_of (\<not> s) b'). lprice b' l \<noteq> o_price (st inc)))"
  let ?P = "\<lambda>s inc st b fs (r :: (store \<times> order_book \<times> fill_rec list) res). book_shape b \<longrightarrow>
    (\<exists>st' b' fs' ms. ?Q s inc st b fs r st' b' fs' ms)"
  have "?P s inc st b fs r"
  proof (rule sweep.raw_induct [where P = ?P, OF _ r], goal_cases)
    case (1 f s inc st b fs r)
    show ?case
    proof
      assume shape: "book_shape b"
      have stay: "\<exists>st' b' fs' ms. ?Q s inc st b fs r st' b' fs' ms"
        if "r = Inr (st, b, fs)"
          "o_remaining (st inc) \<noteq> 0 \<longrightarrow> (\<forall>l \<in> set (levels_of (\<not> s) b). lprice b l \<noteq> o_price (st inc))"
        using that shape
        by (intro exI [of _ st] exI [of _ b] exI [of _ fs] exI [of _ "[]"]) simp
      show "\<exists>st' b' fs' ms. ?Q s inc st b fs r st' b' fs' ms"
      proof (cases "levels_of (\<not> s) b")
        case Nil
        then show ?thesis using 1(2) by (intro stay) simp_all
      next
        case (Cons l ls)
        have l: "l \<in> set (levels_of (\<not> s) b)" by (simp add: Cons)
        have d: "deref b l = Inr (lv b l)" by (rule deref_level [OF shape in_all_levels [OF l]])
        show ?thesis
        proof (cases "o_remaining (st inc) = 0")
          case True
          then show ?thesis using 1(2) Cons by (intro stay) simp_all
        next
          case rem: False
          show ?thesis
          proof (cases "before (\<not> s) (o_price (st inc)) (lprice b l)")
            case True
            have "lprice b x \<noteq> o_price (st inc)" if "x \<in> set (levels_of (\<not> s) b)" for x
              using that Cons True first_price_extreme [OF shape Cons, of x]
              by (auto simp: before_def split: if_splits)
            then show ?thesis
              using 1(2) Cons d rem True by (intro stay) (simp_all add: beyond_limit_before lprice_def)
          next
            case cross: False
            then obtain q st1 pl fs1 where m: "match_order (Some inc) st (lv b l) fs = Some (q, st1, pl, fs1)"
              using 1(2) Cons d rem by (auto simp: beyond_limit_before lprice_def split: Option.bind_splits)
            then have ml: "match_loop inc st (lv b l) fs = Some (st1, pl, fs1)"
              using rem by (auto simp: match_order_def)
            note mf = match_order_frame(2,3) [OF m]
            let ?b = "trade_round (\<not> s) l pl b"
            have pop: "pop_level (\<not> s) l pl (traded (\<not> s) l pl b) = drop_level (\<not> s) l (traded (\<not> s) l pl b)"
              using Cons mf(2) by (simp add: pop_level_def drop_level_def lprice_def)
            have b2: "set_depth (\<not> s) (depth_of (\<not> s) (set_level l pl b) - (pl_total (lv b l) - pl_total pl))
                (set_level l pl b) = traded (\<not> s) l pl b"
              by (simp add: traded_def)
            have run: "f s inc st1 ?b fs1 = Some r"
              using 1(2) Cons d rem cross m
              by (auto simp: beyond_limit_before lprice_def [symmetric] Let_def trade_round_def b2 pop
                  simp del: set_level_simps)
            have ts: "book_shape ?b" "shrinks b ?b"
              using trade_round_shape [OF shape l, of pl] mf by (simp_all add: lprice_def level_slots_def)
            obtain ms where "filled inc (level_addrs (lv b l)) st fs ms st1 fs1"
              by (rule match_loop_trace [OF ml])
            then have ms: "filled inc (side_addrs (\<not> s) b) st fs ms st1 fs1"
              using l by (elim filled_sub) (auto simp: side_addrs_def level_slots_def)
            obtain st2 b2 fs2 ms2 where IH: "?Q s inc st1 ?b fs1 r st2 b2 fs2 ms2"
              using 1(1) [OF run] ts(1) by blast
            have "filled inc (side_addrs (\<not> s) b) st1 fs1 ms2 st2 fs2"
              using IH filled_sub shrinks_side [OF ts(2)] by blast
            then have "filled inc (side_addrs (\<not> s) b) st fs (ms @ ms2) st2 fs2"
              by (rule filled_append [OF ms])
            moreover have "o_price (st1 inc) = o_price (st inc)" using ms by (simp add: filled_def)
            ultimately show ?thesis
              using IH shrinks_trans [OF ts(2), of b2]
              by (intro exI [of _ st2] exI [of _ b2] exI [of _ fs2] exI [of _ "ms @ ms2"]) auto
          qed
        qed
      qed
    qed
  qed
  then show thesis using shape that by blast
qed

subsection \<open>An order\<close>

text \<open>Finding or creating the level of a price that the other side does not have.\<close>

lemma get_level_shape:
  assumes shape: "book_shape b" and opp: "\<And>l. l \<in> set (levels_of (\<not> s) b) \<Longrightarrow> lprice b l \<noteq> p"
  obtains l b' where "get_level p s b = Inr (l, b')" "book_shape b'" "l \<in> set (levels_of s b')"
    "\<And>t. side_addrs t b' \<subseteq> side_addrs t b"
proof (cases "ob_p2l b p")
  case (Some l)
  then have "l \<in> set (all_levels b)" "lprice b l = p" using book_shapeD(5) [OF shape] by blast+
  then have "l \<in> set (levels_of s b)" using opp by (auto simp: set_all_levels [of b s])
  then show thesis using that [of l b] Some shape by (simp add: get_level_def find_level_def)
next
  case None
  then have no: "lprice b l \<noteq> p" if "l \<in> set (levels_of s b)" for l
    using that in_all_levels book_shapeD(5) [OF shape, of p l] by fastforce
  let ?k = "length (takeWhile (\<lambda>l. before s (lprice b l) p) (levels_of s b))"
  let ?L = "take ?k (levels_of s b)" and ?R = "drop ?k (levels_of s b)"
  let ?b = "with_new_level p s (?L @ ob_fresh b # ?R) b"
  have ls: "levels_of s b = ?L @ ?R" by simp
  have "side_addrs t ?b \<subseteq> side_addrs t b" for t
  proof -
    have "set (levels_of t ?b) \<subseteq> insert (ob_fresh b) (set (levels_of t b))"
      by (cases "t = s") (auto dest: in_set_takeD in_set_dropD simp del: append_take_drop_id)
    moreover have "level_slots ?b l = (if l = ob_fresh b then {} else level_slots b l)" for l
      by (simp add: level_slots_def lv_with_new_level)
    ultimately show ?thesis by (auto simp: side_addrs_def split: if_splits)
  qed
  moreover have "book_shape ?b"
    using book_shape_with_new_level [OF shape None ls split_by_price [OF shape no]] by blast
  ultimately show thesis
    using that [of "ob_fresh b" ?b] get_level_new [OF shape None, of s] by simp
qed

lemma rest_order_trace:
  assumes shape: "book_shape b" and opp: "\<And>l. l \<in> set (levels_of (\<not> s) b) \<Longrightarrow> lprice b l \<noteq> o_price (st a)"
  obtains b' where "rest_order s a st b = Inr b'" "book_shape b'"
    "\<And>t. side_addrs t b' \<subseteq> side_addrs t b \<union> (if t = s then {a} else {})"
proof -
  obtain l b1 where g: "get_level (o_price (st a)) s b = Inr (l, b1)" "book_shape b1" "l \<in> set (levels_of s b1)"
    "\<And>t. side_addrs t b1 \<subseteq> side_addrs t b"
    using get_level_shape [OF shape opp] by metis
  have la: "l \<in> set (all_levels b1)" by (rule in_all_levels [OF g(3)])
  have other: "l \<notin> set (levels_of (\<not> s) b1)"
    using book_shapeD(1) [OF g(2)] g(3) by (auto simp: distinct_all_levels [of b1 s])
  let ?b = "put_order s l a st b1"
  have r: "rest_order s a st b = Inr ?b" using rest_order_put [where st = st and a = a and s = s, OF g(1)] deref_level [OF g(2) la] by blast
  have px: "pl_price (level_add_order st (Some a) (lv b1 l)) = lprice b1 l"
    by (simp add: level_add_order_def lprice_def level_simps)
  have sh: "book_shape ?b"
    using book_shape_set_level [OF g(2) la px] by (simp add: put_order_def)
  have "level_slots ?b x \<subseteq> level_slots b1 x \<union> (if x = l then {a} else {})" for x
    using level_addrs_add [of st a "lv b1 l"] by (auto simp: level_slots_def put_order_lv)
  then have "side_addrs t ?b \<subseteq> side_addrs t b1 \<union> (if t = s then {a} else {})" for t
    using other by (cases "t = s") (fastforce simp: side_addrs_def split: if_splits)+
  then show thesis using that [OF r sh] g(4) by blast
qed

text \<open>
  What a match does that returns: it has not faulted, the fills are recorded at the price of the
  incoming order, and at most the incoming order is new in the book, on its own side.
\<close>

lemma book_match_trace:
  assumes r: "book_match (Some a) st b [] = Some r" and shape: "book_shape b"
  obtains ms st' b' p where "r = Inr (p, st', b', fills_of (o_price (st a)) ms)"
    "filled a (side_addrs (\<not> is_buy (st a)) b) st [] ms st' (fills_of (o_price (st a)) ms)" "book_shape b'"
    "\<And>t. side_addrs t b' \<subseteq> side_addrs t b \<union> (if t = is_buy (st a) \<and> o_remaining (st' a) \<noteq> 0 then {a} else {})"
    "book_addrs b' \<subseteq> book_addrs b \<union> (if o_remaining (st' a) \<noteq> 0 then {a} else {})"
proof (cases "o_remaining (st a) = 0")
  case True
  then have "r = Inr (Some a, st, b, fills_of (o_price (st a)) [])" using r by (simp add: book_match_def)
  then show thesis using that [of "Some a" st b "[]"] shape by simp
next
  case False
  let ?s = "is_buy (st a)"
  obtain r1 where r1: "sweep ?s a st b [] = Some r1" using r False by (auto simp: book_match_def Let_def split: Option.bind_splits)
  obtain ms st1 b1 fs1 where sw: "r1 = Inr (st1, b1, fs1)" "filled a (side_addrs (\<not> ?s) b) st [] ms st1 fs1"
    "book_shape b1" "shrinks b b1"
    "o_remaining (st1 a) \<noteq> 0 \<Longrightarrow> \<forall>l \<in> set (levels_of (\<not> ?s) b1). lprice b1 l \<noteq> o_price (st a)"
    by (rule sweep_trace [OF r1 shape]) blast
  have st1: "o_price (st1 a) = o_price (st a)" "fs1 = fills_of (o_price (st a)) ms"
    using sw(2) by (simp_all add: filled_def)
  obtain b2 where b2: "(if o_remaining (st1 a) > 0 then rest_order ?s a st1 b1 else Inr b1) = Inr b2" "book_shape b2"
    "\<And>t. side_addrs t b2 \<subseteq> side_addrs t b1 \<union> (if t = ?s \<and> o_remaining (st1 a) \<noteq> 0 then {a} else {})"
  proof (cases "o_remaining (st1 a) = 0")
    case True
    then show thesis using that [of b1] sw(3) by simp
  next
    case False
    have "\<And>l. l \<in> set (levels_of (\<not> ?s) b1) \<Longrightarrow> lprice b1 l \<noteq> o_price (st1 a)" using sw(5) [OF False] st1 by auto
    from rest_order_trace [where st = st1 and a = a and s = ?s, OF sw(3) this] obtain b' where "rest_order ?s a st1 b1 = Inr b'" "book_shape b'"
      "\<And>t. side_addrs t b' \<subseteq> side_addrs t b1 \<union> (if t = ?s then {a} else {})" by blast
    then show thesis using that [of b'] False by (simp add: word_gt_0)
  qed
  have "book_addrs b1 \<subseteq> book_addrs b" using sweep_frame(2) r1 sw(1) by blast
  then have ba: "book_addrs b2 \<subseteq> book_addrs b \<union> (if o_remaining (st1 a) \<noteq> 0 then {a} else {})"
    using b2(1) rest_order_addrs [of ?s a st1 b1 b2] by (auto simp: word_gt_0 split: if_splits)
  let ?b3 = "b2\<lparr>ob_best_bid := first_price b2 (ob_bids b2) 0, ob_best_ask := first_price b2 (ob_asks b2) int64_max\<rparr>"
  have run: "r = Inr (if o_remaining (st1 a) > 0 then Some a else None, st1, bump_sequence ?b3, fills_of (o_price (st a)) ms)"
    using r False r1 sw(1) b2(1) update_best_prices_ok [OF b2(2)] st1(2) by (simp add: book_match_def Let_def)
  have parts: "levels_of t (bump_sequence ?b3) = levels_of t b2" "lprice (bump_sequence ?b3) = lprice b2"
    "lv (bump_sequence ?b3) = lv b2" "all_levels (bump_sequence ?b3) = all_levels b2" for t
    by (simp_all add: bump_sequence_def fun_eq_iff)
  have "book_shape (bump_sequence ?b3)" "side_addrs t (bump_sequence ?b3) = side_addrs t b2" for t
    using b2(2) unfolding book_shape_def side_addrs_def level_slots_def parts by (simp_all add: bump_sequence_def)
  then show thesis
    using that [OF run] sw(2) b2(3) shrinks_side [OF sw(4)] st1(2) ba by (simp only: book_addrs_simps) blast
qed

end
