(* ===== verification/Engine_Trace.thy ===== *)
theory Engine_Trace
  imports Match_Trace
begin

text \<open>
  An engine that owns its orders.  The orders that an engine can reach (queue, levels, index)
  are held by the thread of its symbol, stand on their side, are active, carry the symbol, and
  their filled and remaining quantities make up what they asked for.
  This is kept by every order that is processed and every cycle, whether or not a level
  overflows; so no cycle can fault, and it moves the net position of no symbol.
\<close>

subsection \<open>Ownership\<close>

text \<open>What an order asked for is what it got and what it still wants.\<close>

definition well_filled :: "order \<Rightarrow> bool" where
  "well_filled x \<longleftrightarrow> o_quantity x \<noteq> 0 \<and> o_remaining x \<le> o_quantity x \<and>
     o_filled x + o_remaining x = o_quantity x"

lemma well_filled_exact:
  assumes "well_filled x"
  shows "unat (o_filled x) + unat (o_remaining x) = unat (o_quantity x)"
proof -
  have "o_filled x = o_quantity x - o_remaining x" using assms by (metis well_filled_def add_diff_cancel_right')
  then show ?thesis
    using assms unat_sub [of "o_remaining x" "o_quantity x"] by (simp add: well_filled_def word_le_nat_alt)
qed

definition engine_owns ::
  "('o \<Rightarrow> addr list) \<Rightarrow> addr set \<Rightarrow> string \<Rightarrow> store \<Rightarrow> 'o engine \<Rightarrow> bool" where
  "engine_owns contents H symbol st e \<longleftrightarrow> book_sided st (me_book e) \<and> distinct (contents (me_queue e)) \<and>
     set (contents (me_queue e)) \<inter> book_addrs (me_book e) = {} \<and> engine_addrs contents e \<subseteq> H \<and>
     (\<forall>a \<in> engine_addrs contents e. is_active (st a) \<and> cstr (o_symbol (st a)) = symbol \<and> well_filled (st a)) \<and>
     (\<forall>a \<in> set (contents (me_queue e)). o_filled (st a) = 0 \<and> o_remaining (st a) \<noteq> 0)"

text \<open>Only the orders that the engine reaches matter.\<close>

lemma engine_owns_store:
  assumes "engine_owns contents H symbol st e" "\<forall>a \<in> H. st' a = st a"
  shows "engine_owns contents H symbol st' e"
proof -
  have shape: "book_shape (me_book e)" using assms(1) by (simp add: engine_owns_def book_sided_def)
  have e: "st' a = st a" if "a \<in> engine_addrs contents e" for a
    using assms that by (auto simp: engine_owns_def)
  have "side_addrs s (me_book e) \<subseteq> engine_addrs contents e" for s
    using side_addrs_book [OF shape] by (auto simp: engine_addrs_def)
  then have "book_sided st' (me_book e)" using assms(1) e unfolding engine_owns_def book_sided_def by fastforce
  moreover have "set (contents (me_queue e)) \<subseteq> engine_addrs contents e" by (auto simp: engine_addrs_def)
  ultimately show ?thesis using assms(1) e unfolding engine_owns_def by (metis subsetD)
qed

lemma engine_owns_new:
  "contents queue = [] \<Longrightarrow> engine_owns contents H symbol st (new_engine name queue)"
proof -
  assume q: "contents queue = []"
  have "book_shape (new_book name)" using book_ok_new [of "\<lambda>_. default_order" name] by (simp add: book_ok_def)
  moreover have "levels_of s (new_book name) = []" for s by (simp add: new_book_def levels_of_def)
  ultimately show ?thesis
    by (simp add: engine_owns_def book_sided_def side_addrs_def new_engine_def engine_addrs_def q)
qed

subsection \<open>Flat positions\<close>

definition flat :: "('p, 'q) trading \<Rightarrow> bool" where
  "flat w \<longleftrightarrow> (\<exists>m. tr_positions w = Some m \<and> (\<forall>symbol. net_of m symbol = 0))"

lemma net_of_fills_ranged:
  "s64 (net_of m symbol) = net_of m symbol \<Longrightarrow>
    s64 (net_of (apply_position_fills fs m) symbol) = net_of (apply_position_fills fs m) symbol"
proof (induction fs arbitrary: m)
  case (Cons f fs)
  obtain x q px where f: "f = (x, q, px)" by (cases f) auto
  have "s64 (net_of (update_position (Some x) q px m) symbol) = net_of (update_position (Some x) q px m) symbol"
    using Cons.prems by (auto simp: net_of_update s64_def)
  then show ?case using Cons.IH by (simp add: f)
qed simp

lemma flat_fills:
  assumes "\<forall>symbol. net_of m symbol = 0" "\<And>symbol. sum_list (map (signed_fill symbol) fs) = 0"
  shows "net_of (apply_position_fills fs m) symbol = 0"
proof -
  have "s64 0 = 0" by (simp add: s64_id in_i64_def)
  moreover from this have "s64 (net_of (apply_position_fills fs m) symbol) = net_of (apply_position_fills fs m) symbol"
    using assms(1) by (intro net_of_fills_ranged) simp
  ultimately show ?thesis using net_of_fills_mod [of fs m symbol] assms by simp
qed

text \<open>The makers are on the other side and trade the same symbol, so their fills and that of the taker cancel.\<close>

lemma match_flat:
  assumes makers: "\<And>y. y \<in> set ms \<Longrightarrow> is_buy (st (fst y)) = (\<not> is_buy (st a)) \<and>
      trim_symbol (o_symbol (st (fst y))) = trim_symbol (o_symbol (st a))"
    and "unat (o_filled (st a)) = fill_sum ms"
  shows "sum_list (map (signed_fill symbol) (match_positions st a ms)) = 0"
proof (cases "symbol = trim_symbol (o_symbol (st a))")
  case True
  show ?thesis
    using makers assms(2) unfolding True fill_sum_def
    by (intro match_positions_balance [where s = "is_buy (st a)"]) blast+
next
  case False
  have "signed_fill symbol f = 0" if "f \<in> set (match_positions st a ms)" for f
  proof -
    obtain x q px where f: "f = (x, q, px)" by (cases f) auto
    have "trim_symbol (o_symbol x) = trim_symbol (o_symbol (st a))"
      using that makers unfolding f match_positions_def by (auto split: if_splits)
    then show ?thesis using False by (simp add: f signed_fill_def)
  qed
  then have "map (signed_fill symbol) (match_positions st a ms) = map (\<lambda>_. 0) (match_positions st a ms)" by simp
  then show ?thesis by (simp only: sum_list_0)
qed

subsection \<open>One order\<close>

text \<open>What the engine needs and keeps of its surroundings.\<close>

definition engine_ready ::
  "('g \<Rightarrow> addr set) \<Rightarrow> ('g, 'q) trading \<Rightarrow> bool" where
  "engine_ready gfree w \<longleftrightarrow> trading_ready gfree w \<and> tr_gateway w \<noteq> None \<and> flat w"

lemma settle_gateway: "settle P Q a fills w e = Inr (w', e') \<Longrightarrow> (tr_gateway w' = None) = (tr_gateway w = None)"
  by (auto simp: settle_def send_fill_def Let_def res_bind_Inr_iff split: if_splits option.splits)

lemma apply_fills_is_buy [simp]: "is_buy (apply_fills a ms st y) = is_buy (st y)"
  by (simp add: is_buy_def)

lemma accepted_trace:
  assumes P: "object_pool P gfree" and own: "engine_owns contents H symbol (tr_store w) e"
    and ready: "engine_ready gfree w" and q: "contents (me_queue e) = a # contents q"
    and risk: "check_risk w a" and r: "process_order P Q a w (e\<lparr>me_queue := q\<rparr>) = Some r"
  obtains w' e' where "r = Inr (w', e')" "engine_owns contents H symbol (tr_store w') e'" "engine_ready gfree w'"
    "\<And>y. o_order_id (tr_store w' y) = o_order_id (tr_store w y)"
proof -
  let ?b = "me_book e" and ?st = "tr_store w"
  define st0 where "st0 = upd a convert_market ?st"
  have shape: "book_shape ?b" using own by (simp add: engine_owns_def book_sided_def)
  have a: "a \<notin> book_addrs ?b" "a \<notin> set (contents q)" "a \<in> H" "is_active (?st a)" "cstr (o_symbol (?st a)) = symbol"
    "o_filled (?st a) = 0" "distinct (contents q)" "set (contents q) \<inter> book_addrs ?b = {}"
    using own q by (auto simp: engine_owns_def engine_addrs_def)
  have sides: "side_addrs s ?b \<subseteq> book_addrs ?b" for s by (rule side_addrs_book [OF shape])
  have st0: "is_buy (st0 y) = is_buy (?st y)" "is_active (st0 y) = is_active (?st y)" "o_symbol (st0 y) = o_symbol (?st y)"
    "o_filled (st0 y) = o_filled (?st y)" "o_remaining (st0 y) = o_remaining (?st y)"
    "o_quantity (st0 y) = o_quantity (?st y)" "o_order_id (st0 y) = o_order_id (?st y)" for y
    by (cases "y = a"; simp add: st0_def)+
  obtain r1 where m: "book_match (Some a) st0 ?b [] = Some r1"
    using r risk by (auto simp: process_order_def Let_def st0_def split: Option.bind_splits)
  obtain ms st1 b1 p where t: "r1 = Inr (p, st1, b1, fills_of (o_price (st0 a)) ms)"
    "filled a (side_addrs (\<not> is_buy (st0 a)) ?b) st0 [] ms st1 (fills_of (o_price (st0 a)) ms)" "book_shape b1"
    "\<And>s. side_addrs s b1 \<subseteq> side_addrs s ?b \<union> (if s = is_buy (st0 a) \<and> o_remaining (st1 a) \<noteq> 0 then {a} else {})"
    "book_addrs b1 \<subseteq> book_addrs ?b \<union> (if o_remaining (st1 a) \<noteq> 0 then {a} else {})"
    by (rule book_match_trace [OF m shape]) (rule that, assumption+)
  have st1: "st1 = apply_fills a ms st0" "fst ` set ms \<subseteq> side_addrs (\<not> is_buy (st0 a)) ?b"
    "fill_sum ms + unat (o_remaining (st1 a)) = unat (o_remaining (st0 a))"
    "\<And>y. o_remaining (st1 y) \<le> o_remaining (st0 y)"
    using t(2) a(1) sides by (auto simp: filled_def)
  have ready1: "trading_ready gfree (w\<lparr>tr_store := st1\<rparr>)" using ready by (simp add: engine_ready_def trading_ready_def)
  obtain w' where w': "settle P Q a (fills_of (o_price (st0 a)) ms) (w\<lparr>tr_store := st1\<rparr>) (e\<lparr>me_queue := q, me_book := b1\<rparr>)
      = Inr (w', settled_engine st1 a ms (e\<lparr>me_queue := q, me_book := b1\<rparr>))"
    "trading_ready gfree w'" "tr_store w' = upd a final_status st1"
    "tr_positions w' = map_option (apply_position_fills (match_positions st1 a ms)) (tr_positions w)"
    using settle_ok [OF P ready1, where Q = Q and a = a and p = "o_price (st0 a)" and ms = ms
        and e = "e\<lparr>me_queue := q, me_book := b1\<rparr>"] by auto
  let ?e = "settled_engine st1 a ms (e\<lparr>me_queue := q, me_book := b1\<rparr>)"
  have e': "me_book ?e = b1" "me_queue ?e = q" by (simp_all add: settled_engine_def)
  have run: "r = Inr (w', ?e)"
    using r risk m t(1) w'(1) by (simp add: process_order_def Let_def st0_def [symmetric])
  have keep: "is_buy (tr_store w' y) = is_buy (?st y)" "o_symbol (tr_store w' y) = o_symbol (?st y)"
    "o_order_id (tr_store w' y) = o_order_id (?st y)" for y
    by (cases "y = a"; simp add: w'(3) st1(1) st0)+
  have active: "is_active (tr_store w' y) = (if y = a then o_remaining (st1 a) \<noteq> 0 else is_active (?st y))" for y
    by (simp add: w'(3)) (simp add: st1(1) st0)
  have filled: "well_filled (tr_store w' y)" if "well_filled (?st y)" for y
  proof -
    have "well_filled (st1 y)"
      using that st1(4) [of y] unfolding well_filled_def by (simp add: st1(1) st0) (metis order_trans)
    then show ?thesis by (cases "y = a") (simp_all add: w'(3) well_filled_def final_status_def)
  qed
  have sided: "book_sided (tr_store w') b1"
    unfolding book_sided_def keep
  proof (intro conjI allI ballI t(3))
    fix s y assume "y \<in> side_addrs s b1"
    then have "y \<in> side_addrs s ?b \<or> y = a \<and> s = is_buy (?st a)" using t(4) [of s] by (auto simp: st0 split: if_splits)
    then show "is_buy (?st y) = s" using own by (auto simp: engine_owns_def book_sided_def)
  qed
  have "engine_addrs contents ?e \<subseteq> engine_addrs contents e"
    using t(5) q by (auto simp: engine_addrs_def e' split: if_splits)
  moreover have "a \<in> engine_addrs contents ?e \<Longrightarrow> o_remaining (st1 a) \<noteq> 0"
    using t(5) a(1,2) by (auto simp: engine_addrs_def e' split: if_splits)
  ultimately have "\<forall>y \<in> engine_addrs contents ?e. y \<in> H \<and> is_active (tr_store w' y) \<and>
      cstr (o_symbol (tr_store w' y)) = symbol \<and> well_filled (tr_store w' y)"
    using own filled by (auto simp: engine_owns_def active keep)
  moreover have "o_filled (tr_store w' y) = 0 \<and> o_remaining (tr_store w' y) \<noteq> 0" if "y \<in> set (contents q)" for y
  proof -
    have "y \<noteq> a" "y \<notin> fst ` set ms" using that a(2,8) st1(2) sides by blast+
    then have "tr_store w' y = st0 y" by (simp add: w'(3) st1(1) apply_fills_other)
    then show ?thesis using own that q by (simp add: st0 engine_owns_def)
  qed
  moreover have "set (contents q) \<inter> book_addrs b1 = {}" using t(5) a(2,8) by (auto split: if_splits)
  ultimately have owns: "engine_owns contents H symbol (tr_store w') ?e"
    using sided a(7) by (auto simp: engine_owns_def e')
  have "trim_symbol (o_symbol (?st y)) = trim_symbol (o_symbol (?st a)) \<and> is_buy (?st y) = (\<not> is_buy (?st a))"
    if "y \<in> fst ` set ms" for y
  proof -
    have y: "y \<in> side_addrs (\<not> is_buy (?st a)) ?b" using that st1(2) by (auto simp: st0)
    then have "cstr (o_symbol (?st y)) = symbol" using own sides by (fastforce simp: engine_owns_def engine_addrs_def)
    then show ?thesis using y own a(5) unfolding engine_owns_def book_sided_def trim_symbol_def by metis
  qed
  moreover have "unat (o_filled (st1 a)) = fill_sum ms"
  proof -
    have "o_filled (st1 a) + o_remaining (st1 a) = o_remaining (st0 a)"
      using a(6) by (simp add: st1(1) st0)
    then have "o_filled (st1 a) = o_remaining (st0 a) - o_remaining (st1 a)" by (metis add_diff_cancel_right')
    moreover have "o_remaining (st1 a) \<le> o_remaining (st0 a)" using st1(3) by (simp add: word_le_nat_alt)
    ultimately show ?thesis using unat_sub [of "o_remaining (st1 a)" "o_remaining (st0 a)"] st1(3) by simp
  qed
  ultimately have "sum_list (map (signed_fill t) (match_positions st1 a ms)) = 0" for t
    by (intro match_flat) (simp_all add: st1(1) st0)
  then have "flat w'" using ready w'(4) flat_fills unfolding engine_ready_def flat_def by fastforce
  then have "engine_ready gfree w'"
    using ready w'(2) settle_gateway [OF w'(1)] by (simp add: engine_ready_def)
  then show thesis using that [OF run owns] keep(3) by blast
qed

lemma rejected_trace:
  assumes P: "object_pool P gfree" and own: "engine_owns contents H symbol (tr_store w) e"
    and ready: "engine_ready gfree w" and q: "contents (me_queue e) = a # contents q"
    and risk: "\<not> check_risk w a" and r: "process_order P Q a w (e\<lparr>me_queue := q\<rparr>) = Some r"
  obtains w' e' where "r = Inr (w', e')" "engine_owns contents H symbol (tr_store w') e'" "engine_ready gfree w'"
    "\<And>y. o_order_id (tr_store w' y) = o_order_id (tr_store w y)"
proof -
  obtain g where g: "tr_gateway w = Some g" "gateway_ready gfree g"
    using ready by (auto simp: engine_ready_def trading_ready_def)
  let ?st = "upd a (\<lambda>x. x\<lparr>o_status := REJECTED\<rparr>) (tr_store w)"
  obtain ok g1 where s: "send_report P Q (rejection_report (?st a)) (- 1) g = Inr (ok, g1)" "gateway_ready gfree g1"
    by (rule send_report_ready [OF P g(2)]) blast
  let ?w = "w\<lparr>tr_store := ?st, tr_gateway := Some g1\<rparr>" and ?e = "e\<lparr>me_queue := q, me_reject_count := me_reject_count e + 1\<rparr>"
  have run: "r = Inr (?w, ?e)"
    using r risk g(1) s(1) by (simp add: process_order_def reject_order_def Let_def del: upd_same)
  have "engine_owns contents (H - {a}) symbol (tr_store w) ?e"
    using own q by (auto simp: engine_owns_def engine_addrs_def)
  then have "engine_owns contents (H - {a}) symbol (tr_store ?w) ?e"
    by (rule engine_owns_store) (simp add: upd_def)
  then have "engine_owns contents H symbol (tr_store ?w) ?e" by (auto simp: engine_owns_def)
  moreover have "engine_ready gfree ?w"
    using ready s(2) by (simp add: engine_ready_def trading_ready_def flat_def)
  ultimately show thesis using that [OF run] by (simp add: upd_def)
qed

lemma process_trace:
  assumes "object_pool P gfree" "engine_owns contents H symbol (tr_store w) e" "engine_ready gfree w"
    "contents (me_queue e) = a # contents q" "process_order P Q a w (e\<lparr>me_queue := q\<rparr>) = Some r"
  obtains w' e' where "r = Inr (w', e')" "engine_owns contents H symbol (tr_store w') e'" "engine_ready gfree w'"
    "\<And>y. o_order_id (tr_store w' y) = o_order_id (tr_store w y)"
  by (cases "check_risk w a")
    (rule accepted_trace [OF assms(1-4) _ assms(5)] rejected_trace [OF assms(1-4) _ assms(5)], assumption, rule that, assumption+)+

subsection \<open>Cycles\<close>

lemma cycle_trace:
  fixes P :: "'p pool_ops" and Q :: "('q, addr) queue_ops" and OQ :: "('o, addr) queue_ops"
  assumes P: "object_pool P gfree" and OQ: "spsc_queue OQ contents cap"
    and I: "engine_owns contents H symbol (tr_store w) e" "engine_ready gfree w"
    and r: "run_match_cycle P Q OQ w e = Some r"
  obtains w' e' where "r = Inr (w', e')" "engine_owns contents H symbol (tr_store w') e'" "engine_ready gfree w'"
proof -
  let ?P = "\<lambda>(P :: 'p pool_ops) (Q :: ('q, addr) queue_ops) (OQ :: ('o, addr) queue_ops) w e
      (r :: (('p, 'q) trading \<times> 'o engine) res). object_pool P gfree \<and> spsc_queue OQ contents cap \<and>
    engine_owns contents H symbol (tr_store w) e \<and> engine_ready gfree w \<longrightarrow>
    (\<exists>w' e'. r = Inr (w', e') \<and> engine_owns contents H symbol (tr_store w') e' \<and> engine_ready gfree w')"
  let ?C = "\<lambda>((((P, Q), OQ), w), e). ?P P Q OQ w e"
  have "?C ((((P, Q), OQ), w), e) r"
  proof (rule run_match_cycle.raw_induct [where Pa = ?C, OF _ r], goal_cases)
    case (1 f P Q OQ w e r)
    obtain p q where pop: "q_pop OQ (me_queue e) = (p, q)" by fastforce
    show ?case unfolding prod.case
    proof (intro impI)
      assume I: "object_pool P gfree \<and> spsc_queue OQ contents cap \<and>
        engine_owns contents H symbol (tr_store w) e \<and> engine_ready gfree w"
      then have "spsc_queue OQ contents cap" by blast
      note c = spsc_queueD(3,4) [OF this, of "me_queue e"]
      show "\<exists>w' e'. r = Inr (w', e') \<and> engine_owns contents H symbol (tr_store w') e' \<and> engine_ready gfree w'"
      proof (cases p)
        case None
        then have "contents q = contents (me_queue e)" using pop c by (auto split: list.splits)
        then have "engine_owns contents H symbol (tr_store w) (e\<lparr>me_queue := q\<rparr>)"
          using I by (simp add: engine_owns_def engine_addrs_def)
        then show ?thesis using 1(2) pop None I by auto
      next
        case (Some a)
        then have c: "contents (me_queue e) = a # contents q" using pop c by (auto split: list.splits)
        obtain r1 where r1: "process_order P Q a w (e\<lparr>me_queue := q\<rparr>) = Some r1"
          using 1(2) pop Some by (auto split: Option.bind_splits)
        obtain w1 e1 where s: "r1 = Inr (w1, e1)" "engine_owns contents H symbol (tr_store w1) e1" "engine_ready gfree w1"
          using process_trace [OF _ _ _ c r1] I by blast
        have "f P Q OQ w1 e1 = Some r" using 1(2) pop Some r1 s(1) by simp
        from 1(1) [OF this] show ?thesis using I s unfolding prod.case by blast
      qed
    qed
  qed
  then show thesis using assms that unfolding prod.case by blast
qed

lemma sy_cycle_trace:
  assumes "object_pool P gfree" "spsc_queue OQ contents cap" "engine_owns contents H symbol (tr_store w) (sy_engine e)"
    "engine_ready gfree w" "sy_run_match_cycle P Q OQ w e = Some r"
  obtains w' e' where "r = Inr (w', e')" "engine_owns contents H symbol (tr_store w') (sy_engine e')" "engine_ready gfree w'"
proof -
  obtain r1 where r1: "run_match_cycle P Q OQ w (sy_engine e) = Some r1"
    "r = res_bind r1 (\<lambda>(w1, e1). Inr (w1, e\<lparr>sy_engine := e1\<rparr>))"
    using assms(5) by (auto simp: sy_run_match_cycle_def)
  obtain w' e' where "r1 = Inr (w', e')" "engine_owns contents H symbol (tr_store w') e'" "engine_ready gfree w'"
    by (rule cycle_trace [OF assms(1-4) r1(1)])
  then show thesis using that [of w' "e\<lparr>sy_engine := e'\<rparr>"] r1(2) by simp
qed

end
