(* ===== verification/Bot_Contract.thy ===== *)
theory Bot_Contract
  imports Main_Props
begin

text \<open>
  What all bots keep.  A property of the bots that every snapshot keeps, and that makes all
  submitted orders good for the queue of their symbol, holds of the bot manager in all runs: of
  its bots, and of the orders that wait in its queues.  The contract is stated once, as a locale,
  and used for every property of waiting orders.
\<close>

definition manager_holds ::
  "('oq \<Rightarrow> order list) \<Rightarrow> (bot \<Rightarrow> bool) \<Rightarrow> (string \<Rightarrow> order \<Rightarrow> bool) \<Rightarrow> ('oq, 'cq) bot_manager \<Rightarrow> bool" where
  "manager_holds contents B K m \<longleftrightarrow> manager_ok m \<and> (\<forall>b \<in> set (bm_bots m). B b) \<and>
     (\<forall>s. \<forall>x \<in> set (waiting contents m s). K s x)"

lemma manager_holds_cancel [simp]:
  "manager_holds contents B K (m\<lparr>bm_cancel_queue := q\<rparr>) = manager_holds contents B K m"
  by (simp add: manager_holds_def manager_ok_def waiting_def)

text \<open>Only the orders of bots that are registered reach a queue, and only those of their own symbol.\<close>

lemma pop_order_keeps:
  "pop_order_for_symbol Q s m = (r, m') \<Longrightarrow>
    bm_cancel_queue m' = bm_cancel_queue m \<and> bm_bots m' = bm_bots m \<and> bm_by_symbol m' = bm_by_symbol m"
  by (auto simp: pop_order_for_symbol_def split: option.splits prod.splits)

lemma pop_order_waiting:
  assumes "spsc_queue Q contents cap" "pop_order_for_symbol Q s m = (r, m')"
  shows "set (waiting contents m' t) \<subseteq> set (waiting contents m t)" "set_option r \<subseteq> set (waiting contents m s)"
  using waiting_pop [OF assms(1), of s m] assms(2)
  by (auto split: if_splits list.splits dest: list.set_sel(2))

lemma dispatch_cancel:
  "dispatch_bots Q fresh ds snap is (count, m) = (count', m') \<Longrightarrow> bm_cancel_queue m' = bm_cancel_queue m"
  by (induction "is" arbitrary: count m) (auto split: prod.splits)

lemma on_snapshot_cancel:
  "manager_on_snapshot Q fresh ds snap (count, m) = (count', m') \<Longrightarrow> bm_cancel_queue m' = bm_cancel_queue m"
  by (auto simp: manager_on_snapshot_def split: option.splits dest: dispatch_cancel)

locale bot_contract =
  fixes B :: "bot \<Rightarrow> bool" and K :: "string \<Rightarrow> order \<Rightarrow> bool" and S :: "book_snapshot \<Rightarrow> bool"
  assumes manager_law: "B b \<Longrightarrow> B (set_manager b)"
    and start_law: "b \<in> set (symbol_bots s) \<Longrightarrow> B b"
    and snapshot_law: "\<lbrakk>bot_on_snapshot d snap count b = (count', b', out); S snap; B b\<rbrakk>
      \<Longrightarrow> B b' \<and> (\<forall>x \<in> set out. K (cstr (o_symbol x)) x)"
begin

lemma submit_holds:
  assumes "spsc_queue Q contents cap" "contents fresh = []"
  shows "\<lbrakk>\<forall>s. \<forall>x \<in> set (waiting contents m s). K s x; \<forall>x \<in> set out. K (cstr (o_symbol x)) x\<rbrakk>
    \<Longrightarrow> \<forall>s. \<forall>x \<in> set (waiting contents (fold (submit_bot_order Q fresh b) out m) s). K s x"
proof (induction out arbitrary: m)
  case (Cons x out)
  have "\<forall>s. \<forall>y \<in> set (waiting contents (submit_bot_order Q fresh b x m) s). K s y"
    using Cons.prems by (auto simp: submit_bot_order_def waiting_push [OF assms] split: if_splits)
  then show ?case using Cons.IH Cons.prems(2) by simp
qed simp

text \<open>What the manager lists stays in place while its bots run.\<close>

lemma dispatch_holds:
  assumes Q: "spsc_queue Q contents cap" "contents fresh = []" and snap: "S snap"
  shows "\<lbrakk>dispatch_bots Q fresh ds snap is (count, m) = (count', m'); manager_holds contents B K m;
      \<forall>i \<in> set is. i < length (bm_bots m)\<rbrakk> \<Longrightarrow> manager_holds contents B K m'"
proof (induction "is" arbitrary: count m)
  case (Cons i "is")
  obtain c b out where b: "bot_on_snapshot (ds i) snap count (bm_bots m ! i) = (c, b, out)"
    by (metis prod_cases3)
  let ?m = "fold (submit_bot_order Q fresh b) out (m\<lparr>bm_bots := (bm_bots m)[i := b]\<rparr>)"
  have i: "i < length (bm_bots m)" using Cons.prems(3) by simp
  have t: "B b \<and> (\<forall>x \<in> set out. K (cstr (o_symbol x)) x)"
    using snapshot_law [OF b snap] Cons.prems(2) i by (simp add: manager_holds_def)
  note base = bot_on_snapshot_base [OF b]
  have "manager_ok ?m"
    using Cons.prems(2) base i by (fastforce simp: manager_holds_def manager_ok_def nth_list_update)
  moreover have "\<forall>x \<in> set (bm_bots ?m). B x"
    using Cons.prems(2) t by (auto simp: manager_holds_def dest!: set_update_subset_insert [THEN subsetD])
  moreover have "\<forall>s. \<forall>x \<in> set (waiting contents ?m s). K s x"
    by (rule submit_holds [OF Q]) (use Cons.prems(2) t in \<open>simp_all add: manager_holds_def\<close>)
  ultimately have "manager_holds contents B K ?m" by (simp add: manager_holds_def)
  moreover have "dispatch_bots Q fresh ds snap is (c, ?m) = (count', m')" using Cons.prems(1) b by simp
  ultimately show ?case using Cons.IH Cons.prems(3) by simp
qed auto

lemma on_snapshot_holds:
  assumes "spsc_queue Q contents cap" "contents fresh = []" "S snap"
    "manager_on_snapshot Q fresh ds snap (count, m) = (count', m')" "manager_holds contents B K m"
  shows "manager_holds contents B K m'"
proof (cases "bm_by_symbol m (cstr (bs_symbol snap))")
  case None
  then show ?thesis using assms(4,5) by (simp add: manager_on_snapshot_def)
next
  case (Some "is")
  then have "\<forall>i \<in> set is. i < length (bm_bots m)" using assms(5) by (auto simp: manager_holds_def manager_ok_def)
  then show ?thesis using dispatch_holds [OF assms(1-3)] assms(4,5) Some by (auto simp: manager_on_snapshot_def)
qed

lemma pop_order_holds:
  assumes "spsc_queue Q contents cap" "manager_holds contents B K m" "pop_order_for_symbol Q s m = (r, m')"
  shows "manager_holds contents B K m'" "r = Some x \<Longrightarrow> K s x"
proof -
  note w = pop_order_waiting [OF assms(1,3)]
  show "manager_holds contents B K m'"
    using assms(2) w(1) pop_order_keeps [OF assms(3)] by (fastforce simp: manager_holds_def manager_ok_def)
  show "r = Some x \<Longrightarrow> K s x" using assms(2) w(2) by (auto simp: manager_holds_def)
qed

lemma register_holds: "\<lbrakk>manager_holds contents B K m; B b\<rbrakk> \<Longrightarrow> manager_holds contents B K (register_bot b m)"
  using manager_ok_register [of m b] by (auto simp: manager_holds_def register_bot_def Let_def waiting_def manager_law)

lemma register_all_holds:
  "\<lbrakk>manager_holds contents B K m; \<forall>b \<in> set bs. B b\<rbrakk> \<Longrightarrow> manager_holds contents B K (fold register_bot bs m)"
  by (induction bs arbitrary: m) (simp_all add: register_holds)

lemma main_manager_holds: "manager_holds contents B K (main_manager oq cq)"
proof -
  have "manager_holds contents B K (fold (\<lambda>s. fold register_bot (symbol_bots s)) ss m)"
    if "manager_holds contents B K m" for ss and m :: "('a, 'b) bot_manager"
    using that by (induction ss arbitrary: m) (simp_all add: register_all_holds start_law)
  moreover have "manager_holds contents B K (new_bot_manager oq cq)"
    using manager_ok_new by (simp add: manager_holds_def new_bot_manager_def waiting_def)
  ultimately show ?thesis by (simp add: main_manager_def)
qed

end

end
