(* ===== verification/Program_Owns.thy ===== *)
theory Program_Owns
  imports Program_Snapshots Engine_Trace Bot_Contract
begin

text \<open>
  Who owns which order.  Every object of a bot pool belongs to one snapshot thread: it is free in
  the thread's pool, or its handle lies in the thread's storage.  What an engine can reach is held
  by the thread of its symbol.  No pass of any thread breaks this, so no pass can fault, and all
  fills of a match are of one symbol.
\<close>

subsection \<open>What waits at the bot manager\<close>

text \<open>Every order is queued under its symbol, and asks for something: no bot has the quantity zero.\<close>

fun bot_sized :: "bot \<Rightarrow> bool" where
  "bot_sized (Market_Maker b) = (mm_quantity b \<noteq> 0)"
| "bot_sized (Spread_Bot b) = (sb_quantity b \<noteq> 0)"
| "bot_sized (Random_Walk b) = (rw_quantity b \<noteq> 0 \<and> (\<forall>k \<in> {3, 4, 5, 6, 7}. rw_quantity b * k \<noteq> 0))"
| "bot_sized (Mean_Reversion b) = (mr_quantity b \<noteq> 0)"
| "bot_sized (Momentum b) = (mo_quantity b \<noteq> 0)"

lemma spike_factor: "3 + of_nat (n mod 5) \<in> {3, 4, 5, 6, 7 :: u32}"
proof -
  have "n mod 5 = 0 \<or> n mod 5 = 1 \<or> n mod 5 = 2 \<or> n mod 5 = 3 \<or> n mod 5 = 4"
    using mod_less_divisor [of 5 n] by linarith
  then show ?thesis by auto
qed

lemma bot_on_snapshot_sized:
  assumes "bot_on_snapshot d snap count b = (count', b', out)" "bot_sized b"
  shows "bot_sized b' \<and> (\<forall>x \<in> set out. o_quantity x \<noteq> 0)"
  using assms spike_factor [of "dr_gen d"]
  by (cases b) (auto simp: mm_on_snapshot_def mm_quote_def sb_on_snapshot_def rw_on_snapshot_def
      mr_on_snapshot_def mr_record_def mo_on_snapshot_def place_defs Let_def
      split: prod.splits if_splits)

lemma symbol_bots_sized: "b \<in> set (symbol_bots s) \<Longrightarrow> bot_sized b"
  by (auto simp: symbol_bots_def new_market_maker_def new_spread_bot_def new_random_walk_def new_mean_reversion_def
      new_momentum_def)

interpretation sized: bot_contract bot_sized "\<lambda>s x. cstr (o_symbol x) = s \<and> o_quantity x \<noteq> 0" "\<lambda>snap. True"
proof unfold_locales
  show "bot_sized (set_manager b)" if "bot_sized b" for b using that by (cases b) simp_all
qed (simp_all add: symbol_bots_sized bot_on_snapshot_sized)

definition keyed :: "('oq \<Rightarrow> order list) \<Rightarrow> ('oq, 'cq) bot_manager \<Rightarrow> bool" where
  "keyed contents m \<longleftrightarrow> manager_holds contents bot_sized (\<lambda>s x. cstr (o_symbol x) = s \<and> o_quantity x \<noteq> 0) m"

lemmas keyed_on_snapshot = sized.on_snapshot_holds [OF _ _ TrueI, folded keyed_def]
lemmas keyed_pop = sized.pop_order_holds [folded keyed_def]
lemmas keyed_start = sized.main_manager_holds [folded keyed_def]

subsection \<open>A snapshot thread\<close>

definition thread_owns ::
  "('p \<Rightarrow> addr set) \<Rightarrow> ('o \<Rightarrow> addr list) \<Rightarrow> string \<Rightarrow> ('p, 'oq, 'cq, 'o) thread_state \<Rightarrow> bool" where
  "thread_owns free contents symbol t \<longleftrightarrow>
     engine_owns contents (set (th_storage t)) symbol (th_store t) (sy_engine (th_engine t)) \<and>
     set (th_storage t) \<inter> free (th_pool t) = {}"

lemma engine_owns_push:
  assumes OQ: "spsc_queue OQ contents cap" and own: "engine_owns contents H symbol st e"
    and a: "a \<notin> H" "is_active x" "cstr (o_symbol x) = symbol" "o_filled x = 0" "o_remaining x \<noteq> 0" "well_filled x"
  shows "engine_owns contents (insert a H) symbol (st(a := x)) (snd (submit_order OQ (Some a) e))"
proof -
  obtain ok q where q: "q_push OQ a (me_queue e) = (ok, q)" by fastforce
  have c: "contents q = contents (me_queue e) \<or> contents q = contents (me_queue e) @ [a]"
    using spsc_queueD(2) [OF OQ, of a "me_queue e"] q by auto
  have new: "a \<notin> engine_addrs contents e" using own a(1) by (auto simp: engine_owns_def)
  define st' where "st' = st(a := x)"
  have old: "engine_owns contents H symbol st' e"
    by (rule engine_owns_store [OF own]) (use a(1) in \<open>auto simp: st'_def\<close>)
  have "st' a = x" by (simp add: st'_def)
  moreover have "set (contents q) \<subseteq> insert a (set (contents (me_queue e)))" "distinct (contents q)"
    using c new old by (auto simp: engine_owns_def engine_addrs_def)
  ultimately have "engine_owns contents (insert a H) symbol st' (e\<lparr>me_queue := q\<rparr>)"
    using old new a(2-6) unfolding engine_owns_def engine_addrs_def by auto
  then show ?thesis by (simp add: submit_order_def q st'_def)
qed

text \<open>Taking orders leaves the engine's book and the orders that the thread holds as they are.\<close>

definition thread_grows :: "('p, 'oq, 'cq, 'o) thread_state \<Rightarrow> ('p, 'oq, 'cq, 'o) thread_state \<Rightarrow> bool" where
  "thread_grows t t' \<longleftrightarrow> me_book (sy_engine (th_engine t')) = me_book (sy_engine (th_engine t)) \<and>
     set (th_storage t) \<subseteq> set (th_storage t') \<and> (\<forall>a \<in> set (th_storage t). th_store t' a = th_store t a)"

lemma thread_grows_trans: "\<lbrakk>thread_grows t t1; thread_grows t1 t2\<rbrakk> \<Longrightarrow> thread_grows t t2"
  by (auto simp: thread_grows_def)

lemma thread_grows_manager [simp]:
  "thread_grows t (t\<lparr>th_manager := m\<rparr>)" "thread_grows (t\<lparr>th_manager := m\<rparr>) t' = thread_grows t t'"
  by (simp_all add: thread_grows_def)

lemma take_order_owns:
  assumes P: "object_pool P free" and OQ: "spsc_queue OQ contents cap"
    and own: "thread_owns free contents symbol t" and x: "cstr (o_symbol x) = symbol" "o_quantity x \<noteq> 0"
  shows "thread_owns free contents symbol (take_order P OQ x t)" "th_manager (take_order P OQ x t) = th_manager t"
    "thread_grows t (take_order P OQ x t)"
proof -
  obtain r pool where acq: "p_acquire P (th_pool t) = (r, pool)" by fastforce
  show "th_manager (take_order P OQ x t) = th_manager t" by (simp add: take_order_def acq split: option.split)
  have "thread_owns free contents symbol (take_order P OQ x t) \<and> thread_grows t (take_order P OQ x t)"
  proof (cases r)
    case None
    then show ?thesis
      using own acquire_free(1) [OF P acq] by (auto simp: take_order_def acq thread_owns_def thread_grows_def)
  next
    case (Some a)
    note f = object_poolD(1,2) [OF P, of "th_pool t" a pool] acq [unfolded Some]
    have a: "a \<notin> set (th_storage t)" using own f by (auto simp: thread_owns_def)
    have "engine_owns contents (insert a (set (th_storage t))) symbol ((th_store t)(a := activate x))
        (snd (submit_order OQ (Some a) (sy_engine (th_engine t))))"
      by (rule engine_owns_push [OF OQ _ a]) (use own x in \<open>simp_all add: thread_owns_def activate_def is_active_def well_filled_def\<close>)
    moreover have "me_book (snd (submit_order OQ (Some a) (sy_engine (th_engine t)))) = me_book (sy_engine (th_engine t))"
      by (simp add: submit_order_def split: prod.split)
    ultimately show ?thesis
      using own f a by (auto simp: take_order_def acq Some thread_owns_def thread_grows_def on_market_order_def split: prod.splits)
  qed
  then show "thread_owns free contents symbol (take_order P OQ x t)" "thread_grows t (take_order P OQ x t)" by simp_all
qed

lemma take_orders_owns:
  assumes Q: "spsc_queue Q qcontents qcap" and OQ: "spsc_queue OQ contents cap" and P: "object_pool P free"
  shows "\<lbrakk>thread_owns free contents symbol t; keyed qcontents (th_manager t)\<rbrakk>
    \<Longrightarrow> \<exists>t'. take_orders Q P OQ symbol t = Some t' \<and> thread_owns free contents symbol t' \<and>
      keyed qcontents (th_manager t') \<and> bm_cancel_queue (th_manager t') = bm_cancel_queue (th_manager t) \<and> thread_grows t t'"
proof (induction "length (waiting qcontents (th_manager t) symbol)" arbitrary: t)
  case 0
  obtain r m where pop: "pop_order_for_symbol Q symbol (th_manager t) = (r, m)" by fastforce
  have "r = None" using waiting_pop(1) [OF Q, of symbol "th_manager t"] pop 0(1) by simp
  then have "take_orders Q P OQ symbol t = Some (t\<lparr>th_manager := m\<rparr>)" by (simp add: take_orders.simps pop)
  then show ?case
    using keyed_pop(1) [OF Q 0(3) pop] pop_order_keeps [OF pop] 0(2) by (simp add: thread_owns_def)
next
  case (Suc n)
  obtain x xs where w: "waiting qcontents (th_manager t) symbol = x # xs" using Suc(2) by (metis length_Suc_conv)
  obtain m where pop: "pop_order_for_symbol Q symbol (th_manager t) = (Some x, m)"
    "\<And>s. waiting qcontents m s = (if s = symbol then xs else waiting qcontents (th_manager t) s)"
    using waiting_pop [OF Q, of symbol "th_manager t"] w by (cases "pop_order_for_symbol Q symbol (th_manager t)") auto
  let ?t = "take_order P OQ x (t\<lparr>th_manager := m\<rparr>)"
  have x: "cstr (o_symbol x) = symbol" "o_quantity x \<noteq> 0"
    using keyed_pop(2) [OF Q Suc.prems(2) pop(1)] by simp_all
  have "thread_owns free contents symbol (t\<lparr>th_manager := m\<rparr>)" using Suc.prems(1) by (simp add: thread_owns_def)
  note o = take_order_owns [OF P OQ this x]
  have "keyed qcontents (th_manager ?t)" using keyed_pop(1) [OF Q Suc.prems(2) pop(1)] o(2) by simp
  moreover have "n = length (waiting qcontents (th_manager ?t) symbol)" using Suc(2) w o(2) pop(2) by simp
  ultimately obtain t' where "take_orders Q P OQ symbol ?t = Some t'" "thread_owns free contents symbol t'"
    "keyed qcontents (th_manager t')" "bm_cancel_queue (th_manager t') = bm_cancel_queue (th_manager ?t)" "thread_grows ?t t'"
    using Suc(1) o(1) by blast
  moreover have "thread_grows t ?t" using o(3) by simp
  ultimately show ?case
    using pop(1) pop_order_keeps [OF pop(1)] o(2) thread_grows_trans by (fastforce simp: take_orders.simps [of _ _ _ _ t])
qed

lemma sweep_owns:
  assumes P: "object_pool P free" and own: "thread_owns free contents symbol t"
  shows "thread_owns free contents symbol (sweep_storage P t)"
proof -
  have "engine_addrs contents (sy_engine (th_engine t)) \<subseteq> {a \<in> set (th_storage t). is_active (th_store t a)}"
    using own by (auto simp: thread_owns_def engine_owns_def)
  then show ?thesis
    using own by (auto simp: thread_owns_def engine_owns_def sweep_simps sweep_storage_def [THEN arg_cong, of th_pool]
        Let_def free_drops [OF P] is_active_def)
qed

subsection \<open>Polls\<close>

lemma poll_total:
  assumes m: "well_sized m" and b: "book_shape b"
  obtains r m' where "poll_snapshot b m = Inr (r, m')" "well_sized m'"
proof (cases "find_free_node m")
  case None
  have keep: "well_sized (m\<lparr>sm_nodes := (sm_nodes m)[k := (sm_nodes m ! k)\<lparr>sn_ref_count := n\<rparr>]\<rparr>)" if "well_sized m" for k n m
  proof (cases "k < length (sm_nodes m)")
    case True
    then have "sm_nodes m ! k \<in> set (sm_nodes m)" by simp
    then show ?thesis using that by (auto simp: well_sized_def sized_def dest!: set_update_subset_insert [THEN subsetD])
  qed (use that in \<open>simp add: well_sized_def list_update_beyond\<close>)
  have u: "update_snapshot b m = Inr m" using None by (simp add: update_snapshot_def)
  obtain r m1 where g: "get_snapshot m = (r, m1)" by fastforce
  have m1: "well_sized m1"
    using g m keep [OF m] by (auto simp: get_snapshot_def split: option.splits)
  have "well_sized (release_snapshot r m1)"
    using m1 keep [OF m1] by (simp add: release_snapshot_def split: option.split)
  then have "\<exists>x m'. poll_snapshot b m = Inr (x, m') \<and> well_sized m'"
    using m1 g by (cases r) (simp_all add: poll_snapshot_def u Let_def)
  then show thesis using that by blast
next
  case (Some k)
  then have "k < length (sm_nodes m)" using find_free_bound [of "sm_nodes m" "sm_current m" 0 k] by (simp add: find_free_node_def)
  then show thesis by (rule poll_at [OF m b Some]) (rule that)
qed

subsection \<open>A whole pass of a snapshot thread\<close>

lemma snapshot_cycle_owns:
  assumes P: "object_pool P free" and OQ: "spsc_queue OQ contents cap"
    and Q: "spsc_queue Q qcontents qcap" "qcontents fresh = []"
    and own: "thread_owns free contents symbol t" "keyed qcontents (th_manager t)"
    and poll: "well_sized sm" "book_shape (sy_book (th_engine t))"
  obtains sm' count' t' where "snapshot_cycle Q fresh P OQ ds symbol (sm, count, t) = Some (Inr (sm', count', t'))"
    "thread_owns free contents symbol t'" "keyed qcontents (th_manager t')" "well_sized sm'"
    "bm_cancel_queue (th_manager t') = bm_cancel_queue (th_manager t)"
    "me_book (sy_engine (th_engine t')) = me_book (sy_engine (th_engine t))"
    "\<forall>a \<in> set (th_storage t). th_store t' a = th_store t a"
proof -
  obtain r sm1 where r: "poll_snapshot (sy_book (th_engine t)) sm = Inr (r, sm1)" "well_sized sm1"
    by (rule poll_total [OF poll])
  obtain count1 m1 where d: "(case r of None \<Rightarrow> (count, th_manager t)
      | Some snap \<Rightarrow> manager_on_snapshot Q fresh ds snap (count, th_manager t)) = (count1, m1)" by fastforce
  have m1: "keyed qcontents m1 \<and> bm_cancel_queue m1 = bm_cancel_queue (th_manager t)"
    using d own(2) on_snapshot_cancel keyed_on_snapshot [OF Q] by (cases r) fastforce+
  have "thread_owns free contents symbol (t\<lparr>th_manager := m1\<rparr>)" using own(1) by (simp add: thread_owns_def)
  then obtain t1 where t1: "take_orders Q P OQ symbol (t\<lparr>th_manager := m1\<rparr>) = Some t1" "thread_owns free contents symbol t1"
    "keyed qcontents (th_manager t1)" "bm_cancel_queue (th_manager t1) = bm_cancel_queue m1" "thread_grows t t1"
    using take_orders_owns [OF Q(1) OQ P, of symbol "t\<lparr>th_manager := m1\<rparr>"] m1 by auto
  have "snapshot_cycle Q fresh P OQ ds symbol (sm, count, t) = Some (Inr (sm1, count1, sweep_storage P t1))"
    using r(1) d t1(1) by (simp add: snapshot_cycle_def sy_order_book_def)
  then show thesis
    using that sweep_owns [OF P t1(2)] t1(3-5) m1 r(2) by (simp add: sweep_simps thread_grows_def)
qed

subsection \<open>The invariant of the program\<close>

text \<open>
  The pool and the storage of one thread are apart from those of every other; \<open>ready\<close> collects
  what the worker threads need.
\<close>

definition region :: "('p \<Rightarrow> addr set) \<Rightarrow> 'p snapshot_thread \<Rightarrow> addr set" where
  "region free t = free (st_pool t) \<union> set (st_storage t)"

definition regions_apart :: "('p \<Rightarrow> addr set) \<Rightarrow> 'p snapshot_thread list \<Rightarrow> bool" where
  "regions_apart free ts \<longleftrightarrow> (\<forall>i < length ts. \<forall>j < length ts. i \<noteq> j \<longrightarrow> region free (ts ! i) \<inter> region free (ts ! j) = {})"

definition program_owns ::
  "('p \<Rightarrow> addr set) \<Rightarrow> ('o \<Rightarrow> addr list) \<Rightarrow> ('oq \<Rightarrow> order list) \<Rightarrow> ('cq \<Rightarrow> u64 list) \<Rightarrow> ('g \<Rightarrow> addr set)
    \<Rightarrow> ('g, 'q, 'o, 'oq, 'cq, 'p) program \<Rightarrow> bool" where
  "program_owns free contents qcontents ccontents gfree s \<longleftrightarrow>
     map st_symbol (pg_threads s) = symbols \<and> regions_apart free (pg_threads s) \<and>
     (\<forall>i < 5. thread_owns free contents (symbols ! i) (thread_view s i (pg_threads s ! i)) \<and>
        well_sized (st_manager (pg_threads s ! i))) \<and>
     keyed qcontents (pg_bots s) \<and> ccontents (bm_cancel_queue (pg_bots s)) = [] \<and> engine_ready gfree (pg_trading s)"

text \<open>A thread keeps what it owns while the others work in their own regions.\<close>

lemma thread_owns_view:
  assumes "thread_owns free contents symbol (thread_view s i t)" "st_pool t' = st_pool t" "st_storage t' = st_storage t"
    "sy_engine (pg_engines s' ! i) = sy_engine (pg_engines s ! i)"
    "\<forall>a \<in> set (st_storage t). tr_store (pg_trading s') a = tr_store (pg_trading s) a"
  shows "thread_owns free contents symbol (thread_view s' i t')"
proof -
  have "engine_owns contents (set (st_storage t)) symbol (tr_store (pg_trading s)) (sy_engine (pg_engines s ! i))"
    using assms(1) by (simp add: thread_owns_def thread_view_def)
  from engine_owns_store [OF this assms(5)] show ?thesis
    using assms(1-4) by (simp add: thread_owns_def thread_view_def)
qed

lemma program_owns_parts:
  assumes "program_owns free contents qcontents ccontents gfree s" "i < 5"
  shows "engine_owns contents (set (st_storage (pg_threads s ! i))) (symbols ! i) (tr_store (pg_trading s)) (sy_engine (pg_engines s ! i))"
    "length (pg_threads s) = 5"
    "j < 5 \<Longrightarrow> j \<noteq> i \<Longrightarrow> region free (pg_threads s ! j) \<inter> region free (pg_threads s ! i) = {}"
proof -
  show l: "length (pg_threads s) = 5"
    using assms(1) symbols_distinct(2) by (metis length_map program_owns_def)
  show "engine_owns contents (set (st_storage (pg_threads s ! i))) (symbols ! i) (tr_store (pg_trading s)) (sy_engine (pg_engines s ! i))"
    using assms by (simp add: program_owns_def thread_owns_def thread_view_def)
  show "j < 5 \<Longrightarrow> j \<noteq> i \<Longrightarrow> region free (pg_threads s ! j) \<inter> region free (pg_threads s ! i) = {}"
    using assms l by (simp add: program_owns_def regions_apart_def)
qed

text \<open>The workers.\<close>

lemma worker_pass_owns:
  assumes gP: "object_pool (lib_report_pool L) gfree" and OQ: "spsc_queue (lib_order_queue L) contents cap"
    and own: "program_owns free contents qcontents ccontents gfree s" and len: "length (pg_engines s) = 5" and i: "i < 5"
    and r: "worker_pass L i s = Some r"
  obtains s' where "r = Inr s'" "program_owns free contents qcontents ccontents gfree s'"
proof -
  let ?e = "pg_engines s ! i" and ?w = "pg_trading s"
  note e = program_owns_parts(1) [OF own i]
  have ready: "engine_ready gfree ?w" using own by (simp add: program_owns_def)
  obtain r1 where r1: "sy_run_match_cycle (lib_report_pool L) (lib_report_queue L) (lib_order_queue L) ?w ?e = Some r1"
    "r = res_bind r1 (\<lambda>(w, e). Inr (s\<lparr>pg_trading := w, pg_engines := (pg_engines s)[i := e]\<rparr>))"
    using r by (auto simp: worker_pass_def)
  obtain w e' where c: "r1 = Inr (w, e')"
    "engine_owns contents (set (st_storage (pg_threads s ! i))) (symbols ! i) (tr_store w) (sy_engine e')" "engine_ready gfree w"
    by (rule sy_cycle_trace [OF gP OQ e ready r1(1)])
  let ?s = "s\<lparr>pg_trading := w, pg_engines := (pg_engines s)[i := e']\<rparr>"
  have "engine_addrs contents (sy_engine ?e) \<subseteq> set (st_storage (pg_threads s ! i))" using e by (simp add: engine_owns_def)
  then have u: "untouched (set (st_storage (pg_threads s ! i))) (tr_store ?w) (tr_store w)"
    using sy_cycle_frame(1) [OF OQ, of _ _ ?w ?e w e'] r1(1) c(1) by (blast intro: untouched_mono)
  have "thread_owns free contents (symbols ! j) (thread_view ?s j (pg_threads s ! j))" if j: "j < 5" for j
  proof (cases "j = i")
    case True
    then show ?thesis using own c(2) len i by (simp add: program_owns_def thread_owns_def thread_view_def)
  next
    case False
    have "a \<notin> set (st_storage (pg_threads s ! i))" if "a \<in> set (st_storage (pg_threads s ! j))" for a
      using program_owns_parts(3) [OF own i j False] that by (auto simp: region_def)
    then have st: "\<forall>a \<in> set (st_storage (pg_threads s ! j)). tr_store w a = tr_store ?w a" using u by (simp add: untouched_def)
    have "thread_owns free contents (symbols ! j) (thread_view s j (pg_threads s ! j))"
      using own j by (simp add: program_owns_def)
    then show ?thesis by (rule thread_owns_view) (use st False in simp_all)
  qed
  then have "program_owns free contents qcontents ccontents gfree ?s" using own c(3) by (simp add: program_owns_def)
  then show thesis using that r1(2) c(1) by simp
qed

text \<open>The other threads change neither the books in which orders are matched nor the orders that are held.\<close>

definition books_kept :: "('g, 'q, 'o, 'oq, 'cq, 'p) program \<Rightarrow> ('g, 'q, 'o, 'oq, 'cq, 'p) program \<Rightarrow> bool" where
  "books_kept s s' \<longleftrightarrow> (\<forall>i < 5. me_book (sy_engine (pg_engines s' ! i)) = me_book (sy_engine (pg_engines s ! i)) \<and>
     (\<forall>a \<in> set (st_storage (pg_threads s ! i)). tr_store (pg_trading s') a = tr_store (pg_trading s) a))"

text \<open>The snapshot threads.\<close>

lemma regions_apart_update:
  assumes "regions_apart free ts" "region free t \<subseteq> region free (ts ! i)"
  shows "regions_apart free (ts[i := t])"
  unfolding regions_apart_def
proof (intro allI impI)
  fix j k assume j: "j < length (ts[i := t])" "k < length (ts[i := t])" "j \<noteq> k"
  have "region free (ts[i := t] ! l) \<subseteq> region free (ts ! l)" if "l < length ts" for l
    using that assms(2) by (cases "l = i") simp_all
  moreover have "region free (ts ! j) \<inter> region free (ts ! k) = {}" using assms(1) j by (simp add: regions_apart_def)
  ultimately show "region free (ts[i := t] ! j) \<inter> region free (ts[i := t] ! k) = {}" using j by (simp add: disjoint_iff) blast
qed

lemma thread_view_put:
  assumes "i < length (pg_engines s)" "i < length (pg_threads s)"
  shows "thread_view (put_view i i (sm, count, t) s) i (pg_threads (put_view i i (sm, count, t) s) ! i) = t"
  using assms by (simp add: thread_view_def put_view_def)

lemma snapshot_pass_owns:
  assumes P: "object_pool (lib_order_pool L) free" and OQ: "spsc_queue (lib_order_queue L) contents cap"
    and Q: "spsc_queue (lib_bot_queue L) qcontents qcap" "qcontents (lib_new_bot_queue L) = []"
    and own: "program_owns free contents qcontents ccontents gfree s"
    and inv: "program_inv free contents S B q s" and i: "i < 5"
  obtains s' where "snapshot_pass L ds i s = Some (Inr s')" "program_owns free contents qcontents ccontents gfree s'"
    "books_kept s s'"
proof -
  let ?t = "pg_threads s ! i" and ?v = "thread_view s i (pg_threads s ! i)"
  have len: "length (pg_threads s) = 5" "length (pg_engines s) = 5"
    using program_owns_parts(2) [OF own i] engines_five [OF inv] by simp_all
  have sym: "st_symbol ?t = symbols ! i" using own len i by (metis nth_map program_owns_def)
  have find: "find_engine (symbols ! i) (pg_engines s) = Some i"
    by (rule find_engine_nth [of _ symbols]) (use inv i symbols_distinct in \<open>simp_all add: program_inv_def\<close>)
  have shape: "book_shape (sy_book (th_engine ?v))"
    using unstarted_book(1) [OF inv _ i] started_book [OF inv _ i] by (cases "pg_started s") (simp_all add: thread_view_def)
  have o: "thread_owns free contents (symbols ! i) ?v" "keyed qcontents (th_manager ?v)" "well_sized (st_manager ?t)"
    using own i by (simp_all add: program_owns_def thread_view_def)
  obtain sm count t' where c: "snapshot_cycle (lib_bot_queue L) (lib_new_bot_queue L) (lib_order_pool L) (lib_order_queue L)
      ds (symbols ! i) (st_manager ?t, pg_count s, ?v) = Some (Inr (sm, count, t'))"
    "thread_owns free contents (symbols ! i) t'" "keyed qcontents (th_manager t')" "well_sized sm"
    "bm_cancel_queue (th_manager t') = bm_cancel_queue (th_manager ?v)"
    "me_book (sy_engine (th_engine t')) = me_book (sy_engine (th_engine ?v))"
    "\<forall>a \<in> set (th_storage ?v). th_store t' a = th_store ?v a"
    by (rule snapshot_cycle_owns [OF P OQ Q o shape])
  let ?s = "put_view i i (sm, count, t') s"
  note f = snapshot_cycle_frame [OF P OQ c(1)]
  have sub: "thread_addrs free contents ?v \<subseteq> region free ?t"
    using o(1) by (auto simp: thread_addrs_def region_def thread_owns_def engine_owns_def thread_view_def)
  have new: "pg_threads ?s = (pg_threads s)[i := ?t\<lparr>st_manager := sm, st_pool := th_pool t', st_storage := th_storage t'\<rparr>]"
    by (simp add: put_view_def)
  have st: "\<forall>a \<in> set (st_storage (pg_threads s ! j)). tr_store (pg_trading ?s) a = tr_store (pg_trading s) a"
    if j: "j < 5" for j
  proof (cases "j = i")
    case True
    then show ?thesis using c(7) by (simp add: put_view_def thread_view_def)
  next
    case False
    show ?thesis
    proof
      fix a assume "a \<in> set (st_storage (pg_threads s ! j))"
      then have "a \<notin> region free ?t" using program_owns_parts(3) [OF own i j False] by (auto simp: region_def)
      then show "tr_store (pg_trading ?s) a = tr_store (pg_trading s) a"
        using untouched_mono [OF f(1) sub] by (simp add: untouched_def put_view_def thread_view_def)
    qed
  qed
  have "me_book (sy_engine (pg_engines ?s ! j)) = me_book (sy_engine (pg_engines s ! j))" if "j < 5" for j
    using c(6) len i by (cases "j = i") (simp_all add: put_view_def thread_view_def)
  then have kept: "books_kept s ?s" using st by (simp add: books_kept_def)
  have "thread_owns free contents (symbols ! j) (thread_view ?s j (pg_threads ?s ! j)) \<and> well_sized (st_manager (pg_threads ?s ! j))"
    if j: "j < 5" for j
  proof (cases "j = i")
    case True
    then show ?thesis using thread_view_put [of i s sm count t'] c(2,4) len i by (simp add: new)
  next
    case False
    have old: "thread_owns free contents (symbols ! j) (thread_view s j (pg_threads s ! j))" "well_sized (st_manager (pg_threads s ! j))"
      using own j by (simp_all add: program_owns_def)
    have "thread_owns free contents (symbols ! j) (thread_view ?s j (pg_threads ?s ! j))"
      by (rule thread_owns_view [OF old(1)]) (use st [OF j] False in \<open>simp_all add: new, simp add: put_view_def\<close>)
    then show ?thesis using old(2) False by (simp add: new)
  qed
  moreover have "map st_symbol (pg_threads ?s) = symbols"
    using own sym len i by (simp add: new map_update program_owns_def)
  moreover have "regions_apart free (pg_threads ?s)"
    unfolding new by (rule regions_apart_update) (use own f(2) sub in \<open>auto simp: program_owns_def region_def thread_addrs_def\<close>)
  moreover have "engine_ready gfree (pg_trading ?s)"
    using own by (simp add: program_owns_def put_view_def engine_ready_def trading_ready_def flat_def)
  ultimately have "program_owns free contents qcontents ccontents gfree ?s"
    using own c(3,5) by (simp add: program_owns_def) (simp add: put_view_def thread_view_def)
  moreover have "snapshot_pass L ds i s = Some (Inr ?s)"
    using c(1) by (simp add: snapshot_pass_def Let_def sym find)
  ultimately show thesis using that kept by blast
qed

text \<open>Nothing in the program queues a cancel, so the cancel thread finds none.\<close>

lemma cancel_pass_owns:
  assumes CQ: "spsc_queue (lib_cancel_queue L) ccontents ccap"
    and own: "program_owns free contents qcontents ccontents gfree s"
  obtains m where "cancel_pass L s = Some (Inr (s\<lparr>pg_bots := m\<rparr>))"
    "program_owns free contents qcontents ccontents gfree (s\<lparr>pg_bots := m\<rparr>)"
proof -
  have e: "ccontents (bm_cancel_queue (pg_bots s)) = []" using own by (simp add: program_owns_def)
  obtain r q where q: "q_pop (lib_cancel_queue L) (bm_cancel_queue (pg_bots s)) = (r, q)" by fastforce
  have r: "r = None" "ccontents q = []" using spsc_queueD(3,4) [OF CQ, of "bm_cancel_queue (pg_bots s)"] q e by simp_all
  let ?m = "(pg_bots s)\<lparr>bm_cancel_queue := q\<rparr>"
  have d: "drain_cancels (lib_cancel_queue L) (pg_bots s) (pg_trading s) (pg_engines s) = Some (Inr (?m, pg_trading s, pg_engines s))"
    by (subst drain_cancels.simps) (simp add: pop_cancel_def q r(1))
  have "cancel_pass L s = Some (Inr (s\<lparr>pg_bots := ?m\<rparr>))" by (simp add: cancel_pass_def d)
  moreover have "thread_owns free contents symbol (thread_view (s\<lparr>pg_bots := ?m\<rparr>) i t) = thread_owns free contents symbol (thread_view s i t)"
    for symbol i t by (simp add: thread_owns_def thread_view_def)
  then have "program_owns free contents qcontents ccontents gfree (s\<lparr>pg_bots := ?m\<rparr>)"
    using own r(2) by (simp add: program_owns_def keyed_def waiting_def)
  ultimately show thesis by (rule that)
qed

text \<open>The simulator works on its own objects and leaves the engines alone.\<close>

lemma sim_step_owns:
  assumes own: "program_owns free contents qcontents ccontents gfree s" and inv: "program_inv free contents S B q s"
    and sim: "untouched S (tr_store (pg_trading s)) (tr_store (pg_trading s'))" and s: "sim_step s s'"
  shows "program_owns free contents qcontents ccontents gfree s'" "books_kept s s'"
proof -
  obtain x where x: "pg_trading s' = (pg_trading s)\<lparr>tr_store := x\<rparr>" using s by (auto simp: sim_step_def)
  have p: "pg_threads s' = pg_threads s" "pg_bots s' = pg_bots s" using s by (simp_all add: sim_step_def)
  have len: "length (pg_engines s) = 5" "length (pg_engines s') = 5"
    using engines_five [OF inv] s by (simp, metis length_map sim_step_def)
  have e: "sy_engine (pg_engines s' ! i) = sy_engine (pg_engines s ! i)" if "i < 5" for i
  proof -
    have "map sy_engine (pg_engines s') ! i = map sy_engine (pg_engines s) ! i" using s by (simp only: sim_step_def)
    then show ?thesis using len that by simp
  qed
  have st: "\<forall>a \<in> set (st_storage (pg_threads s ! i)). tr_store (pg_trading s') a = tr_store (pg_trading s) a"
    if i: "i < 5" for i
  proof -
    have "pg_threads s ! i \<in> set (pg_threads s)" using program_owns_parts(2) [OF own i] i by simp
    then have "set (st_storage (pg_threads s ! i)) \<subseteq> B" "S \<inter> B = {}" using inv by (auto simp: program_inv_def others_own_def)
    then have "set (st_storage (pg_threads s ! i)) \<inter> S = {}" by blast
    then show ?thesis using sim by (auto simp: untouched_def)
  qed
  then show "books_kept s s'" using e by (simp add: books_kept_def)
  have "thread_owns free contents (symbols ! i) (thread_view s' i (pg_threads s ! i))" if i: "i < 5" for i
  proof (rule thread_owns_view)
    show "thread_owns free contents (symbols ! i) (thread_view s i (pg_threads s ! i))"
      using own i by (simp add: program_owns_def)
  qed (use e [OF i] st [OF i] in simp_all)
  moreover have "engine_ready gfree (pg_trading s')"
    using own by (simp add: program_owns_def x engine_ready_def trading_ready_def flat_def)
  ultimately show "program_owns free contents qcontents ccontents gfree s'" using own by (simp add: program_owns_def p)
qed

end
