(* ===== verification/Maker_Rotation.thy ===== *)
theory Maker_Rotation
  imports Main_Loop
begin

text \<open>
  The market makers of the main program under their shared counter.  \<open>on_snapshot\<close> counts its
  calls in a static variable of the function, so one counter serves the market makers of all
  symbols.
\<close>

subsection \<open>The manager that the main program sets up\<close>

lemma bots_register: "bm_bots (fold register_bot bs m) = bm_bots m @ map set_manager bs"
  by (induction bs arbitrary: m) (simp_all add: register_bot_def Let_def)

lemma register_symbol:
  "bm_by_symbol m s = None \<Longrightarrow> bm_by_symbol (fold register_bot (symbol_bots s) m)
     = (bm_by_symbol m)(s \<mapsto> map ((+) (length (bm_bots m))) [0, 1, 2, 3, 4])"
  by (simp add: symbol_bots_def register_bot_def Let_def new_market_maker_def new_spread_bot_def
      new_random_walk_def new_mean_reversion_def new_momentum_def numeral_eq_Suc)

lemma length_symbol_bots: "length (symbol_bots s) = 5"
  by (simp add: symbol_bots_def)

lemma main_bots: "bm_bots (main_manager oq cq) = map set_manager (concat (map symbol_bots symbols))"
  by (simp add: main_manager_def symbols_def bots_register new_bot_manager_def)

lemma main_by_symbol:
  "bm_by_symbol (main_manager oq cq) = [''AAPL'' \<mapsto> [0, 1, 2, 3, 4], ''MSFT'' \<mapsto> [5, 6, 7, 8, 9],
     ''GOOGL'' \<mapsto> [10, 11, 12, 13, 14], ''AMZN'' \<mapsto> [15, 16, 17, 18, 19], ''META'' \<mapsto> [20, 21, 22, 23, 24]]"
  by (simp add: main_manager_def symbols_def register_symbol bots_register length_symbol_bots new_bot_manager_def
      numeral_2_eq_2)

text \<open>The bot positions of the \<open>j\<close>-th symbol, the market maker first.\<close>

lemma symbol_index:
  assumes "j < 5"
  shows "bm_by_symbol (main_manager oq cq) (symbols ! j) = Some (map ((+) (5 * j)) [0, 1, 2, 3, 4])"
proof -
  have "j = 0 \<or> j = 1 \<or> j = 2 \<or> j = 3 \<or> j = 4" using assms by linarith
  then show ?thesis by (auto simp: main_by_symbol symbols_def)
qed

lemma main_makers:
  assumes "i < 25"
  shows "is_maker (bm_bots (main_manager oq cq) ! i) \<longleftrightarrow> i mod 5 = 0"
proof -
  have "\<forall>i \<in> set [0..<25]. is_maker (bm_bots (main_manager oq cq) ! i) = (i mod 5 = 0)"
    by (simp add: main_bots symbols_def symbol_bots_def upt_conv_Cons)
  then show ?thesis using assms by auto
qed

subsection \<open>One dispatch\<close>

lemma is_maker_step:
  "bot_on_snapshot d snap count b = (count', b', out) \<Longrightarrow>
     is_maker b' = is_maker b \<and> (\<not> is_maker b \<longrightarrow> count' = count)"
  by (cases b) (auto simp: apfst_def map_prod_def split: prod.splits)

lemma nth_update_maker:
  "is_maker b = is_maker (xs ! i) \<Longrightarrow> is_maker (xs[i := b] ! j) = is_maker (xs ! j)"
  by (cases "i < length xs"; cases "i = j") (auto simp: not_less list_update_beyond)

lemma maker_step:
  assumes "is_maker b" "bot_on_snapshot d snap count b = (count', b', out)"
  shows "count' = s32 (count + 1)" "count' mod 10 \<noteq> 0 \<Longrightarrow> b' = b \<and> out = []"
  using assms by (cases b; auto simp: mm_on_snapshot_def Let_def split: if_splits prod.splits)+

lemma dispatch_others:
  "\<lbrakk>\<forall>i \<in> set is. \<not> is_maker (bm_bots m ! i); dispatch_bots Q fresh ds snap is (count, m) = (count', m')\<rbrakk>
    \<Longrightarrow> count' = count \<and> length (bm_bots m') = length (bm_bots m) \<and> bm_by_symbol m' = bm_by_symbol m \<and>
      (\<forall>i. is_maker (bm_bots m' ! i) = is_maker (bm_bots m ! i)) \<and>
      (\<forall>i. i \<notin> set is \<longrightarrow> bm_bots m' ! i = bm_bots m ! i)"
proof (induction "is" arbitrary: count m)
  case (Cons i "is")
  obtain c b out where b: "bot_on_snapshot (ds i) snap count (bm_bots m ! i) = (c, b, out)"
    by (metis prod_cases3)
  let ?m = "fold (submit_bot_order Q fresh b) out (m\<lparr>bm_bots := (bm_bots m)[i := b]\<rparr>)"
  note k = is_maker_step [OF b]
  have bots: "is_maker (bm_bots ?m ! j) = is_maker (bm_bots m ! j)" for j
    using k by (simp add: nth_update_maker)
  have "dispatch_bots Q fresh ds snap is (c, ?m) = (count', m')" using Cons.prems(2) b by simp
  then show ?case using Cons.IH [of ?m c] Cons.prems(1) k bots by auto
qed auto

lemma dispatch_maker:
  assumes "is_maker (bm_bots m ! i)" "\<forall>j \<in> set is. \<not> is_maker (bm_bots m ! j)"
    "dispatch_bots Q fresh ds snap (i # is) (count, m) = (count', m')"
  shows "count' = s32 (count + 1)" "length (bm_bots m') = length (bm_bots m)" "bm_by_symbol m' = bm_by_symbol m"
    "is_maker (bm_bots m' ! j) = is_maker (bm_bots m ! j)"
    "is_maker (bm_bots m ! j) \<Longrightarrow> (j = i \<Longrightarrow> s32 (count + 1) mod 10 \<noteq> 0) \<Longrightarrow> bm_bots m' ! j = bm_bots m ! j"
proof -
  obtain c b out where b: "bot_on_snapshot (ds i) snap count (bm_bots m ! i) = (c, b, out)"
    by (metis prod_cases3)
  let ?m = "fold (submit_bot_order Q fresh b) out (m\<lparr>bm_bots := (bm_bots m)[i := b]\<rparr>)"
  note k = is_maker_step [OF b] maker_step [OF assms(1) b]
  have bots: "is_maker (bm_bots ?m ! j) = is_maker (bm_bots m ! j)" for j
    using k(1) by (simp add: nth_update_maker)
  have "dispatch_bots Q fresh ds snap is (c, ?m) = (count', m')" using assms(3) b by simp
  note d = dispatch_others [OF _ this]
  have same: "bm_bots m ! i = b" if "c mod 10 \<noteq> 0" using k(3) that by simp
  show "count' = s32 (count + 1)" "length (bm_bots m') = length (bm_bots m)" "bm_by_symbol m' = bm_by_symbol m"
    "is_maker (bm_bots m' ! j) = is_maker (bm_bots m ! j)"
    using d assms(2) bots k(2) by auto
  assume "is_maker (bm_bots m ! j)" "j = i \<Longrightarrow> s32 (count + 1) mod 10 \<noteq> 0"
  then show "bm_bots m' ! j = bm_bots m ! j"
    using d assms(2) bots k(2) same
    by (cases "j = i"; cases "i < length (bm_bots m)") (auto simp: not_less list_update_beyond)
qed

subsection \<open>Rotation\<close>

definition rotating :: "((nat \<Rightarrow> draws) \<times> book_snapshot) list \<Rightarrow> bool" where
  "rotating snaps \<longleftrightarrow> (\<forall>n < length snaps. cstr (bs_symbol (snd (snaps ! n))) = symbols ! (n mod 5))"

lemma rotating_snoc:
  "rotating (snaps @ [x]) \<longleftrightarrow> rotating snaps \<and> cstr (bs_symbol (snd x)) = symbols ! (length snaps mod 5)"
  by (auto simp: rotating_def nth_append less_Suc_eq)

definition rotation_inv :: "('oq, 'cq) bot_manager \<Rightarrow> nat \<Rightarrow> int \<times> ('oq, 'cq) bot_manager \<Rightarrow> bool" where
  "rotation_inv m0 n = (\<lambda>(count, m). count = int n \<and> bm_by_symbol m = bm_by_symbol m0 \<and>
     (\<forall>i. is_maker (bm_bots m ! i) = is_maker (bm_bots m0 ! i)) \<and>
     (\<forall>j < 4. bm_bots m ! (5 * j) = bm_bots m0 ! (5 * j)))"

lemma rotation_step:
  assumes "rotation_inv (main_manager oq cq) n (count, m)" "cstr (bs_symbol snap) = symbols ! (n mod 5)"
    "n + 1 < 2 ^ 31"
  shows "rotation_inv (main_manager oq cq) (n + 1) (manager_on_snapshot Q fresh ds snap (count, m))"
proof -
  let ?m0 = "main_manager oq cq :: ('a, 'b) bot_manager"
  let ?j = "n mod 5"
  have j: "?j < 5" by simp
  have maker: "is_maker (bm_bots m ! i) \<longleftrightarrow> i mod 5 = 0" if "i < 25" for i
    using assms(1) main_makers [OF that] by (simp add: rotation_inv_def)
  have others: "\<forall>i \<in> set (map ((+) (5 * ?j)) [1, 2, 3, 4]). \<not> is_maker (bm_bots m ! i)"
  proof -
    have "\<not> is_maker (bm_bots m ! (5 * ?j + k))" if "0 < k" "k < 5" for k
      using maker [of "5 * ?j + k"] that j by simp
    from this [of 1] this [of 2] this [of 3] this [of 4] show ?thesis by simp
  qed
  have first: "is_maker (bm_bots m ! (5 * ?j))" using maker [of "5 * ?j"] j by simp
  obtain c' m' where d: "dispatch_bots Q fresh ds snap (5 * ?j # map ((+) (5 * ?j)) [1, 2, 3, 4]) (count, m) = (c', m')"
    by fastforce
  have "bm_by_symbol m (symbols ! ?j) = Some (5 * ?j # map ((+) (5 * ?j)) [1, 2, 3, 4])"
    using symbol_index [OF j, of oq cq] assms(1) by (simp add: rotation_inv_def)
  then have r: "manager_on_snapshot Q fresh ds snap (count, m) = (c', m')"
    using d by (simp add: manager_on_snapshot_def assms(2) del: list.map)
  have s32: "s32 (int n + 1) = int n + 1"
    using assms(3) by (simp add: s32_def signed_take_bit_int_eq_self)
  have c: "count = int n" using assms(1) by (simp add: rotation_inv_def)
  note dm = dispatch_maker [OF first others d]
  have "bm_bots m' ! (5 * i) = bm_bots m ! (5 * i)" if "i < 4" for i
  proof (rule dm(5))
    show "is_maker (bm_bots m ! (5 * i))" using maker [of "5 * i"] that by simp
    assume "5 * i = 5 * ?j"
    then have "(n + 1) mod 10 \<noteq> 0" using that by presburger
    then show "s32 (count + 1) mod 10 \<noteq> 0" by (simp add: c s32) presburger
  qed
  then show ?thesis
    using assms(1) dm(1,3,4) unfolding r by (simp add: rotation_inv_def c s32)
qed

lemma rotation_run:
  "\<lbrakk>rotating snaps; length snaps < 2 ^ 31\<rbrakk> \<Longrightarrow> rotation_inv (main_manager oq cq) (length snaps)
     (fold (\<lambda>(ds, snap). manager_on_snapshot Q fresh ds snap) snaps (0, main_manager oq cq))"
proof (induction snaps rule: rev_induct)
  case Nil
  then show ?case by (simp add: rotation_inv_def)
next
  case (snoc x xs)
  let ?cm = "fold (\<lambda>(ds, snap). manager_on_snapshot Q fresh ds snap) xs (0, main_manager oq cq)"
  have "rotation_inv (main_manager oq cq) (length xs) ?cm"
    using snoc by (simp add: rotating_snoc)
  then show ?case
    using snoc.prems rotation_step [of oq cq "length xs" "fst ?cm" "snd ?cm" "snd x" Q fresh "fst x"]
    by (cases x) (simp add: rotating_snoc)
qed

text \<open>
  C32: market makers starve.  All market makers share one call counter and act at its multiples
  of ten only.  When the snapshots of the five symbols come in rotation, the counter passes a
  multiple of ten always at the fifth symbol: the market makers of the other four, however many
  snapshots they see, never change their base price and never number, let alone submit, an
  order.  (The comment of the code expects each of them to act on every tenth snapshot.)
\<close>

theorem market_makers_starve:
  assumes "rotating snaps" "length snaps < 2 ^ 31"
  shows "\<exists>m. fold (\<lambda>(ds, snap). manager_on_snapshot Q fresh ds snap) snaps (0, main_manager oq cq)
      = (int (length snaps), m) \<and>
    bm_bots m ! 0 = set_manager (Market_Maker (new_market_maker ''MM_AAPL'' ''AAPL'' 10000 100 500)) \<and>
    bm_bots m ! 5 = set_manager (Market_Maker (new_market_maker ''MM_MSFT'' ''MSFT'' 10000 100 500)) \<and>
    bm_bots m ! 10 = set_manager (Market_Maker (new_market_maker ''MM_GOOGL'' ''GOOGL'' 10000 100 500)) \<and>
    bm_bots m ! 15 = set_manager (Market_Maker (new_market_maker ''MM_AMZN'' ''AMZN'' 10000 100 500))"
proof -
  obtain c m where r: "fold (\<lambda>(ds, snap). manager_on_snapshot Q fresh ds snap) snaps (0, main_manager oq cq) = (c, m)"
    by fastforce
  have i: "c = int (length snaps)" "bm_bots m ! (5 * j) = bm_bots (main_manager oq cq) ! (5 * j)" if "j < 4" for j
    using rotation_run [OF assms, of oq cq Q fresh] that unfolding r by (simp_all add: rotation_inv_def)
  show ?thesis
    using i [of 0] i [of 1] i [of 2] i [of 3] r
    by (simp add: main_bots symbols_def symbol_bots_def)
qed

theorem market_makers_starve_witness:
  "\<exists>m. fold (\<lambda>(ds, snap). manager_on_snapshot (list_queue 65535) [] ds snap)
       (map (\<lambda>s. (\<lambda>_. undefined, default_snapshot\<lparr>bs_symbol := s\<rparr>)) symbols)
       (0, main_manager [] [] :: (order list, u64 list) bot_manager) = (5, m) \<and>
     bm_bots m ! 0 = set_manager (Market_Maker (new_market_maker ''MM_AAPL'' ''AAPL'' 10000 100 500))"
proof -
  have "cstr (symbols ! n) = symbols ! n" if "n < 5" for n
  proof (rule cstr_id)
    have "n = 0 \<or> n = 1 \<or> n = 2 \<or> n = 3 \<or> n = 4" using that by linarith
    then show "NUL \<notin> set (symbols ! n)" by (auto simp: symbols_def NUL_def)
  qed
  moreover have "length symbols = 5" by (simp add: symbols_def)
  ultimately have "rotating (map (\<lambda>s. (\<lambda>_. undefined, default_snapshot\<lparr>bs_symbol := s\<rparr>)) symbols)"
    by (simp add: rotating_def)
  from market_makers_starve [OF this, of "list_queue 65535" "[]" "[]" "[]"] show ?thesis
    by (auto simp: symbols_def)
qed

end
