(* ===== verification/Program_Safety.thy ===== *)
theory Program_Safety
  imports Program_Owns Maker_Rotation
begin

text \<open>
  The properties that follow from ownership: no pass of the program faults, and the positions
  of all symbols stay at zero.
\<close>

subsection \<open>Steps and runs\<close>

text \<open>The laws of the queues and pools that a run uses.\<close>

definition library_ok ::
  "('g, 'q, 'o, 'oq, 'cq, 'p) library \<Rightarrow> ('p \<Rightarrow> addr set) \<Rightarrow> ('g \<Rightarrow> addr set) \<Rightarrow> ('o \<Rightarrow> addr list)
    \<Rightarrow> ('oq \<Rightarrow> order list) \<Rightarrow> ('cq \<Rightarrow> u64 list) \<Rightarrow> nat \<Rightarrow> bool" where
  "library_ok L free gfree contents qcontents ccontents cap \<longleftrightarrow>
     object_pool (lib_order_pool L) free \<and> object_pool (lib_report_pool L) gfree \<and>
     spsc_queue (lib_order_queue L) contents cap \<and> spsc_queue (lib_bot_queue L) qcontents cap \<and>
     spsc_queue (lib_cancel_queue L) ccontents cap \<and> qcontents (lib_new_bot_queue L) = []"

definition program_safe ::
  "('p \<Rightarrow> addr set) \<Rightarrow> ('g \<Rightarrow> addr set) \<Rightarrow> ('o \<Rightarrow> addr list) \<Rightarrow> ('oq \<Rightarrow> order list) \<Rightarrow> ('cq \<Rightarrow> u64 list)
    \<Rightarrow> addr set \<Rightarrow> addr set \<Rightarrow> ('g, 'q, 'o, 'oq, 'cq, 'p) program \<Rightarrow> bool" where
  "program_safe free gfree contents qcontents ccontents S B s \<longleftrightarrow>
     program_inv free contents S B 500 s \<and> program_owns free contents qcontents ccontents gfree s"

lemma program_safe_step:
  assumes step: "program_step L s s'" and L: "library_ok L free gfree contents qcontents ccontents cap"
    and safe: "program_safe free gfree contents qcontents ccontents S B s"
  shows "program_safe free gfree contents qcontents ccontents S B s'"
proof -
  note laws = L [unfolded library_ok_def]
  have inv: "program_inv free contents S B 500 s" and own: "program_owns free contents qcontents ccontents gfree s"
    using safe by (simp_all add: program_safe_def)
  have "program_owns free contents qcontents ccontents gfree s'"
    using step
  proof cases
    case (Worker i)
    obtain s1 where "Inr s' = (Inr s1 :: _ res)" "program_owns free contents qcontents ccontents gfree s1"
      using worker_pass_owns [OF _ _ own, of L cap i] laws engines_five [OF inv] Worker by auto
    then show ?thesis by simp
  next
    case (Snapshot i ds)
    then have "i < 5" using program_owns_parts(2) [OF own, of 0] by simp
    then show ?thesis
      using snapshot_pass_owns [OF _ _ _ _ own inv, of L cap cap i ds] laws Snapshot(3) by auto
  next
    case Cancels
    then show ?thesis using cancel_pass_owns [OF _ own, of L cap] laws by auto
  next
    case Start
    obtain s1 where "start_pass L s = Inr s1" "untouched S (tr_store (pg_trading s)) (tr_store (pg_trading s1))" "sim_step s s1"
      using start_pass_inv [OF _ inv Start(1), of L] laws by metis
    then show ?thesis using sim_step_owns [OF own inv] Start(2) by simp
  next
    case (Tick ds opened)
    obtain s1 where "tick_pass L opened ds s = Inr s1" "untouched S (tr_store (pg_trading s)) (tr_store (pg_trading s1))" "sim_step s s1"
      using tick_pass_inv [OF _ inv Tick(1,3), of L opened] laws by metis
    then show ?thesis using sim_step_owns [OF own inv] Tick(4) by simp
  next
    case Stop
    have "thread_view (stop_running s) i t = thread_view s i t" for i t by (simp add: thread_view_def stop_running_def)
    then show ?thesis using own unfolding program_owns_def Stop by (simp add: stop_running_def)
  qed
  moreover have "program_inv free contents S B 500 s'"
    by (rule program_inv_step [OF step _ _ inv]) (use laws in auto)
  ultimately show ?thesis by (simp add: program_safe_def)
qed

lemma program_safe_run:
  "\<lbrakk>(program_step L)\<^sup>*\<^sup>* s s'; library_ok L free gfree contents qcontents ccontents cap;
    program_safe free gfree contents qcontents ccontents S B s\<rbrakk>
    \<Longrightarrow> program_safe free gfree contents qcontents ccontents S B s'"
  by (induction rule: rtranclp_induct) (auto dest: program_safe_step)

text \<open>
  The shutdown: the cancel thread finds nothing, and every order that an engine still has in its
  queue was held by the thread of its symbol, which has ended.
\<close>

lemma shutdown_gone:
  assumes L: "library_ok L free gfree contents qcontents ccontents cap"
    and own: "program_owns free contents qcontents ccontents gfree s" and len: "length (pg_engines s) = 5"
  shows "if \<forall>e \<in> set (pg_engines s). contents (me_queue (sy_engine e)) = []
    then \<exists>s'. shutdown L opened s = Some (Inr s') else shutdown L opened s = Some (Inl Dangling_Pointer)"
proof -
  note laws = L [unfolded library_ok_def]
  let ?c = "close_market L opened s"
  have c: "pg_engines ?c = pg_engines s" "pg_trading ?c = pg_trading s" "pg_threads ?c = pg_threads s" "pg_bots ?c = pg_bots s"
    by (simp_all add: close_market_def split: prod.split)
  have "thread_view ?c i t = thread_view s i t" for i t by (simp add: thread_view_def c)
  then have "program_owns free contents qcontents ccontents gfree ?c" using own by (simp add: program_owns_def c)
  then obtain m where m: "cancel_pass L ?c = Some (Inr (?c\<lparr>pg_bots := m\<rparr>))"
    using cancel_pass_owns [of L ccontents cap] laws by metis
  let ?s = "?c\<lparr>pg_bots := m\<rparr>"
  have "set (contents (me_queue (sy_engine e))) \<subseteq> dead_orders ?s" if "e \<in> set (pg_engines s)" for e
  proof -
    obtain i where i: "i < 5" "e = pg_engines s ! i" using \<open>e \<in> _\<close> len by (metis in_set_conv_nth)
    have "set (contents (me_queue (sy_engine e))) \<subseteq> set (st_storage (pg_threads s ! i))"
      using program_owns_parts(1) [OF own i(1)] unfolding i(2) engine_owns_def engine_addrs_def by blast
    moreover have "pg_threads s ! i \<in> set (pg_threads s)"
      using i(1) program_owns_parts(2) [OF own, of 0] by simp
    ultimately show ?thesis by (auto simp: dead_orders_def c)
  qed
  then show ?thesis
    using drain_all_gone [of "lib_order_queue L" contents cap "pg_engines s" "dead_orders ?s"
        "lib_report_pool L" "lib_report_queue L" "pg_trading s"] laws
    by (auto simp: shutdown_def m c split: if_splits)
qed

subsection \<open>From the start\<close>

text \<open>The pools of the threads are objects of their own, and the gateway has an object for its reports.\<close>

definition pools_apart :: "('p \<Rightarrow> addr set) \<Rightarrow> 'p list \<Rightarrow> bool" where
  "pools_apart free pools \<longleftrightarrow>
     (\<forall>i < length pools. \<forall>j < length pools. i \<noteq> j \<longrightarrow> free (pools ! i) \<inter> free (pools ! j) = {})"

lemma gateway_workers:
  "gw_queues ((add_worker queue ^^ n) g) = gw_queues g @ replicate n queue"
  "gw_pool ((add_worker queue ^^ n) g) = gw_pool g"
  by (induction n) (simp_all add: add_worker_def replicate_append_same [symmetric])

lemma main_gateway_ready:
  "\<lbrakk>n < 2 ^ 63; gfree pool \<noteq> {}\<rbrakk> \<Longrightarrow> gateway_ready gfree (main_gateway n queue pool objects)"
  by (simp add: gateway_ready_def main_gateway_def gateway_workers new_gateway_def)

lemma register_cancel: "bm_cancel_queue (fold register_bot bs m) = bm_cancel_queue m"
  by (induction bs arbitrary: m) (simp_all add: register_bot_def Let_def)

lemma register_all_cancel:
  "bm_cancel_queue (fold (\<lambda>s. fold register_bot (symbol_bots s)) ss m) = bm_cancel_queue m"
  by (induction ss arbitrary: m) (simp_all add: register_cancel)

lemma main_manager_cancel: "bm_cancel_queue (main_manager oq cq) = cq"
  unfolding main_manager_def register_all_cancel by (simp add: new_bot_manager_def)

lemma program_safe_start:
  assumes start: "start_ok free bot_pools sim_pool prices" "pools_apart free bot_pools"
    and queues: "contents order_queue = []" "ccontents cancel_queue = []" and g: "gateway_ready gfree gateway"
  shows "program_safe free gfree contents qcontents ccontents (free sim_pool) (\<Union>p \<in> set bot_pools. free p)
    (program_start gateway order_queue bot_queue cancel_queue bot_pools sim_pool st content prices)"
proof -
  let ?s = "program_start gateway order_queue bot_queue cancel_queue bot_pools sim_pool st content prices"
  have len: "length bot_pools = 5" using start(1) by (simp add: start_ok_def)
  have t: "pg_threads ?s ! i = \<lparr>st_symbol = symbols ! i, st_manager = new_snapshot_manager 5,
      st_pool = bot_pools ! i, st_storage = []\<rparr>" if "i < 5" for i
    using that len by (simp add: program_start_def main_threads_def symbols_distinct)
  have e: "sy_engine (pg_engines ?s ! i) = new_engine (symbols ! i) order_queue" if "i < 5" for i
    using that by (simp add: program_start_def main_engines_def symbols_distinct new_symbol_engine_def)
  have lt: "length (pg_threads ?s) = 5" using len by (simp add: program_start_def main_threads_def symbols_distinct)
  have "thread_owns free contents (symbols ! i) (thread_view ?s i (pg_threads ?s ! i)) \<and>
      well_sized (st_manager (pg_threads ?s ! i))" if "i < 5" for i
    using engine_owns_new [of contents, OF queues(1)] early_new [of 0]
    by (simp add: t [OF that] thread_owns_def thread_view_def e [OF that] early_def)
  moreover have "regions_apart free (pg_threads ?s)"
    using start(2) len unfolding regions_apart_def lt by (simp add: t region_def pools_apart_def)
  moreover have "engine_ready gfree (pg_trading ?s)"
    using g by (simp add: engine_ready_def trading_ready_def flat_def program_start_def main_trading_def net_of_def)
  moreover have "keyed qcontents (pg_bots ?s)" "bm_cancel_queue (pg_bots ?s) = cancel_queue"
    using keyed_start by (simp_all add: program_start_def main_manager_cancel)
  moreover have "map st_symbol (pg_threads ?s) = symbols"
    using main_threads_start(1) [OF len] by (simp add: program_start_def)
  ultimately have "program_owns free contents qcontents ccontents gfree ?s"
    using queues(2) by (simp add: program_owns_def)
  then show ?thesis
    using program_inv_start [of contents order_queue, OF queues(1) start(1)] by (simp add: program_safe_def)
qed

text \<open>The concrete program of the witnesses meets the hypotheses.\<close>

lemma demo_library_ok: "library_ok demo_library set set (\<lambda>q. q) (\<lambda>q. q) (\<lambda>q. q) 65535"
  by (simp add: library_ok_def demo_library_def stack_pool_ok list_queue_ok)

lemma demo_pools_apart: "pools_apart set [[1, 2], [3, 4], [5, 6], [7, 8], [9, 10]]"
  by (simp add: pools_apart_def less_Suc_eq numeral_eq_Suc)

lemma demo_main_gateway_ready: "gateway_ready set (main_gateway 2 [] [0] (\<lambda>_. default_report))"
  by (rule main_gateway_ready) simp_all

subsection \<open>An order arrives\<close>

text \<open>
  The first quotes of the simulator and one pass of the first snapshot thread bring an order into
  an engine: if the draw of the random walk bot is low enough, it buys on its first snapshot.
\<close>

lemma take_orders_queue:
  fixes Q :: "('oq, order) queue_ops" and P :: "'p pool_ops" and OQ :: "('o, addr) queue_ops"
  assumes OQ: "spsc_queue OQ contents cap" and r: "take_orders Q P OQ symbol t = Some t'"
  shows "\<exists>ys. contents (me_queue (sy_engine (th_engine t'))) = contents (me_queue (sy_engine (th_engine t))) @ ys"
proof -
  let ?q = "\<lambda>t :: ('p, 'oq, 'cq, 'o) thread_state. contents (me_queue (sy_engine (th_engine t)))"
  let ?P = "\<lambda>Q P OQ symbol t t'. spsc_queue OQ contents cap \<longrightarrow> (\<exists>ys. ?q t' = ?q t @ ys)"
  let ?C = "\<lambda>((((Q :: ('oq, order) queue_ops, P :: 'p pool_ops), OQ :: ('o, addr) queue_ops), symbol :: string), t) t'.
    ?P Q P OQ symbol t t'"
  have "?C ((((Q, P), OQ), symbol), t) t'"
  proof (rule take_orders.raw_induct [where Pa = ?C, OF _ r], goal_cases)
    case (1 f Q P OQ symbol t t')
    show ?case
      unfolding prod.case
    proof (intro impI)
      assume OQ: "spsc_queue OQ contents cap"
      obtain p m where pop: "pop_order_for_symbol Q symbol (th_manager t) = (p, m)" by fastforce
      show "\<exists>ys. ?q t' = ?q t @ ys"
      proof (cases p)
        case None
        then show ?thesis using 1(2) pop by auto
      next
        case (Some tmp)
        let ?t = "take_order P OQ tmp (t\<lparr>th_manager := m\<rparr>)"
        have "f Q P OQ symbol ?t = Some t'" using 1(2) pop Some by simp
        from 1(1) [OF this] OQ obtain ys where ys: "?q t' = ?q ?t @ ys" by auto
        obtain r pool where acq: "p_acquire P (th_pool t) = (r, pool)" by fastforce
        have "\<exists>zs. ?q ?t = ?q t @ zs"
        proof (cases r)
          case (Some a)
          obtain ok q where push: "q_push OQ a (me_queue (sy_engine (th_engine t))) = (ok, q)" by fastforce
          have "contents q = ?q t \<or> contents q = ?q t @ [a]"
            using spsc_queueD(2) [OF OQ, of a "me_queue (sy_engine (th_engine t))"] push by auto
          then show ?thesis by (auto simp: take_order_def acq Some on_market_order_def submit_order_def push)
        qed (simp add: take_order_def acq)
        then show ?thesis using ys by auto
      qed
    qed
  qed
  then show ?thesis using OQ by simp
qed

lemma take_orders_first:
  assumes Q: "spsc_queue Q qcontents qcap" and OQ: "spsc_queue OQ contents cap" "0 < cap" and P: "object_pool P free"
    and w: "waiting qcontents (th_manager t) symbol \<noteq> []" "free (th_pool t) \<noteq> {}"
    and q: "contents (me_queue (sy_engine (th_engine t))) = []" and r: "take_orders Q P OQ symbol t = Some t'"
  shows "contents (me_queue (sy_engine (th_engine t'))) \<noteq> []"
proof -
  obtain x m where pop: "pop_order_for_symbol Q symbol (th_manager t) = (Some x, m)"
    using waiting_pop(1) [OF Q, of symbol "th_manager t"] w(1)
    by (cases "pop_order_for_symbol Q symbol (th_manager t)") (auto split: list.splits)
  obtain a pool where acq: "p_acquire P (th_pool t) = (Some a, pool)"
    using object_poolD(3) [OF P] w(2) by (cases "p_acquire P (th_pool t)"; cases "fst (p_acquire P (th_pool t))") auto
  let ?t = "take_order P OQ x (t\<lparr>th_manager := m\<rparr>)"
  have "take_orders Q P OQ symbol ?t = Some t'" using r pop by (simp add: take_orders.simps [of _ _ _ _ t])
  then obtain ys where ys: "contents (me_queue (sy_engine (th_engine t'))) = contents (me_queue (sy_engine (th_engine ?t))) @ ys"
    using take_orders_queue [OF OQ(1)] by blast
  have "contents (me_queue (sy_engine (th_engine ?t))) = [a]"
    using spsc_queueD(2) [OF OQ(1), of a "me_queue (sy_engine (th_engine t))"] OQ(2) q
    by (auto simp: take_order_def acq on_market_order_def submit_order_def split: prod.splits)
  then show ?thesis using ys by simp
qed

text \<open>The third bot of a symbol is its random walk.\<close>

lemma walk_buys:
  assumes "bots ! 2 = set_manager (Random_Walk (new_random_walk name s (3 / 10) p q))" "dr_first (ds 2) = 0"
    "poll_bots ds snap [0, 1, 2, 3, 4] (count, bots) = (cb, outs)"
  shows "outs \<noteq> []"
  using assms
  by (auto simp: new_random_walk_def rw_on_snapshot_def rw_place_def Let_def split: prod.splits)

lemma walk_waits:
  fixes ds :: "nat \<Rightarrow> draws" and count :: int
  defines "m \<equiv> main_manager [] [] :: (order list, u64 list) bot_manager"
  assumes snap: "cstr (bs_symbol snap) = ''AAPL''" and "dr_first (ds 2) = 0"
    and m': "manager_on_snapshot (list_queue 65535) [] ds snap (count, m) = (c, m')"
  shows "waiting (\<lambda>q. q) m' ''AAPL'' \<noteq> []"
proof -
  have bots: "bm_by_symbol m ''AAPL'' = Some [0, 1, 2, 3, 4]" by (simp add: m_def main_by_symbol)
  then have d: "dispatch_bots (list_queue 65535) [] ds snap [0, 1, 2, 3, 4] (count, m) = (c, m')"
    using m' by (simp add: manager_on_snapshot_def snap)
  obtain n bs outs where p: "poll_bots ds snap [0, 1, 2, 3, 4] (count, bm_bots m) = ((n, bs), outs)"
    by (metis surj_pair)
  have outs: "outs \<noteq> []"
    by (rule walk_buys [OF _ assms(3) p]) (simp add: m_def main_bots symbols_def symbol_bots_def)
  have "keyed (\<lambda>q. q) m" unfolding m_def by (rule keyed_start)
  then have "manager_ok m" by (simp add: keyed_def manager_holds_def)
  then have D: "distinct [0, 1, 2, 3, 4 :: nat]" "\<forall>i \<in> set [0, 1, 2, 3, 4]. i < length (bm_bots m) \<and>
      bot_symbol (bm_bots m ! i) = cstr (bs_symbol snap) \<and> has_manager (bm_bots m ! i)"
    using bots unfolding manager_ok_def snap by blast+
  have w: "waiting (\<lambda>q. q) m s = []" for s by (simp add: m_def main_manager_queues waiting_def)
  have len: "length (cstr (bs_symbol snap)) \<le> 7" "length (waiting (\<lambda>q. q) m (cstr (bs_symbol snap))) \<le> 65535"
    by (simp_all add: snap w)
  have "\<forall>s. waiting (\<lambda>q. q) m' s = (if s = cstr (bs_symbol snap) then take 65535 (waiting (\<lambda>q. q) m s @ outs)
      else waiting (\<lambda>q. q) m s)"
    using dispatch_polls [OF list_queue_ok refl len(1) D len(2) d p] by (elim conjE)
  from spec [OF this, of "''AAPL''"] have "waiting (\<lambda>q. q) m' ''AAPL'' = take 65535 outs"
    by (simp only: snap w if_True simp_thms append_Nil)
  then show ?thesis using outs by simp
qed

lemma cstr_captured:
  assumes "length (cstr (ob_symbol b)) < 7"
  shows "cstr (bs_symbol (captured depth b s)) = cstr (ob_symbol b)"
proof -
  let ?c = "cstr (ob_symbol b)"
  obtain k where k: "7 - length ?c = Suc k" using assms by (cases "7 - length ?c") auto
  let ?rest = "replicate k NUL @ drop 7 (bs_symbol s)"
  have "bs_symbol (captured depth b s) = (?c @ NUL # ?rest)[7 := NUL]"
    using assms k by (simp add: captured_def capture_top_def Let_def strncpy_def)
  also have "\<dots> = ?c @ NUL # ?rest[k := NUL]" using k assms by (simp add: list_update_append)
  finally show ?thesis by (simp add: cstr_append_NUL cstr_no_NUL)
qed

lemma demo_order_run:
  obtains s where "(program_step demo_library)\<^sup>*\<^sup>* demo_program s" "pg_started s"
    "me_queue (sy_engine (pg_engines s ! 0)) \<noteq> []"
proof -
  let ?S = "set [20, 21, 22, 23, 24, 25, 26, 27, 28, 29, 30, 31 :: addr]"
    and ?B = "\<Union>p \<in> set [[1, 2], [3, 4], [5, 6], [7, 8], [9, 10 :: addr]]. set p"
  have start: "\<not> pg_started demo_program" by (simp add: demo_program_def program_start_def)
  have safe: "program_safe set set (\<lambda>q. q) (\<lambda>q. q) (\<lambda>q. q) ?S ?B demo_program"
    unfolding demo_program_def
    by (rule program_safe_start [OF demo_start_ok demo_pools_apart _ _ demo_main_gateway_ready]) simp_all
  obtain s1 where s1: "start_pass demo_library demo_program = Inr s1" "pg_started s1" "sim_step demo_program s1"
    by (rule start_pass_inv [OF demo_library_laws(1) demo_program_inv start])
  have step: "program_step demo_library demo_program s1" by (rule program_step.Start [OF start s1(1)])
  have safe1: "program_safe set set (\<lambda>q. q) (\<lambda>q. q) (\<lambda>q. q) ?S ?B s1"
    by (rule program_safe_step [OF step demo_library_ok safe])
  note inv1 = safe1 [unfolded program_safe_def, THEN conjunct1] and own1 = safe1 [unfolded program_safe_def, THEN conjunct2]
  have i: "0 < (5 :: nat)" by simp
  have t: "pg_threads s1 ! 0 = \<lparr>st_symbol = ''AAPL'', st_manager = new_snapshot_manager 5, st_pool = [1, 2], st_storage = []\<rparr>"
    using s1(3) by (simp add: sim_step_def demo_program_def program_start_def main_threads_def symbols_def)
  have "flowing (manager_of s1 0)" using early_new [of 0] by (simp add: t flowing_def early_def)
  moreover have b: "book_shape (book_of s1 0)" "ob_sequence (book_of s1 0) \<noteq> 0"
    using started_book [OF inv1 s1(2) i] step_books [OF step demo_library_laws demo_program_inv i]
      unstarted_book(2) [OF demo_program_inv start i] start s1(2) by auto
  ultimately obtain x sm where poll: "poll_snapshot (book_of s1 0) (manager_of s1 0) = Inr (Some (captured 5 (book_of s1 0) x), sm)"
    by (metis flowing_poll)
  let ?snap = "captured 5 (book_of s1 0) x" and ?ds = "\<lambda>_ :: nat. \<lparr>dr_first = 0, dr_second = 0, dr_third = 0, dr_gen = 0\<rparr>"
  let ?m = "main_manager [] [] :: (order list, u64 list) bot_manager"
  have name: "cstr (ob_symbol (book_of s1 0)) = ''AAPL''"
  proof -
    have "map (\<lambda>e. book_name (sy_book e)) (pg_engines s1) ! 0 = ''AAPL''" using inv1 by (simp add: program_inv_def symbols_def)
    then show ?thesis using engines_five [OF inv1] by (simp add: book_name_def)
  qed
  then have snap: "cstr (bs_symbol ?snap) = ''AAPL''" by (simp add: cstr_captured)
  have bots: "pg_bots s1 = ?m" using s1(3) by (simp add: sim_step_def demo_program_def program_start_def)
  obtain c m1 where m1: "manager_on_snapshot (list_queue 65535) [] ?ds ?snap (pg_count s1, pg_bots s1) = (c, m1)"
    by fastforce
  then have w1: "waiting (\<lambda>q. q) m1 ''AAPL'' \<noteq> []" unfolding bots by (rule walk_waits [OF snap, rotated]) simp
  let ?th = "thread_view s1 0 (pg_threads s1 ! 0)"
  have find: "find_engine ''AAPL'' (pg_engines s1) = Some 0"
    using engines_five [OF inv1] name by (cases "pg_engines s1") (simp_all add: sy_symbol_def)
  obtain s2 where r: "snapshot_pass demo_library ?ds 0 s1 = Some (Inr s2)"
    using snapshot_pass_owns [OF _ _ _ _ own1 inv1 i, of demo_library 65535 65535 ?ds] demo_library_ok
    by (auto simp: library_ok_def)
  obtain t' where t': "take_orders (list_queue 65535) stack_pool (list_queue 65535) ''AAPL'' (?th\<lparr>th_manager := m1\<rparr>) = Some t'"
    "s2 = put_view 0 0 (sm, c, sweep_storage stack_pool t') s1"
    using r find poll m1
    by (auto simp: snapshot_pass_def t snapshot_cycle_def demo_library_def thread_view_def sy_order_book_def)
  have "map sy_engine (pg_engines s1) ! 0 = new_engine ''AAPL'' []"
    using s1(3) by (simp add: sim_step_def demo_program_def program_start_def main_engines_def symbols_def new_symbol_engine_def)
  then have q: "me_queue (sy_engine (pg_engines s1 ! 0)) = []"
    using engines_five [OF inv1] by (simp add: new_engine_def)
  have "me_queue (sy_engine (th_engine t')) \<noteq> []"
    by (rule take_orders_first [OF list_queue_ok list_queue_ok _ stack_pool_ok _ _ _ t'(1)])
      (use w1 q in \<open>simp_all add: thread_view_def t\<close>)
  then have "me_queue (sy_engine (pg_engines s2 ! 0)) \<noteq> []"
    using engines_five [OF inv1] by (simp add: t'(2) put_view_def sweep_simps)
  moreover have "pg_running s1" using s1(1) by (auto simp: start_pass_def sim_bind_Inr_iff put_sim_def demo_program_def program_start_def)
  then have "program_step demo_library s1 s2"
    using program_owns_parts(2) [OF own1 i] r by (intro program_step.Snapshot [of _ 0]) simp_all
  moreover have "pg_started s2" using s1(2) by (simp add: t'(2) put_view_def)
  moreover have "(program_step demo_library)\<^sup>*\<^sup>* demo_program s1" using step by (rule r_into_rtranclp)
  ultimately show thesis using that [of s2] by (simp add: rtranclp.rtrancl_into_rtrancl)
qed

subsection \<open>Properties\<close>

text \<open>
  C5: no pass of the program faults, but its end does.  In every run of the program, with any draws
  of the bots and of the simulator and any order of the threads' passes, no pass ever reads a null
  pointer, a deleted level or past the end of an array.  The next pass of a snapshot thread and of the
  cancel thread always returns, and the next match cycle of a worker never faults (that it returns as
  long as no level overflows is shown in \<open>Program_Room\<close>); and all five books in which the orders of
  the bots are matched keep their pointer structure, with every order on its own side.  The shutdown,
  however, destroys the pools of the snapshot threads before it drains the engines: it succeeds if no
  engine has an order left in its queue, and reads a destroyed order whenever one has.
\<close>

theorem no_pass_faults:
  assumes "library_ok L free gfree contents qcontents ccontents cap" "start_ok free bot_pools sim_pool prices"
    "pools_apart free bot_pools" "contents order_queue = []" "ccontents cancel_queue = []" "gateway_ready gfree gateway"
    "(program_step L)\<^sup>*\<^sup>*
       (program_start gateway order_queue bot_queue cancel_queue bot_pools sim_pool st content prices) s"
  shows "length (pg_engines s) = 5 \<and> length (pg_threads s) = 5 \<and>
    (\<forall>i < 5. book_sided (tr_store (pg_trading s)) (me_book (sy_engine (pg_engines s ! i))) \<and>
       (\<forall>err. worker_pass L i s \<noteq> Some (Inl err)) \<and> (\<forall>ds. \<exists>s'. snapshot_pass L ds i s = Some (Inr s'))) \<and>
    (\<exists>s'. cancel_pass L s = Some (Inr s')) \<and>
    (\<forall>opened. if \<forall>e \<in> set (pg_engines s). contents (me_queue (sy_engine e)) = []
       then \<exists>s'. shutdown L opened s = Some (Inr s')
       else shutdown L opened s = Some (Inl Dangling_Pointer))"
proof -
  let ?B = "\<Union>p \<in> set bot_pools. free p"
  note laws = assms(1) [unfolded library_ok_def]
  have safe: "program_safe free gfree contents qcontents ccontents (free sim_pool) ?B s"
    by (rule program_safe_run [OF assms(7,1) program_safe_start [of free bot_pools sim_pool prices contents order_queue
          ccontents cancel_queue, OF assms(2-6)]])
  then have inv: "program_inv free contents (free sim_pool) ?B 500 s" and own: "program_owns free contents qcontents ccontents gfree s"
    by (simp_all add: program_safe_def)
  have "book_sided (tr_store (pg_trading s)) (me_book (sy_engine (pg_engines s ! i)))" if "i < 5" for i
    using program_owns_parts(1) [OF own that] by (simp add: engine_owns_def)
  moreover have "worker_pass L i s \<noteq> Some (Inl err)" if "i < 5" for i err
    using worker_pass_owns [OF _ _ own engines_five [OF inv] that, of L cap] laws by (metis Inl_Inr_False)
  moreover have "\<exists>s'. snapshot_pass L ds i s = Some (Inr s')" if "i < 5" for i ds
    using snapshot_pass_owns [OF _ _ _ _ own inv that, of L cap cap ds] laws by metis
  moreover have "\<exists>s'. cancel_pass L s = Some (Inr s')"
    using cancel_pass_owns [OF _ own, of L cap] laws by metis
  moreover note shutdown_gone [OF assms(1) own engines_five [OF inv]]
  ultimately show ?thesis using engines_five [OF inv] program_owns_parts(2) [OF own, of 0] by simp
qed

theorem no_pass_faults_witness:
  "\<exists>s. (program_step demo_library)\<^sup>*\<^sup>* demo_program s \<and> pg_started s \<and> length (pg_engines s) = 5 \<and>
     (\<forall>i < 5. book_sided (tr_store (pg_trading s)) (me_book (sy_engine (pg_engines s ! i))) \<and>
       (\<forall>err. worker_pass demo_library i s \<noteq> Some (Inl err)) \<and>
       (\<forall>ds. \<exists>s'. snapshot_pass demo_library ds i s = Some (Inr s'))) \<and>
     (\<exists>s'. cancel_pass demo_library s = Some (Inr s')) \<and>
     (\<forall>opened. shutdown demo_library opened s = Some (Inl Dangling_Pointer))"
proof -
  obtain s where s: "(program_step demo_library)\<^sup>*\<^sup>* demo_program s" "pg_started s"
    "me_queue (sy_engine (pg_engines s ! 0)) \<noteq> []" by (rule demo_order_run)
  note t = no_pass_faults [OF demo_library_ok demo_start_ok demo_pools_apart _ _ demo_main_gateway_ready
      s(1) [unfolded demo_program_def], simplified]
  then have "pg_engines s ! 0 \<in> set (pg_engines s)" by simp
  then have "\<not> (\<forall>e \<in> set (pg_engines s). me_queue (sy_engine e) = [])" using s(3) by blast
  then show ?thesis using t s(1,2) by (simp only: if_False simp_thms) blast
qed

text \<open>
  C16: the orders of the engines are well formed.  In every run of the program, whatever the bots
  submit and in whatever order the threads take their passes, every order that the engine of a symbol
  can reach (waiting in its queue, resting in its levels or listed in its index) is held by the
  snapshot thread of that symbol and by no other, carries exactly that symbol, is NEW or PARTIAL, asks
  for a positive quantity, and what it was filled with and what remains add up to that quantity as
  numbers, without wrap-around; an order still in the queue is wholly unfilled.
\<close>

theorem engine_orders_are_well_formed:
  assumes "library_ok L free gfree contents qcontents ccontents cap" "start_ok free bot_pools sim_pool prices"
    "pools_apart free bot_pools" "contents order_queue = []" "ccontents cancel_queue = []" "gateway_ready gfree gateway"
    "(program_step L)\<^sup>*\<^sup>*
       (program_start gateway order_queue bot_queue cancel_queue bot_pools sim_pool st content prices) s"
    "i < 5" "a \<in> engine_addrs contents (sy_engine (pg_engines s ! i))" "x = tr_store (pg_trading s) a"
  shows "(\<forall>j < 5. a \<in> set (st_storage (pg_threads s ! j)) \<longleftrightarrow> j = i) \<and>
    cstr (o_symbol x) = symbols ! i \<and> (o_status x = NEW \<or> o_status x = PARTIAL) \<and>
    0 < unat (o_quantity x) \<and> unat (o_filled x) + unat (o_remaining x) = unat (o_quantity x) \<and>
    (a \<in> set (contents (me_queue (sy_engine (pg_engines s ! i)))) \<longrightarrow> o_filled x = 0)"
proof -
  have "program_safe free gfree contents qcontents ccontents (free sim_pool) (\<Union>p \<in> set bot_pools. free p) s"
    by (rule program_safe_run [OF assms(7,1) program_safe_start [of free bot_pools sim_pool prices contents order_queue
          ccontents cancel_queue, OF assms(2-6)]])
  then have own: "program_owns free contents qcontents ccontents gfree s" by (simp add: program_safe_def)
  have e: "engine_owns contents (set (st_storage (pg_threads s ! i))) (symbols ! i) (tr_store (pg_trading s))
      (sy_engine (pg_engines s ! i))"
    by (rule program_owns_parts(1) [OF own assms(8)])
  then have held: "a \<in> set (st_storage (pg_threads s ! i))" using assms(9) by (auto simp: engine_owns_def)
  moreover have "j = i" if "j < 5" "a \<in> set (st_storage (pg_threads s ! j))" for j
    using program_owns_parts(3) [OF own that(1) assms(8)] that(2) held by (auto simp: region_def)
  moreover have "is_active x" "cstr (o_symbol x) = symbols ! i" "well_filled x"
    using e assms(9,10) by (auto simp: engine_owns_def)
  moreover have "a \<in> set (contents (me_queue (sy_engine (pg_engines s ! i)))) \<longrightarrow> o_filled x = 0"
    using e assms(10) by (auto simp: engine_owns_def)
  moreover have "0 < unat (o_quantity x)" "unat (o_filled x) + unat (o_remaining x) = unat (o_quantity x)"
    using well_filled_exact [OF calculation(5)] calculation(5) by (simp_all add: well_filled_def unat_gt_0)
  ultimately show ?thesis by (simp only: is_active_def simp_thms) blast
qed

theorem engine_orders_are_well_formed_witness:
  "\<exists>s a. (program_step demo_library)\<^sup>*\<^sup>* demo_program s \<and> a \<in> set (me_queue (sy_engine (pg_engines s ! 0))) \<and>
     a \<in> set (st_storage (pg_threads s ! 0)) \<and> a \<notin> set (st_storage (pg_threads s ! 1)) \<and>
     cstr (o_symbol (tr_store (pg_trading s) a)) = ''AAPL'' \<and>
     0 < unat (o_quantity (tr_store (pg_trading s) a)) \<and> o_filled (tr_store (pg_trading s) a) = 0"
proof -
  obtain s where s: "(program_step demo_library)\<^sup>*\<^sup>* demo_program s" "me_queue (sy_engine (pg_engines s ! 0)) \<noteq> []"
    by (rule demo_order_run)
  let ?a = "hd (me_queue (sy_engine (pg_engines s ! 0)))"
  have a: "?a \<in> set (me_queue (sy_engine (pg_engines s ! 0)))" using s(2) by simp
  then have e: "?a \<in> engine_addrs (\<lambda>q. q) (sy_engine (pg_engines s ! 0))" by (simp add: engine_addrs_def)
  note t = engine_orders_are_well_formed [OF demo_library_ok demo_start_ok demo_pools_apart _ _ demo_main_gateway_ready
      s(1) [unfolded demo_program_def] _ e refl]
  then show ?thesis using s(1) a by (intro exI [of _ s] exI [of _ ?a]) (simp add: symbols_def)
qed

text \<open>
  C6: the positions stay flat.  The position manager keys its positions by symbol alone, and of
  every fill both sides are booked: the maker's and the taker's.  In every run of the program,
  whatever the bots submit and in whatever order the threads take their passes, the net position of every symbol is
  zero after every pass, also where a level overflows or the sums wrap around.
\<close>

theorem positions_stay_flat:
  assumes "library_ok L free gfree contents qcontents ccontents cap" "start_ok free bot_pools sim_pool prices"
    "pools_apart free bot_pools" "contents order_queue = []" "ccontents cancel_queue = []" "gateway_ready gfree gateway"
    "(program_step L)\<^sup>*\<^sup>*
       (program_start gateway order_queue bot_queue cancel_queue bot_pools sim_pool st content prices) s"
  shows "\<exists>m. tr_positions (pg_trading s) = Some m \<and> (\<forall>symbol. get_position m symbol = 0)"
proof -
  have "program_safe free gfree contents qcontents ccontents (free sim_pool) (\<Union>p \<in> set bot_pools. free p) s"
    by (rule program_safe_run [OF assms(7,1) program_safe_start [of free bot_pools sim_pool prices contents order_queue
          ccontents cancel_queue, OF assms(2-6)]])
  then have "flat (pg_trading s)" by (simp add: program_safe_def program_owns_def engine_ready_def)
  then show ?thesis by (auto simp: flat_def net_of_def get_position_def split: option.splits)
qed

theorem positions_stay_flat_witness:
  "\<exists>s m. (program_step demo_library)\<^sup>*\<^sup>* demo_program s \<and> pg_started s \<and>
     tr_positions (pg_trading s) = Some m \<and> (\<forall>symbol. get_position m symbol = 0)"
proof -
  obtain s where s: "(program_step demo_library)\<^sup>*\<^sup>* demo_program s" "pg_started s" by (rule demo_run)
  show ?thesis
    using positions_stay_flat [OF demo_library_ok demo_start_ok demo_pools_apart _ _ demo_main_gateway_ready
        s(1) [unfolded demo_program_def]] s by blast
qed

end
