(* ===== verification/Engine_Room.thy ===== *)
theory Engine_Room
  imports Engine_Trace
begin

text \<open>
  An engine with room.  The orders that an engine reaches are distinct objects that the thread of
  its symbol holds.  So while the thread holds at most 127 handles, no two of them with the same
  order id, no level can overflow and no entry of the index can be overwritten: the preconditions
  of matching hold for every order in the queue, every cycle returns, and it empties the queue.
\<close>

subsection \<open>What a book reaches\<close>

lemma entries_addrs: "level_ok st pl \<Longrightarrow> set (entries pl) \<subseteq> level_addrs pl"
proof
  fix a assume "level_ok st pl" "a \<in> set (entries pl)"
  then have "Some a \<in> set (slots pl)" using slots_eq_entries [of pl] by (auto simp: level_ok_def)
  then show "a \<in> level_addrs pl" by (auto simp: slots_def level_addrs_def)
qed

lemma entries_reached:
  assumes "book_inv st b" "l \<in> set (all_levels b)"
  shows "set (entries (lv b l)) \<subseteq> book_addrs b" "distinct (entries (lv b l))"
proof -
  have ok: "book_shape b" "book_orders st b" using assms(1) by (simp_all add: book_inv_def book_ok_def)
  obtain s where "l \<in> set (levels_of s b)" by (rule all_levels_side [OF assms(2)])
  then have level: "level_ok st (lv b l)" using ok(2) by (simp add: book_orders_def)
  then show "distinct (entries (lv b l))" by (simp add: level_ok_def)
  show "set (entries (lv b l)) \<subseteq> book_addrs b"
    using entries_addrs [OF level] heap_level [OF ok(1) assms(2)] by (fastforce simp: book_addrs_def intro: ranI)
qed

lemma unseen_outside: "\<lbrakk>book_inv st b; a \<notin> book_addrs b\<rbrakk> \<Longrightarrow> unseen b a"
  using entries_reached(1) by (fastforce simp: unseen_def book_addrs_def intro: ranI)

lemma book_inv_frame:
  assumes "book_inv st b" "\<forall>a \<in> book_addrs b. st' a = st a"
  shows "book_inv st' b"
proof -
  have "unseen b a \<or> same_view (st' a) (st a)" for a
    using assms unseen_outside by (cases "a \<in> book_addrs b") (auto simp: same_view_def)
  then show ?thesis using store_view(1) assms(1) by (fastforce simp: book_inv_def)
qed

subsection \<open>Room for the orders of a queue\<close>

definition has_handles :: "addr set \<Rightarrow> store \<Rightarrow> bool" where
  "has_handles H st \<longleftrightarrow> finite H \<and> card H \<le> 127 \<and> inj_on (\<lambda>a. o_order_id (st a)) H"

lemma room_processable:
  assumes own: "engine_owns contents H symbol (tr_store w) e" and ready: "engine_ready gfree w"
    and inv: "book_inv (tr_store w) (me_book e)" and q: "contents (me_queue e) = a # as"
    and room: "has_handles H (tr_store w)"
  shows "processable w (e\<lparr>me_queue := q\<rparr>) a"
proof -
  let ?b = "me_book e" and ?st = "tr_store w"
  have H: "book_addrs ?b \<subseteq> H" "a \<in> H" and a: "a \<notin> book_addrs ?b" "is_active (?st a)" "o_filled (?st a) = 0" "o_remaining (?st a) \<noteq> 0"
    using own q by (auto simp: engine_owns_def engine_addrs_def)
  note unseen = unseen_outside [OF inv a(1)]
  have "ob_index ?b (o_order_id (?st a)) = None"
  proof (rule ccontr)
    assume "ob_index ?b (o_order_id (?st a)) \<noteq> None"
    then obtain loc where loc: "ob_index ?b (o_order_id (?st a)) = Some loc" by auto
    then have "o_order_id (?st (loc_order loc)) = o_order_id (?st a)"
      using inv unfolding book_inv_def book_ok_def book_index_def by blast
    moreover have "loc_order loc \<in> book_addrs ?b" using loc by (auto simp: book_addrs_def intro: ranI)
    ultimately show False using room H a(1) unfolding has_handles_def inj_on_def by blast
  qed
  then have "fresh_order ?st ?b a" using unseen by (simp add: fresh_order_def unseen_def)
  moreover have "ring_len (lv ?b l) < 127" if "l \<in> set (levels_of s ?b)" for s l
  proof -
    note e = entries_reached [OF inv in_all_levels [OF that]]
    have "set (entries (lv ?b l)) \<subseteq> H - {a}" using e(1) H(1) a(1) by blast
    moreover have "finite (H - {a})" using room by (simp add: has_handles_def)
    ultimately have "card (set (entries (lv ?b l))) \<le> card (H - {a})" by (rule card_mono [rotated])
    moreover have "card (H - {a}) < 127" using room H(2) card_gt_0_iff [of H] by (fastforce simp: has_handles_def)
    ultimately show ?thesis using e(2) by (simp add: distinct_card)
  qed
  then have "side_room ?b s p" for s p by (simp add: side_room_def)
  ultimately show ?thesis
    using a ready by (simp add: processable_def Let_def live_def engine_ready_def)
qed

lemma process_room:
  assumes P: "object_pool P gfree" and own: "engine_owns contents H symbol (tr_store w) e" "engine_ready gfree w"
    and inv: "book_inv (tr_store w) (me_book e)" and q: "contents (me_queue e) = a # contents q"
    and room: "has_handles H (tr_store w)"
  obtains w' e' where "process_order P Q a w (e\<lparr>me_queue := q\<rparr>) = Some (Inr (w', e'))"
    "engine_owns contents H symbol (tr_store w') e'" "engine_ready gfree w'" "book_inv (tr_store w') (me_book e')"
    "me_queue e' = q" "has_handles H (tr_store w')"
proof -
  let ?e = "e\<lparr>me_queue := q\<rparr>"
  have "engine_inv gfree w ?e" using inv own(2) by (simp add: engine_inv_def engine_ready_def)
  from process_safe [OF P this room_processable [OF own inv q room], of Q] obtain w' e' where
    r: "process_order P Q a w ?e = Some (Inr (w', e'))" "engine_inv gfree w' e'" "me_queue e' = me_queue ?e" by blast
  obtain w2 e2 where t: "(Inr (w', e') :: _ res) = Inr (w2, e2)" "engine_owns contents H symbol (tr_store w2) e2" "engine_ready gfree w2"
    "\<And>y. o_order_id (tr_store w2 y) = o_order_id (tr_store w y)"
    by (rule process_trace [OF P own q r(1)]) (rule that, assumption+)
  show thesis
    by (rule that [OF r(1)]) (use t r(2,3) room in \<open>simp_all add: engine_inv_def has_handles_def\<close>)
qed

lemma cycle_room:
  assumes P: "object_pool P gfree" and OQ: "spsc_queue OQ contents cap"
  shows "\<lbrakk>engine_owns contents H symbol (tr_store w) e; engine_ready gfree w; book_inv (tr_store w) (me_book e);
      has_handles H (tr_store w)\<rbrakk>
    \<Longrightarrow> \<exists>w' e'. run_match_cycle P Q OQ w e = Some (Inr (w', e')) \<and> engine_owns contents H symbol (tr_store w') e' \<and>
      engine_ready gfree w' \<and> book_inv (tr_store w') (me_book e') \<and> has_handles H (tr_store w') \<and>
      contents (me_queue e') = []"
proof (induction "contents (me_queue e)" arbitrary: w e)
  case Nil
  obtain p q where pop: "q_pop OQ (me_queue e) = (p, q)" by fastforce
  then have "p = None" "contents q = []"
    using spsc_queueD(3,4) [OF OQ, of "me_queue e"] Nil(1) [symmetric] by simp_all
  then show ?case
    using Nil pop by (subst run_match_cycle.simps) (simp add: engine_owns_def engine_addrs_def)
next
  case (Cons a as)
  obtain p q where pop: "q_pop OQ (me_queue e) = (p, q)" by fastforce
  then have p: "p = Some a" "as = contents q"
    using spsc_queueD(3,4) [OF OQ, of "me_queue e"] Cons(2) [symmetric] by simp_all
  have q: "contents (me_queue e) = a # contents q" using Cons(2) p(2) by simp
  obtain w1 e1 where s: "process_order P Q a w (e\<lparr>me_queue := q\<rparr>) = Some (Inr (w1, e1))"
    "engine_owns contents H symbol (tr_store w1) e1" "engine_ready gfree w1" "book_inv (tr_store w1) (me_book e1)"
    "me_queue e1 = q" "has_handles H (tr_store w1)"
    by (rule process_room [OF P Cons.prems(1-3) q Cons.prems(4)])
  have "run_match_cycle P Q OQ w e = run_match_cycle P Q OQ w1 e1"
    using s(1) pop p(1) by (subst run_match_cycle.simps) simp
  then show ?case using Cons(1) [of e1 w1] s p(2) by simp
qed

end
