(* ===== verification/Program_Room.thy ===== *)
theory Program_Room
  imports Program_Safety Engine_Room
begin

text \<open>
  The program with room.  As long as no thread holds more than 127 handles, and the order ids
  among them are distinct, the whole invariant of all five books in which orders are matched
  holds in every run, and every pass of every thread returns.
\<close>

subsection \<open>An engine and its surroundings\<close>

definition engine_full ::
  "('o \<Rightarrow> addr list) \<Rightarrow> addr set \<Rightarrow> string \<Rightarrow> store \<Rightarrow> 'o engine \<Rightarrow> bool" where
  "engine_full contents H symbol st e \<longleftrightarrow>
     engine_owns contents H symbol st e \<and> book_inv st (me_book e) \<and> has_handles H st"

lemma engine_full_store:
  assumes "engine_full contents H symbol st e" "\<forall>a \<in> H. st' a = st a"
  shows "engine_full contents H symbol st' e"
proof -
  have own: "engine_owns contents H symbol st e" using assms(1) by (simp add: engine_full_def)
  then have "book_addrs (me_book e) \<subseteq> H" by (auto simp: engine_owns_def engine_addrs_def)
  then have "book_inv st' (me_book e)"
    using assms book_inv_frame [of st "me_book e" st'] by (auto simp: engine_full_def)
  moreover have "inj_on (\<lambda>a. o_order_id (st' a)) H = inj_on (\<lambda>a. o_order_id (st a)) H"
    using assms(2) by (simp cong: inj_on_cong)
  ultimately show ?thesis
    using assms(1) engine_owns_store [OF own assms(2)] by (simp add: engine_full_def has_handles_def)
qed

lemma sy_cycle_room:
  assumes P: "object_pool P gfree" and OQ: "spsc_queue OQ contents cap"
    and e: "engine_full contents H symbol (tr_store w) (sy_engine e)" "engine_ready gfree w"
  obtains w' e' where "sy_run_match_cycle P Q OQ w e = Some (Inr (w', e'))"
    "engine_full contents H symbol (tr_store w') (sy_engine e')" "engine_ready gfree w'"
    "contents (me_queue (sy_engine e')) = []" "untouched H (tr_store w) (tr_store w')"
proof -
  obtain w' e1 where c: "run_match_cycle P Q OQ w (sy_engine e) = Some (Inr (w', e1))"
    "engine_full contents H symbol (tr_store w') e1" "engine_ready gfree w'" "contents (me_queue e1) = []"
    using cycle_room [OF P OQ _ e(2)] e(1) unfolding engine_full_def by blast
  let ?e = "e\<lparr>sy_engine := e1\<rparr>"
  have r: "sy_run_match_cycle P Q OQ w e = Some (Inr (w', ?e))" using c(1) by (simp add: sy_run_match_cycle_def)
  have "engine_addrs contents (sy_engine e) \<subseteq> H" using e(1) by (simp add: engine_full_def engine_owns_def)
  then have "untouched H (tr_store w) (tr_store w')" by (rule untouched_mono [OF sy_cycle_frame(1) [OF OQ r]])
  then show thesis using that [OF r] c by simp
qed

subsection \<open>The program\<close>

definition uncrowded :: "('g, 'q, 'o, 'oq, 'cq, 'p) program \<Rightarrow> bool" where
  "uncrowded s \<longleftrightarrow> (\<forall>t \<in> set (pg_threads s). length (st_storage t) \<le> 127 \<and>
     inj_on (\<lambda>a. o_order_id (tr_store (pg_trading s) a)) (set (st_storage t)))"

definition uncrowded_step ::
  "('g, 'q, 'o, 'oq, 'cq, 'p) library \<Rightarrow> ('g, 'q, 'o, 'oq, 'cq, 'p) program
    \<Rightarrow> ('g, 'q, 'o, 'oq, 'cq, 'p) program \<Rightarrow> bool" where
  "uncrowded_step L s s' \<longleftrightarrow> program_step L s s' \<and> uncrowded s'"

definition books_full :: "('g, 'q, 'o, 'oq, 'cq, 'p) program \<Rightarrow> bool" where
  "books_full s \<longleftrightarrow> (\<forall>i < 5. book_inv (tr_store (pg_trading s)) (me_book (sy_engine (pg_engines s ! i))))"

lemma uncrowded_handles:
  assumes "uncrowded s" "i < length (pg_threads s)"
  shows "has_handles (set (st_storage (pg_threads s ! i))) (tr_store (pg_trading s))"
proof -
  have t: "length (st_storage (pg_threads s ! i)) \<le> 127"
    "inj_on (\<lambda>a. o_order_id (tr_store (pg_trading s) a)) (set (st_storage (pg_threads s ! i)))"
    using assms(1) nth_mem [OF assms(2)] unfolding uncrowded_def by blast+
  show ?thesis using t(2) card_length [of "st_storage (pg_threads s ! i)"] t(1) unfolding has_handles_def by simp
qed

lemma program_engine_full:
  assumes own: "program_owns free contents qcontents ccontents gfree s" and "books_full s" "uncrowded s" "i < 5"
  shows "engine_full contents (set (st_storage (pg_threads s ! i))) (symbols ! i) (tr_store (pg_trading s))
    (sy_engine (pg_engines s ! i))"
  using program_owns_parts(1,2) [OF own assms(4)] uncrowded_handles [OF assms(3), of i] assms(2,4)
  by (simp add: engine_full_def books_full_def)

lemma books_full_kept:
  assumes own: "program_owns free contents qcontents ccontents gfree s" and "books_full s" "books_kept s s'"
  shows "books_full s'"
  unfolding books_full_def
proof (intro allI impI)
  fix i :: nat assume i: "i < 5"
  have "book_addrs (me_book (sy_engine (pg_engines s ! i))) \<subseteq> set (st_storage (pg_threads s ! i))"
    using program_owns_parts(1) [OF own i] by (auto simp: engine_owns_def engine_addrs_def)
  moreover have "book_inv (tr_store (pg_trading s)) (me_book (sy_engine (pg_engines s ! i)))"
    using assms(2) i by (simp add: books_full_def)
  moreover have "\<forall>a \<in> set (st_storage (pg_threads s ! i)). tr_store (pg_trading s') a = tr_store (pg_trading s) a"
    using assms(3) i by (simp add: books_kept_def)
  ultimately have "book_inv (tr_store (pg_trading s')) (me_book (sy_engine (pg_engines s ! i)))"
    by (blast intro: book_inv_frame)
  then show "book_inv (tr_store (pg_trading s')) (me_book (sy_engine (pg_engines s' ! i)))"
    using assms(3) i by (simp add: books_kept_def)
qed

lemma worker_pass_room:
  assumes L: "library_ok L free gfree contents qcontents ccontents cap"
    and own: "program_owns free contents qcontents ccontents gfree s" and len: "length (pg_engines s) = 5"
    and full: "books_full s" "uncrowded s" and i: "i < 5"
  obtains s' where "worker_pass L i s = Some (Inr s')" "books_full s'"
    "contents (me_queue (sy_engine (pg_engines s' ! i))) = []"
proof -
  note laws = L [unfolded library_ok_def]
  let ?e = "pg_engines s ! i" and ?w = "pg_trading s" and ?H = "\<lambda>j. set (st_storage (pg_threads s ! j))"
  have ready: "engine_ready gfree ?w" using own by (simp add: program_owns_def)
  obtain w e where c: "sy_run_match_cycle (lib_report_pool L) (lib_report_queue L) (lib_order_queue L) ?w ?e = Some (Inr (w, e))"
    "engine_full contents (?H i) (symbols ! i) (tr_store w) (sy_engine e)" "contents (me_queue (sy_engine e)) = []"
    "untouched (?H i) (tr_store ?w) (tr_store w)"
    by (rule sy_cycle_room [OF _ _ program_engine_full [OF own full i] ready]) (use laws in auto)
  let ?s = "s\<lparr>pg_trading := w, pg_engines := (pg_engines s)[i := e]\<rparr>"
  have "book_inv (tr_store w) (me_book (sy_engine ((pg_engines s)[i := e] ! j)))" if j: "j < 5" for j
  proof (cases "j = i")
    case True
    then show ?thesis using c(2) i len by (simp add: engine_full_def)
  next
    case False
    have "?H j \<inter> ?H i = {}" using program_owns_parts(3) [OF own i j False] by (auto simp: region_def)
    then have "engine_full contents (?H j) (symbols ! j) (tr_store w) (sy_engine (pg_engines s ! j))"
      by (intro engine_full_store [OF program_engine_full [OF own full j]]) (use c(4) in \<open>auto simp: untouched_def\<close>)
    then show ?thesis using False by (simp add: engine_full_def)
  qed
  then have "books_full ?s" by (simp add: books_full_def)
  moreover have "worker_pass L i s = Some (Inr ?s)" using c(1) by (simp add: worker_pass_def)
  ultimately show thesis using that c(3) i len by simp
qed

lemma uncrowded_step_full:
  assumes step: "program_step L s s'" and L: "library_ok L free gfree contents qcontents ccontents cap"
    and safe: "program_safe free gfree contents qcontents ccontents S B s" and full: "books_full s" "uncrowded s"
  shows "books_full s'"
proof -
  note laws = L [unfolded library_ok_def]
  have inv: "program_inv free contents S B 500 s" and own: "program_owns free contents qcontents ccontents gfree s"
    using safe by (simp_all add: program_safe_def)
  note kept = books_full_kept [OF own full(1)]
  show ?thesis
    using step
  proof cases
    case (Worker i)
    then have "i < 5" using engines_five [OF inv] by simp
    then obtain s1 where "worker_pass L i s = Some (Inr s1)" "books_full s1"
      by (rule worker_pass_room [OF L own engines_five [OF inv] full])
    then show ?thesis using Worker by simp
  next
    case (Snapshot i ds)
    then have "i < 5" using program_owns_parts(2) [OF own, of 0] by simp
    then show ?thesis
      using snapshot_pass_owns [OF _ _ _ _ own inv, of L cap cap i ds] laws Snapshot(3) kept by auto
  next
    case Cancels
    obtain m where "cancel_pass L s = Some (Inr (s\<lparr>pg_bots := m\<rparr>))"
      using cancel_pass_owns [OF _ own, of L cap] laws by metis
    then have "s' = s\<lparr>pg_bots := m\<rparr>" using Cancels by simp
    then show ?thesis using full(1) by (simp add: books_full_def)
  next
    case Start
    then obtain s1 where "start_pass L s = Inr s1" "untouched S (tr_store (pg_trading s)) (tr_store (pg_trading s1))" "sim_step s s1"
      using start_pass_inv [OF _ inv Start(1), of L] laws by metis
    then show ?thesis using sim_step_owns(2) [OF own inv] Start(2) kept by simp
  next
    case (Tick ds opened)
    obtain s1 where "tick_pass L opened ds s = Inr s1" "untouched S (tr_store (pg_trading s)) (tr_store (pg_trading s1))" "sim_step s s1"
      using tick_pass_inv [OF _ inv Tick(1,3), of L opened] laws by metis
    then show ?thesis using sim_step_owns(2) [OF own inv] Tick(4) kept by simp
  next
    case Stop
    then show ?thesis using full(1) by (simp add: books_full_def stop_running_def)
  qed
qed

lemma uncrowded_run:
  "\<lbrakk>(uncrowded_step L)\<^sup>*\<^sup>* s s'; library_ok L free gfree contents qcontents ccontents cap;
    program_safe free gfree contents qcontents ccontents S B s; books_full s; uncrowded s\<rbrakk>
    \<Longrightarrow> program_safe free gfree contents qcontents ccontents S B s' \<and> books_full s' \<and> uncrowded s'"
  by (induction rule: rtranclp_induct) (auto simp: uncrowded_step_def dest: program_safe_step uncrowded_step_full)

lemma uncrowded_start:
  assumes "length bot_pools = 5"
  shows "uncrowded (program_start gateway order_queue bot_queue cancel_queue bot_pools sim_pool st content prices)"
    "books_full (program_start gateway order_queue bot_queue cancel_queue bot_pools sim_pool st content prices)"
  using assms book_inv_new
  by (auto simp: uncrowded_def books_full_def program_start_def main_threads_def main_engines_def main_trading_def
      symbols_distinct new_symbol_engine_def new_engine_def in_set_conv_nth)

text \<open>
  C7: a program with room never hangs.  Take any run in which no snapshot thread holds more than
  127 handles at a time, and no two with the same order id.  Whatever the bots submit and in
  whatever order the threads take their passes, the whole invariant of the five books in which orders are
  matched holds all the time (structure, depths, best prices, index, no level that overflowed); the
  next match cycle of every worker returns and leaves an empty queue.  (The bound is that of the ring of a level: \<open>crowded_level_hangs\<close> shows
  what the 128th order does.)
\<close>

theorem uncrowded_programs_return:
  assumes "library_ok L free gfree contents qcontents ccontents cap" "start_ok free bot_pools sim_pool prices"
    "pools_apart free bot_pools" "contents order_queue = []" "ccontents cancel_queue = []" "gateway_ready gfree gateway"
    "(uncrowded_step L)\<^sup>*\<^sup>*
       (program_start gateway order_queue bot_queue cancel_queue bot_pools sim_pool st content prices) s"
  shows "\<forall>i < 5. book_inv (tr_store (pg_trading s)) (me_book (sy_engine (pg_engines s ! i))) \<and>
       (\<exists>s'. worker_pass L i s = Some (Inr s') \<and> contents (me_queue (sy_engine (pg_engines s' ! i))) = [])"
proof -
  let ?B = "\<Union>p \<in> set bot_pools. free p"
  have "program_safe free gfree contents qcontents ccontents (free sim_pool) ?B s \<and> books_full s \<and> uncrowded s"
    by (rule uncrowded_run [OF assms(7,1) program_safe_start [of free bot_pools sim_pool prices contents order_queue
          ccontents cancel_queue, OF assms(2-6)] uncrowded_start(2,1)]) (use assms(2) in \<open>simp_all add: start_ok_def\<close>)
  then have inv: "program_inv free contents (free sim_pool) ?B 500 s" and full: "books_full s" "uncrowded s"
    and own: "program_owns free contents qcontents ccontents gfree s"
    by (simp_all add: program_safe_def)
  note room = worker_pass_room [OF assms(1) own engines_five [OF inv] full]
  show ?thesis using full(1) room unfolding books_full_def by metis
qed

lemma demo_uncrowded_run:
  obtains s where "(uncrowded_step demo_library)\<^sup>*\<^sup>* demo_program s" "pg_started s"
proof -
  have start: "\<not> pg_started demo_program" by (simp add: demo_program_def program_start_def)
  obtain s where s: "start_pass demo_library demo_program = Inr s" "pg_started s" "sim_step demo_program s"
    by (rule start_pass_inv [OF demo_library_laws(1) demo_program_inv start])
  have "\<forall>t \<in> set (pg_threads demo_program). st_storage t = []"
    by (auto simp: demo_program_def program_start_def main_threads_def in_set_conv_nth symbols_distinct)
  then have "uncrowded s" using s(3) by (simp add: uncrowded_def sim_step_def)
  then have "uncrowded_step demo_library demo_program s"
    using program_step.Start [OF start s(1)] by (simp add: uncrowded_step_def)
  then show thesis using that s(2) by blast
qed

theorem uncrowded_programs_return_witness:
  "\<exists>s. (uncrowded_step demo_library)\<^sup>*\<^sup>* demo_program s \<and> pg_started s \<and>
     (\<forall>i < 5. book_inv (tr_store (pg_trading s)) (me_book (sy_engine (pg_engines s ! i))) \<and>
       (\<exists>s'. worker_pass demo_library i s = Some (Inr s') \<and> me_queue (sy_engine (pg_engines s' ! i)) = []))"
proof -
  obtain s where s: "(uncrowded_step demo_library)\<^sup>*\<^sup>* demo_program s" "pg_started s" by (rule demo_uncrowded_run)
  show ?thesis
    using uncrowded_programs_return [OF demo_library_ok demo_start_ok demo_pools_apart _ _ demo_main_gateway_ready
        s(1) [unfolded demo_program_def]] s by blast
qed

end
