(* ===== verification/Spec2Isabelle.thy ===== *)
theory Spec2Isabelle
  imports Snapshot_Order Itch_Replay Fix_Encoder Program_Prices Program_Room
begin

text \<open>
  Velox, a trading engine for a simulated market (\<open>include/velox\<close>, \<open>src\<close>, \<open>tools\<close>): a shallow
  embedding of its components and the theorems about them.

  How the program works.  Bots look at snapshots of a symbol's order book and submit orders; a
  snapshot thread per symbol copies them into pooled objects and queues them at the symbol's
  matching engine; the engine asks the risk manager, matches against its order book with
  price-time priority, moves the positions and reports fills to the execution gateway.  A market
  simulator keeps two resting orders in the published book of every symbol and moves its best
  prices; a feed handler parses ITCH files for the replay tool; a store keeps the last prices in
  a text file.

  \<^bold>\<open>The theories\<close>, with the files they model:

  \<^item> \<open>Velox_Prelude\<close>: the fault and result types, C strings, word and list lemmas shared by all.
  \<^item> \<open>Order_Model\<close>: \<open>matching/order.hpp\<close>, \<open>book/fill.hpp\<close>.  Orders are objects in a store, a
    function from addresses, because book, engine, bots and fills share them by pointer.
  \<^item> \<open>Price_Level\<close>, \<open>Price_Level_Props\<close>: \<open>book/price_level.*\<close>, the ring of 128 slots with lazy deletion.
  \<^item> \<open>Order_Book\<close> (model), \<open>_Inv\<close> (invariant), \<open>_Ops\<close>, \<open>_Cancel\<close>, \<open>_Match\<close> (preservation), \<open>_Spec\<close> (the
    abstract price-time matching), \<open>_Props\<close>: \<open>book/order_book.*\<close>.  Levels are heap objects, so that
    reading a deleted level is a fault.
  \<^item> \<open>Risk_Manager\<close>, \<open>Position_Manager\<close>: \<open>risk/*\<close>.
  \<^item> \<open>Lockfree\<close>: the interface of a bounded queue (locale \<open>bounded_fifo\<close>, interpreted by the ring of
    a price level) and the laws of the queues and pools of the lock-free submodule.
  \<^item> \<open>Execution_Gateway\<close>: \<open>gateway/execution_gateway.*\<close>.  \<open>Decimal\<close>, \<open>Fix_Encoder\<close>:
    \<open>std::to_string\<close> and its inverses, \<open>gateway/fix_encoder.*\<close>.
  \<^item> \<open>Matching_Engine\<close>, \<open>Matching_Engine_Props\<close>, \<open>Trading_Props\<close>: \<open>matching/matching_engine.*\<close> and
    \<open>core/symbol_engine.hpp\<close>, with the runs of an engine from its start.
  \<^item> \<open>Feed_Handler\<close>, \<open>Itch_Writer\<close>, \<open>Itch_Sample\<close>, \<open>Itch_Replay\<close>: \<open>feed/feed_handler.*\<close>,
    \<open>tools/create_itch.cpp\<close>, \<open>tools/itch_parser.cpp\<close>.
  \<^item> \<open>Book_Snapshot\<close>, \<open>Snapshot_Rcu\<close>, \<open>Snapshot_Order\<close>: \<open>book/book_snapshot.*\<close>, as sequential functions,
    as a step relation over the atomic accesses of its threads that see the newest values, and as one
    under the memory orders of the code (stores with views, loads that may return older values).
  \<^item> \<open>Bots\<close>, \<open>Bots_Props\<close>, \<open>Bot_Manager\<close>: \<open>sim/strategy/*\<close>; the locale \<open>order_tracker\<close> states what the
    four bots with an order limit share and is interpreted by each of them.
  \<^item> \<open>Market_Sim\<close>, \<open>Market_Sim_Props\<close>, \<open>Market_Quotes\<close>, \<open>Market_State_Store\<close>: \<open>sim/env/*\<close>.
    \<open>Market_All\<close> takes the simulator from one symbol to all symbols of a tick.
  \<^item> \<open>Main_Loop\<close>, \<open>Main_Props\<close>, \<open>Maker_Rotation\<close>: the loops of \<open>src/main.cpp\<close>, one by one.
    The locale \<open>bot_contract\<close> in \<open>Bot_Contract\<close> takes what every bot keeps to the bot manager and the
    orders in its queues; it is interpreted for the symbols and the sizes of orders.
  \<^item> \<open>Program\<close>: the whole of \<open>src/main.cpp\<close>.  The record \<open>program\<close> holds the locals of \<open>main\<close>;
    \<open>program_step\<close> is one pass of one of its threads (worker, snapshot, cancel, simulator), and the
    runs interleave the passes in any order; \<open>shutdown\<close> is what follows the market's close.  The
    pools of the snapshot threads end with their threads, so that the final drain
    (\<open>late_match_cycle\<close>) runs on a queue whose orders may be gone.
    \<open>Store_Frame\<close> states for every operation which orders and which levels it leaves alone, as
    far as this is needed to take the invariants of the components over all threads.
  \<^item> \<open>Match_Trace\<close>, \<open>Engine_Trace\<close>: what matching and an engine do to orders, levels and positions
    without the preconditions of the book's invariant (room in the levels, fresh order ids), from
    the pointer structure alone.  \<open>Program_Owns\<close>: every pooled order belongs to one snapshot thread,
    which no pass of any thread breaks; \<open>Program_Safety\<close>: what follows for all runs.  \<open>Engine_Room\<close>,
    \<open>Program_Room\<close>: runs in which the threads hold at most 127 handles each.
  \<^item> \<open>Program_Props\<close>, \<open>Program_Prices\<close>, \<open>Program_Snapshots\<close>: the properties of the runs of the whole
    program.

  \<^bold>\<open>How code becomes definitions.\<close>  A class is a record, an operation a function from the old state
  to the new one.  \<open>uint32_t\<close> and \<open>uint64_t\<close> are words; \<open>int64_t\<close> values are integers that wrap at
  the arithmetic that can overflow (\<open>s64\<close>).  A null pointer, a deleted level and an access out of
  bounds are values of the type \<open>fault\<close>; loops that might not end are \<open>partial_function (option)\<close>,
  so that running for ever is \<open>None\<close>, and that they end is proved (\<open>book_match\<close>, \<open>run_match_cycle\<close>,
  \<open>take_orders\<close>) or refuted (\<open>crowded_level_hangs\<close>).  No model uses fuel; the only bounds in
  hypotheses are those of the code: 127 orders per price, the capacity of queues and pools (the
  simulator needs twelve objects of its hundred thousand: two per symbol, and two more while it
  replaces them), and magnitudes below which an \<open>int64_t\<close> sum is exact (initial prices below
  \<open>2 ^ 62\<close>) or a counter does not wrap around (runs of less than \<open>2 ^ 60\<close> passes).

  \<^bold>\<open>What is shown.\<close>  The order book: its invariant holds in all runs, matching refines the abstract
  price-time matching, conserves quantities and respects priority; adding and cancelling change
  exactly one entry.  The engine: every branch of \<open>process_order\<close>, the order of processing, the
  balance of positions.  Snapshots: what a capture shows; that no interleaving changes a snapshot
  that a reader holds if two kinds of loads see the newest value (\<open>held_snapshots_are_stable\<close>), and
  that the acquire and release orders of the code allow it to be overwritten
  (\<open>acquire_release_overwrites\<close>).  Bots and main loop: the limit on submissions, and the way of an
  order from a bot to the engine.  Round
  trips for the feed, the FIX messages and the price file.  The whole program: in every run every
  published book holds exactly two sane quotes and the simulator never fails
  (\<open>market_is_always_quoted\<close>); what it stores is what the next start reads
  (\<open>prices_survive_a_restart\<close>); the number of polls before the first quotes decides what the bots
  see for ever (\<open>early_polls_decide\<close>); every order that an engine can reach is well formed
  (\<open>engine_orders_are_well_formed\<close>); no pass of any thread faults, whatever the bots submit, also when
  levels overflow or order ids repeat, but the shutdown reads destroyed orders if one is left in a
  queue (\<open>no_pass_faults\<close>); the positions of all symbols are zero after every pass
  (\<open>positions_stay_flat\<close>); and while the threads hold few handles every match cycle returns, with an
  empty queue and the whole invariant of the books
  (\<open>uncrowded_programs_return\<close>).  Where the code does not do what it
  means to (an overflowing level, limits that never see a trade, reports that overwrite each
  other, market makers that starve), the theorem states what it does.

  \<^bold>\<open>Parameters.\<close>  The lock-free library is a git submodule that is not part of the sources: its
  queues (\<open>queue_ops\<close>, law \<open>spsc_queue\<close>) and object pools (\<open>pool_ops\<close>, law \<open>object_pool\<close>) are arguments,
  and every theorem that assumes their laws has a witness on a list queue or a stack pool.  The pools
  of two threads hold different objects (\<open>pools_apart\<close>).
  Random draws are inputs, and a file is an optional string.

  \<^bold>\<open>Not modelled.\<close>  Creating and joining threads, sleeping and console output; the handler of a
  signal and the end of the trading time only as the flag that they clear, at any moment; the
  interleaving of threads within one pass (apart from the accesses of the snapshot protocol), so
  that the data races of the code on books and orders are outside the model; weak memory outside
  \<open>Snapshot_Order\<close>; the rounding of \<open>double\<close> (a real number here: \<open>mid_price\<close> and the statistics
  of one bot); the empty \<open>on_fill\<close> hooks; tests, benchmarks and build files.
\<close>

end
